theory Spec2Isabelle
  imports Main
begin

section \<open>Knuth's elevator simulator (knuthElevator.go): data model\<close>

text \<open>
  The embedding follows the complete variant of the simulator (the third program of
  \<^verbatim>\<open>knuthElevator.go\<close>, the one with steps E1--E9 and U1--U6).

  The three states of the elevator and the nine steps are the constant blocks of the source.
\<close>

datatype direction = stateGoingUp | stateGoingDown | stateNeutral

datatype step =
    stepWaitForCall | stepChangeOfState | stepOpenDoors | stepLetPeopleOutIn | stepCloseDoors
  | stepPrepareToMove | stepGoUpAFloor | stepGoDownAFloor | stepSetInactionIndicator

definition floorHome :: int where "floorHome = 2"
definition floors :: int where "floors = 5"
definition minGiveUpTime :: int where "minGiveUpTime = 30 * 10"
definition maxGiveUpTime :: int where "maxGiveUpTime = 2 * 60 * 10"
definition minInterTime :: int where "minInterTime = 1 * 10"
definition maxInterTime :: int where "maxInterTime = 90 * 10"
definition maxTime :: int where "maxTime = 1000 * 10"

text \<open>
  A \<^verbatim>\<open>waitListener\<close> is a closure over one of the step functions (and, for the user
  steps, over the user it belongs to); here it is the name of the function together with the
  user, identified by the user's id.
\<close>

datatype inst =
    UserEnterPrepareForSuccessor
  | UserSignalAndWait nat
  | UserEnterQueue nat
  | UserGiveUp nat
  | UserGetIn nat
  | UserGetOut nat
  | ExecuteWaitForCall
  | ExecuteChangeOfState
  | ExecuteOpenDoors
  | ExecuteLetPeopleOutIn
  | ExecuteCloseDoors
  | ExecutePrepareToMove
  | ExecuteGoUpAFloor
  | ExecuteGoUpAFloor2
  | ExecuteGoDownAFloor
  | ExecuteGoDownAFloor2
  | ExecuteSetInactionIndicator

record waitElement =
  nextTime :: int
  nextInst :: inst

text \<open>
  A \<^verbatim>\<open>*node\<close> is an address together with the \<^verbatim>\<open>info\<close> stored there. A circular
  doubly linked list with its head node is the sequence of its other nodes, read along
  \<^verbatim>\<open>rlink\<close> from the head; a node that is in no list (after \<^verbatim>\<open>delete\<close> it links
  to itself) is in no sequence. \<^verbatim>\<open>nil\<close> is \<^term>\<open>None\<close>.
\<close>

type_synonym 'a node = "nat \<times> 'a"

record user =
  id_u :: nat
  in_u :: int
  out_u :: int
  giveUpTime :: int
  listNode :: "nat option"
  giveUp :: "nat option"

record elevator =
  callUp :: "bool list"
  callDown :: "bool list"
  callCar :: "bool list"
  floor_e :: int
  d1 :: bool
  d2 :: bool
  d3 :: bool
  state :: direction
  step :: step
  elev1 :: "nat option"
  elev2 :: "nat option"
  elev3 :: "nat option"
  stack :: "nat node list"
  queue :: "nat node list list"

text \<open>
  The simulator, with the two parts of the Go heap that its functions reach through
  pointers: the users (by id) and the next unused node address. The closures of the source
  hold a pointer to the user object that U1 allocated; here the value of \<^verbatim>\<open>userID\<close> at
  that moment stands for the pointer, so it is a natural number, as the node addresses are,
  and not a 64-bit integer (the number that the source prints for a user would wrap round
  after \<open>2\<^sup>6\<^sup>3\<close> arrivals; the object it reaches would not change).
\<close>

record simulator =
  time :: int
  userID :: nat
  ele :: elevator
  wait :: "waitElement node list"
  users :: "nat \<Rightarrow> user"
  nextNode :: nat

text \<open>The values \<^verbatim>\<open>random.Int31n\<close> returns during one call of U1, in the order drawn.\<close>

record draws =
  rIn :: int
  rOut :: int
  rGiveUp :: int
  rInter :: int

definition valid_draws :: "draws \<Rightarrow> bool" where
  "valid_draws d \<longleftrightarrow>
     0 \<le> rIn d \<and> rIn d < floors \<and> 0 \<le> rOut d \<and> rOut d < floors - 1 \<and>
     0 \<le> rGiveUp d \<and> rGiveUp d < maxGiveUpTime - minGiveUpTime \<and>
     0 \<le> rInter d \<and> rInter d < maxInterTime - minInterTime"

text \<open>
  Go's \<^verbatim>\<open>int\<close> has 64 bits here: the result of \<^verbatim>\<open>+\<close>, \<^verbatim>\<open>-\<close> and \<^verbatim>\<open>++\<close> is
  the one of the integers taken back into \<open>-2\<^sup>6\<^sup>3 .. 2\<^sup>6\<^sup>3 - 1\<close>. The sums of the clock and
  a delay and the steps of the floor are written with it; the sums that only involve the
  constants of the program and the values of \<^verbatim>\<open>Int31n\<close> cannot leave the range.
\<close>

definition wrap64 :: "int \<Rightarrow> int" where
  "wrap64 x = (x + 2 ^ 63) mod 2 ^ 64 - 2 ^ 63"

text \<open>
  What can go wrong at run time: an index outside a slice, and the loop of
  \<^verbatim>\<open>sortIn\<close> never finding its place.
\<close>

datatype error = IndexOutOfRange | Diverges

definition bindE :: "error + 'a \<Rightarrow> ('a \<Rightarrow> error + 'b) \<Rightarrow> error + 'b" where
  "bindE m f = (case m of Inl e \<Rightarrow> Inl e | Inr x \<Rightarrow> f x)"

definition at :: "'a list \<Rightarrow> int \<Rightarrow> error + 'a" where
  "at xs i = (if 0 \<le> i \<and> i < int (length xs) then Inr (xs ! nat i) else Inl IndexOutOfRange)"

definition put :: "'a list \<Rightarrow> int \<Rightarrow> 'a \<Rightarrow> error + 'a list" where
  "put xs i v = (if 0 \<le> i \<and> i < int (length xs) then Inr (xs[nat i := v]) else Inl IndexOutOfRange)"

text \<open>Go's \<^verbatim>\<open>||\<close> on two reads that may fail: the right one is read only after a false left one.\<close>

definition orE :: "error + bool \<Rightarrow> error + bool \<Rightarrow> error + bool" where
  "orE a b = (case a of Inl e \<Rightarrow> Inl e | Inr True \<Rightarrow> Inr True | Inr False \<Rightarrow> b)"

definition andE :: "error + bool \<Rightarrow> error + bool \<Rightarrow> error + bool" where
  "andE a b = (case a of Inl e \<Rightarrow> Inl e | Inr False \<Rightarrow> Inr False | Inr True \<Rightarrow> b)"

section \<open>The doubly linked lists and the WAIT list\<close>

text \<open>\<^verbatim>\<open>x.delete()\<close> takes the node at address \<open>a\<close> out of the list it is in.\<close>

definition unlink :: "nat \<Rightarrow> 'a node list \<Rightarrow> 'a node list" where
  "unlink a xs = filter (\<lambda>n. fst n \<noteq> a) xs"

text \<open>
  \<^verbatim>\<open>head.insertLeft(p)\<close> puts \<open>p\<close> between the last node and the head, and
  \<^verbatim>\<open>head.insertRight(p)\<close> between the head and the first node.
\<close>

definition insertLeft :: "'a node \<Rightarrow> 'a node list \<Rightarrow> 'a node list" where
  "insertLeft p xs = xs @ [p]"

definition insertRight :: "'a node \<Rightarrow> 'a node list \<Rightarrow> 'a node list" where
  "insertRight p xs = p # xs"

text \<open>
  The loop of \<^verbatim>\<open>sortIn\<close> walks the ring leftwards, starting at the head. The ring is
  the list of the \<^verbatim>\<open>nextTime\<close> fields in \<^verbatim>\<open>rlink\<close> order, the head (whose
  \<^verbatim>\<open>nextTime\<close> is 0, see \<^verbatim>\<open>newWaitQueue\<close>) at index 0; \<open>x\<close> is the index of the
  current node. The loop has no exit but the test, so it is a partial function: \<^term>\<open>None\<close>
  is the walk that goes round for ever.
\<close>

partial_function (option) sortIn_walk :: "int \<Rightarrow> int list \<Rightarrow> nat \<Rightarrow> nat option" where
  "sortIn_walk t ring x =
     (let x' = (if x = 0 then length ring - 1 else x - 1)
      in if t \<ge> ring ! x' then Some x' else sortIn_walk t ring x')"

definition sortIn :: "waitElement \<Rightarrow> nat \<Rightarrow> waitElement node list \<Rightarrow> waitElement node list option" where
  "sortIn w a xs =
     (case sortIn_walk (nextTime w) (0 # map (\<lambda>n. nextTime (snd n)) xs) 0 of
        None \<Rightarrow> None
      | Some k \<Rightarrow> Some (take k xs @ [(a, w)] @ drop k xs))"

definition immed :: "waitElement \<Rightarrow> nat \<Rightarrow> waitElement node list \<Rightarrow> waitElement node list" where
  "immed w a xs = insertRight (a, w) xs"

section \<open>The simulator\<close>

text \<open>The three handle slots \<^verbatim>\<open>&s.ele.elev1\<close>, \<^verbatim>\<open>&s.ele.elev2\<close> and \<^verbatim>\<open>&s.ele.elev3\<close>.\<close>

datatype slot = Elev1 | Elev2 | Elev3

definition getSlot :: "slot \<Rightarrow> simulator \<Rightarrow> nat option" where
  "getSlot sl s = (case sl of Elev1 \<Rightarrow> elev1 (ele s) | Elev2 \<Rightarrow> elev2 (ele s) | Elev3 \<Rightarrow> elev3 (ele s))"

definition setSlot :: "slot \<Rightarrow> nat option \<Rightarrow> simulator \<Rightarrow> simulator" where
  "setSlot sl v s =
     (case sl of
        Elev1 \<Rightarrow> s\<lparr>ele := (ele s)\<lparr>elev1 := v\<rparr>\<rparr>
      | Elev2 \<Rightarrow> s\<lparr>ele := (ele s)\<lparr>elev2 := v\<rparr>\<rparr>
      | Elev3 \<Rightarrow> s\<lparr>ele := (ele s)\<lparr>elev3 := v\<rparr>\<rparr>)"

definition newElevator :: elevator where
  "newElevator =
     \<lparr>callUp = replicate (nat floors) False, callDown = replicate (nat floors) False,
      callCar = replicate (nat floors) False, floor_e = floorHome,
      d1 = False, d2 = False, d3 = False, state = stateNeutral, step = stepWaitForCall,
      elev1 = None, elev2 = None, elev3 = None, stack = [],
      queue = replicate (nat floors) []\<rparr>"

definition newUser :: "nat \<Rightarrow> int \<Rightarrow> int \<Rightarrow> int \<Rightarrow> user" where
  "newUser i a b g =
     \<lparr>id_u = i, in_u = a, out_u = b, giveUpTime = g, listNode = None, giveUp = None\<rparr>"

definition newSimulator :: simulator where
  "newSimulator =
     \<lparr>time = 0, userID = 0, ele = newElevator, wait = [],
      users = (\<lambda>i. newUser i 0 0 0), nextNode = 0\<rparr>"

text \<open>
  \<^verbatim>\<open>x.delete()\<close> on the simulator: \<^verbatim>\<open>nil\<close> is left alone (the method's own test), any
  other node leaves the list it is in, whichever of the WAIT list, the stack and the queues
  that is.
\<close>

definition delete :: "nat option \<Rightarrow> simulator \<Rightarrow> simulator" where
  "delete x s =
     (case x of
        None \<Rightarrow> s
      | Some a \<Rightarrow>
          s\<lparr>wait := unlink a (wait s),
            ele := (ele s)\<lparr>stack := unlink a (stack (ele s)),
                            queue := map (unlink a) (queue (ele s))\<rparr>\<rparr>)"

text \<open>\<^verbatim>\<open>s.wait.sortIn(w)\<close> and \<^verbatim>\<open>s.wait.immed(w)\<close>: a new node, and its address.\<close>

definition waitSortIn :: "waitElement \<Rightarrow> simulator \<Rightarrow> error + (nat \<times> simulator)" where
  "waitSortIn w s =
     (case sortIn w (nextNode s) (wait s) of
        None \<Rightarrow> Inl Diverges
      | Some ws \<Rightarrow> Inr (nextNode s, s\<lparr>wait := ws, nextNode := Suc (nextNode s)\<rparr>))"

definition waitImmed :: "waitElement \<Rightarrow> simulator \<Rightarrow> nat \<times> simulator" where
  "waitImmed w s =
     (nextNode s, s\<lparr>wait := immed w (nextNode s) (wait s), nextNode := Suc (nextNode s)\<rparr>)"

definition scheduleElevator :: "slot \<Rightarrow> int \<Rightarrow> inst \<Rightarrow> simulator \<Rightarrow> error + simulator" where
  "scheduleElevator sl delay listener s =
     (let s1 = delete (getSlot sl s) s
      in bindE (waitSortIn \<lparr>nextTime = wrap64 (time s1 + delay), nextInst = listener\<rparr> s1)
           (\<lambda>(n, s2). Inr (setSlot sl (Some n) s2)))"

definition scheduleElevatorImmediately :: "slot \<Rightarrow> inst \<Rightarrow> simulator \<Rightarrow> simulator" where
  "scheduleElevatorImmediately sl listener s =
     (let s1 = delete (getSlot sl s) s;
          (n, s2) = waitImmed \<lparr>nextTime = time s1, nextInst = listener\<rparr> s1
      in setSlot sl (Some n) s2)"

subsection \<open>The call registers\<close>

text \<open>The three tests on the registers of one floor, each in the order the source reads them.\<close>

definition callsUDC :: "elevator \<Rightarrow> int \<Rightarrow> error + bool" where
  "callsUDC e j = orE (at (callUp e) j) (orE (at (callDown e) j) (at (callCar e) j))"

definition callsUCD :: "elevator \<Rightarrow> int \<Rightarrow> error + bool" where
  "callsUCD e j = orE (at (callUp e) j) (orE (at (callCar e) j) (at (callDown e) j))"

text \<open>The body of the two loops of \<^verbatim>\<open>isAllCalls...False\<close> over the successive values of \<open>j\<close>.\<close>

fun allCallsFalse :: "elevator \<Rightarrow> int list \<Rightarrow> error + bool" where
  "allCallsFalse e [] = Inr True"
| "allCallsFalse e (j # js) =
     (case callsUDC e j of
        Inl x \<Rightarrow> Inl x
      | Inr True \<Rightarrow> Inr False
      | Inr False \<Rightarrow> allCallsFalse e js)"

definition isAllCallsAboveFalse :: "simulator \<Rightarrow> error + bool" where
  "isAllCallsAboveFalse s = allCallsFalse (ele s) [floor_e (ele s) + 1 .. floors - 1]"

definition isAllCallsBelowFalse :: "simulator \<Rightarrow> error + bool" where
  "isAllCallsBelowFalse s = allCallsFalse (ele s) (rev [0 .. floor_e (ele s) - 1])"

definition clearCalls :: "simulator \<Rightarrow> error + simulator" where
  "clearCalls s =
     bindE (put (callUp (ele s)) (floor_e (ele s)) False) (\<lambda>u.
     bindE (put (callDown (ele s)) (floor_e (ele s)) False) (\<lambda>d.
     bindE (put (callCar (ele s)) (floor_e (ele s)) False) (\<lambda>c.
       Inr (s\<lparr>ele := (ele s)\<lparr>callUp := u, callDown := d, callCar := c\<rparr>\<rparr>))))"

subsection \<open>Subroutine D\<close>

text \<open>Step D3: the loop over \<open>j\<close>; \<^term>\<open>None\<close> when it runs to its end.\<close>

fun findCall :: "elevator \<Rightarrow> int list \<Rightarrow> error + int option" where
  "findCall e [] = Inr None"
| "findCall e (j # js) =
     (if j \<noteq> floor_e e then
        (case callsUCD e j of
           Inl x \<Rightarrow> Inl x
         | Inr True \<Rightarrow> Inr (Some j)
         | Inr False \<Rightarrow> findCall e js)
      else findCall e js)"

text \<open>Steps D4 and D5, entered with \<open>j\<close>.\<close>

definition decisionD4 :: "int \<Rightarrow> simulator \<Rightarrow> error + simulator" where
  "decisionD4 j s =
     (let s1 = (if floor_e (ele s) > j then s\<lparr>ele := (ele s)\<lparr>state := stateGoingDown\<rparr>\<rparr>
                else if floor_e (ele s) < j then s\<lparr>ele := (ele s)\<lparr>state := stateGoingUp\<rparr>\<rparr>
                else s)
      in if step (ele s1) = stepWaitForCall \<and> j \<noteq> 2
         then scheduleElevator Elev1 20 ExecutePrepareToMove s1
         else Inr s1)"

definition decision :: "simulator \<Rightarrow> error + simulator" where
  "decision s =
     (if state (ele s) \<noteq> stateNeutral then Inr s
      else
        bindE (andE (Inr (step (ele s) = stepWaitForCall)) (callsUCD (ele s) floorHome)) (\<lambda>c.
          if c then scheduleElevator Elev1 20 ExecuteOpenDoors s
          else
            bindE (findCall (ele s) [0 .. floors - 1]) (\<lambda>r.
              case r of
                Some j \<Rightarrow> decisionD4 j s
              | None \<Rightarrow>
                  if step (ele s) = stepPrepareToMove then decisionD4 2 s else Inr s)))"

subsection \<open>The user coroutine, U1--U6\<close>

text \<open>
  The trace that \<^verbatim>\<open>print\<close> writes is left out: it reads the state and changes nothing.
\<close>

definition userEnterPrepareForSuccessor :: "draws \<Rightarrow> simulator \<Rightarrow> error + simulator" where
  "userEnterPrepareForSuccessor d s =
     (let s1 = s\<lparr>userID := userID s + 1\<rparr>;
          a = rIn d;
          b = (if rOut d \<ge> a then rOut d + 1 else rOut d);
          u = newUser (userID s1) a b (minGiveUpTime + rGiveUp d);
          s2 = s1\<lparr>users := (users s1)(userID s1 := u)\<rparr>
      in bindE (waitSortIn \<lparr>nextTime = wrap64 (time s2 + (minInterTime + rInter d)),
                             nextInst = UserEnterPrepareForSuccessor\<rparr> s2)
           (\<lambda>(n, s3). Inr (snd (waitImmed \<lparr>nextTime = time s3,
                                            nextInst = UserSignalAndWait (id_u u)\<rparr> s3))))"

definition userSignalAndWait :: "nat \<Rightarrow> simulator \<Rightarrow> error + simulator" where
  "userSignalAndWait i s =
     (let u = users s i
      in bindE
           (if floor_e (ele s) = in_u u \<and> step (ele s) = stepCloseDoors then
              Inr (scheduleElevatorImmediately Elev1 ExecuteOpenDoors s)
            else if floor_e (ele s) = in_u u \<and> d3 (ele s) then
              Inr (scheduleElevatorImmediately Elev1 ExecuteLetPeopleOutIn
                     (s\<lparr>ele := (ele s)\<lparr>d3 := False, d1 := True\<rparr>\<rparr>))
            else
              bindE
                (if out_u u > in_u u then
                   bindE (put (callUp (ele s)) (in_u u) True)
                     (\<lambda>c. Inr (s\<lparr>ele := (ele s)\<lparr>callUp := c\<rparr>\<rparr>))
                 else
                   bindE (put (callDown (ele s)) (in_u u) True)
                     (\<lambda>c. Inr (s\<lparr>ele := (ele s)\<lparr>callDown := c\<rparr>\<rparr>)))
                (\<lambda>s1. if \<not> d2 (ele s1) \<or> step (ele s1) = stepWaitForCall then decision s1
                       else Inr s1))
           (\<lambda>s2. Inr (snd (waitImmed \<lparr>nextTime = time s2, nextInst = UserEnterQueue i\<rparr> s2))))"

definition userEnterQueue :: "nat \<Rightarrow> simulator \<Rightarrow> error + simulator" where
  "userEnterQueue i s =
     (let a = nextNode s;
          s1 = s\<lparr>nextNode := Suc a, users := (users s)(i := (users s i)\<lparr>listNode := Some a\<rparr>)\<rparr>;
          u = users s1 i
      in bindE (at (queue (ele s1)) (in_u u)) (\<lambda>q.
         bindE (put (queue (ele s1)) (in_u u) (insertLeft (a, i) q)) (\<lambda>qs.
           let s2 = s1\<lparr>ele := (ele s1)\<lparr>queue := qs\<rparr>\<rparr>
           in bindE (waitSortIn \<lparr>nextTime = wrap64 (time s2 + giveUpTime u),
                                  nextInst = UserGiveUp i\<rparr> s2)
                (\<lambda>(n, s3). Inr (s3\<lparr>users := (users s3)(i := (users s3 i)\<lparr>giveUp := Some n\<rparr>)\<rparr>)))))"

definition userGiveUp :: "nat \<Rightarrow> simulator \<Rightarrow> error + simulator" where
  "userGiveUp i s =
     (let u = users s i
      in if floor_e (ele s) \<noteq> in_u u \<or> \<not> d1 (ele s) then Inr (delete (listNode u) s)
         else Inr s)"

text \<open>
  \<^verbatim>\<open>s.ele.stack.insertLeft(u.listNode)\<close> does nothing for \<^verbatim>\<open>nil\<close>; the node's
  \<^verbatim>\<open>info\<close> is the user (\<^verbatim>\<open>newNode(u)\<close> in U3).
\<close>

definition userGetIn :: "nat \<Rightarrow> simulator \<Rightarrow> error + simulator" where
  "userGetIn i s =
     (let u = users s i;
          s1 = delete (listNode u) s;
          s2 = delete (giveUp u) s1;
          s3 = (case listNode u of
                  None \<Rightarrow> s2
                | Some a \<Rightarrow> s2\<lparr>ele := (ele s2)\<lparr>stack := insertLeft (a, i) (stack (ele s2))\<rparr>\<rparr>)
      in bindE (put (callCar (ele s3)) (out_u u) True) (\<lambda>c.
           let s4 = s3\<lparr>ele := (ele s3)\<lparr>callCar := c\<rparr>\<rparr>
           in if state (ele s4) = stateNeutral then
                scheduleElevator Elev2 25 ExecuteCloseDoors
                  (s4\<lparr>ele := (ele s4)\<lparr>state := (if out_u u > in_u u then stateGoingUp
                                                   else stateGoingDown)\<rparr>\<rparr>)
              else Inr s4))"

definition userGetOut :: "nat \<Rightarrow> simulator \<Rightarrow> error + simulator" where
  "userGetOut i s = Inr (delete (listNode (users s i)) s)"

subsection \<open>The elevator coroutine, E1--E9\<close>

definition executeWaitForCall :: "simulator \<Rightarrow> error + simulator" where
  "executeWaitForCall s = Inr (s\<lparr>ele := (ele s)\<lparr>step := stepWaitForCall\<rparr>\<rparr>)"

definition executeChangeOfState :: "simulator \<Rightarrow> error + simulator" where
  "executeChangeOfState s =
     (let s1 = s\<lparr>ele := (ele s)\<lparr>step := stepChangeOfState\<rparr>\<rparr>
      in bindE
           (bindE (andE (Inr (state (ele s1) = stateGoingUp)) (isAllCallsAboveFalse s1)) (\<lambda>up.
              if up then
                bindE (isAllCallsBelowFalse s1) (\<lambda>b.
                  clearCalls (s1\<lparr>ele := (ele s1)\<lparr>state := (if b then stateNeutral
                                                            else stateGoingDown)\<rparr>\<rparr>))
              else
                bindE (andE (Inr (state (ele s1) = stateGoingDown)) (isAllCallsBelowFalse s1))
                  (\<lambda>down.
                     if down then
                       bindE (isAllCallsAboveFalse s1) (\<lambda>a.
                         clearCalls (s1\<lparr>ele := (ele s1)\<lparr>state := (if a then stateNeutral
                                                                   else stateGoingUp)\<rparr>\<rparr>))
                     else Inr s1)))
           (\<lambda>s2. Inr (scheduleElevatorImmediately Elev1 ExecuteOpenDoors s2)))"

definition executeOpenDoors :: "simulator \<Rightarrow> error + simulator" where
  "executeOpenDoors s =
     (let s1 = s\<lparr>ele := (ele s)\<lparr>step := stepOpenDoors, d1 := True, d2 := True\<rparr>\<rparr>
      in bindE (scheduleElevator Elev3 300 ExecuteSetInactionIndicator s1) (\<lambda>s2.
         bindE (scheduleElevator Elev2 76 ExecuteCloseDoors s2) (\<lambda>s3.
           scheduleElevator Elev1 20 ExecuteLetPeopleOutIn s3)))"

text \<open>
  E4 walks the stack leftwards from its head (\<^verbatim>\<open>p = p.llink\<close>), that is from the last node
  of the sequence to the first, and looks at the first node of \<^verbatim>\<open>queue[floor]\<close>.
\<close>

definition executeLetPeopleOutIn :: "simulator \<Rightarrow> error + simulator" where
  "executeLetPeopleOutIn s =
     (let s1 = s\<lparr>ele := (ele s)\<lparr>step := stepLetPeopleOutIn\<rparr>\<rparr>
      in case find (\<lambda>p. out_u (users s1 (snd p)) = floor_e (ele s1)) (rev (stack (ele s1))) of
           Some p \<Rightarrow>
             scheduleElevator Elev1 25 ExecuteLetPeopleOutIn
               (snd (waitImmed \<lparr>nextTime = time s1, nextInst = UserGetOut (snd p)\<rparr> s1))
         | None \<Rightarrow>
             bindE (at (queue (ele s1)) (floor_e (ele s1))) (\<lambda>q.
               case q of
                 p # _ \<Rightarrow>
                   scheduleElevator Elev1 25 ExecuteLetPeopleOutIn
                     (snd (waitImmed \<lparr>nextTime = time s1, nextInst = UserGetIn (snd p)\<rparr> s1))
               | [] \<Rightarrow> Inr (s1\<lparr>ele := (ele s1)\<lparr>d1 := False, d3 := True\<rparr>\<rparr>)))"

definition executeCloseDoors :: "simulator \<Rightarrow> error + simulator" where
  "executeCloseDoors s =
     (let s1 = s\<lparr>ele := (ele s)\<lparr>step := stepCloseDoors\<rparr>\<rparr>
      in if d1 (ele s1) then scheduleElevator Elev2 40 ExecuteCloseDoors s1
         else scheduleElevator Elev1 20 ExecutePrepareToMove (s1\<lparr>ele := (ele s1)\<lparr>d3 := False\<rparr>\<rparr>))"

definition executePrepareToMove :: "simulator \<Rightarrow> error + simulator" where
  "executePrepareToMove s =
     (let s1 = s\<lparr>ele := (ele s)\<lparr>step := stepPrepareToMove\<rparr>\<rparr>
      in bindE (put (callCar (ele s1)) (floor_e (ele s1)) False) (\<lambda>c.
         let s2 = s1\<lparr>ele := (ele s1)\<lparr>callCar := c\<rparr>\<rparr>
         in bindE (if state (ele s2) \<noteq> stateGoingDown
                   then bindE (put (callUp (ele s2)) (floor_e (ele s2)) False)
                          (\<lambda>c. Inr (s2\<lparr>ele := (ele s2)\<lparr>callUp := c\<rparr>\<rparr>))
                   else Inr s2) (\<lambda>s3.
            bindE (if state (ele s3) \<noteq> stateGoingUp
                   then bindE (put (callDown (ele s3)) (floor_e (ele s3)) False)
                          (\<lambda>c. Inr (s3\<lparr>ele := (ele s3)\<lparr>callDown := c\<rparr>\<rparr>))
                   else Inr s3) (\<lambda>s4.
            bindE (decision s4) (\<lambda>s5.
              if state (ele s5) = stateNeutral then
                Inr (scheduleElevatorImmediately Elev1 ExecuteWaitForCall s5)
              else
                let s6 = (if d2 (ele s5) then delete (elev3 (ele s5)) s5 else s5)
                in if state (ele s6) = stateGoingUp
                   then scheduleElevator Elev1 15 ExecuteGoUpAFloor s6
                   else scheduleElevator Elev1 15 ExecuteGoDownAFloor s6)))))"

definition executeGoUpAFloor :: "simulator \<Rightarrow> error + simulator" where
  "executeGoUpAFloor s =
     scheduleElevator Elev1 51 ExecuteGoUpAFloor2
       (s\<lparr>ele := (ele s)\<lparr>step := stepGoUpAFloor, floor_e := wrap64 (floor_e (ele s) + 1)\<rparr>\<rparr>)"

definition executeGoUpAFloor2 :: "simulator \<Rightarrow> error + simulator" where
  "executeGoUpAFloor2 s =
     bindE (orE (at (callCar (ele s)) (floor_e (ele s)))
             (orE (at (callUp (ele s)) (floor_e (ele s)))
                (andE (orE (Inr (floor_e (ele s) = 2)) (at (callDown (ele s)) (floor_e (ele s))))
                   (isAllCallsAboveFalse s))))
       (\<lambda>stop. if stop then scheduleElevator Elev1 14 ExecuteChangeOfState s
               else Inr (scheduleElevatorImmediately Elev1 ExecuteGoUpAFloor s))"

definition executeGoDownAFloor :: "simulator \<Rightarrow> error + simulator" where
  "executeGoDownAFloor s =
     scheduleElevator Elev1 61 ExecuteGoDownAFloor2
       (s\<lparr>ele := (ele s)\<lparr>step := stepGoDownAFloor, floor_e := wrap64 (floor_e (ele s) - 1)\<rparr>\<rparr>)"

definition executeGoDownAFloor2 :: "simulator \<Rightarrow> error + simulator" where
  "executeGoDownAFloor2 s =
     bindE (orE (at (callCar (ele s)) (floor_e (ele s)))
             (orE (at (callDown (ele s)) (floor_e (ele s)))
                (andE (orE (Inr (floor_e (ele s) = 2)) (at (callUp (ele s)) (floor_e (ele s))))
                   (isAllCallsBelowFalse s))))
       (\<lambda>stop. if stop then scheduleElevator Elev1 23 ExecuteChangeOfState s
               else Inr (scheduleElevatorImmediately Elev1 ExecuteGoDownAFloor s))"

definition executeSetInactionIndicator :: "simulator \<Rightarrow> error + simulator" where
  "executeSetInactionIndicator s = decision (s\<lparr>ele := (ele s)\<lparr>d2 := False\<rparr>\<rparr>)"

subsection \<open>The simulation control\<close>

text \<open>\<^verbatim>\<open>w.nextInst.execute()\<close>: the call of the function the closure was made from.\<close>

fun execute :: "inst \<Rightarrow> draws \<Rightarrow> simulator \<Rightarrow> error + simulator" where
  "execute UserEnterPrepareForSuccessor d s = userEnterPrepareForSuccessor d s"
| "execute (UserSignalAndWait i) d s = userSignalAndWait i s"
| "execute (UserEnterQueue i) d s = userEnterQueue i s"
| "execute (UserGiveUp i) d s = userGiveUp i s"
| "execute (UserGetIn i) d s = userGetIn i s"
| "execute (UserGetOut i) d s = userGetOut i s"
| "execute ExecuteWaitForCall d s = executeWaitForCall s"
| "execute ExecuteChangeOfState d s = executeChangeOfState s"
| "execute ExecuteOpenDoors d s = executeOpenDoors s"
| "execute ExecuteLetPeopleOutIn d s = executeLetPeopleOutIn s"
| "execute ExecuteCloseDoors d s = executeCloseDoors s"
| "execute ExecutePrepareToMove d s = executePrepareToMove s"
| "execute ExecuteGoUpAFloor d s = executeGoUpAFloor s"
| "execute ExecuteGoUpAFloor2 d s = executeGoUpAFloor2 s"
| "execute ExecuteGoDownAFloor d s = executeGoDownAFloor s"
| "execute ExecuteGoDownAFloor2 d s = executeGoDownAFloor2 s"
| "execute ExecuteSetInactionIndicator d s = executeSetInactionIndicator s"

text \<open>
  One turn of the loop of \<^verbatim>\<open>main\<close>. \<^term>\<open>WaitQueueEmpty\<close> is the branch that prints
  \<^verbatim>\<open>ERROR: Wait queue is empty.\<close> and breaks, \<^term>\<open>TimeUp\<close> the break at
  \<^verbatim>\<open>maxTime\<close>, \<^term>\<open>Crashed\<close> a run-time failure inside the action, and
  \<^term>\<open>Running\<close> the turn that goes on to the next one. \<^verbatim>\<open>n.delete()\<close> takes the
  first node out of the WAIT list.
\<close>

datatype outcome = Running simulator | WaitQueueEmpty simulator | TimeUp simulator | Crashed error

definition mainStep :: "draws \<Rightarrow> simulator \<Rightarrow> outcome" where
  "mainStep d s =
     (case wait s of
        [] \<Rightarrow> WaitQueueEmpty s
      | n # rest \<Rightarrow>
          let s1 = s\<lparr>wait := rest\<rparr>;
              w = snd n;
              s2 = s1\<lparr>time := nextTime w\<rparr>
          in if time s2 \<ge> maxTime then TimeUp s2
             else (case execute (nextInst w) d s2 of
                     Inl e \<Rightarrow> Crashed e
                   | Inr s3 \<Rightarrow> Running s3))"

text \<open>
  The loop of \<^verbatim>\<open>main\<close>, with the draws of the \<open>k\<close>-th turn given by \<open>rnd k\<close>; the number of
  turns is bounded by the fuel, and \<^term>\<open>None\<close> is the loop that has not ended within it.
\<close>

fun mainLoop :: "nat \<Rightarrow> (nat \<Rightarrow> draws) \<Rightarrow> nat \<Rightarrow> simulator \<Rightarrow> outcome option" where
  "mainLoop 0 rnd k s = None"
| "mainLoop (Suc fuel) rnd k s =
     (case mainStep (rnd k) s of
        Running s' \<Rightarrow> mainLoop fuel rnd (Suc k) s'
      | r \<Rightarrow> Some r)"

text \<open>
  \<^verbatim>\<open>main\<close>: a new simulator, the first call of U1, then the loop.
\<close>

definition main :: "nat \<Rightarrow> draws \<Rightarrow> (nat \<Rightarrow> draws) \<Rightarrow> outcome option" where
  "main fuel d0 rnd =
     (case userEnterPrepareForSuccessor d0 newSimulator of
        Inl e \<Rightarrow> Some (Crashed e)
      | Inr s \<Rightarrow> mainLoop fuel rnd 0 s)"

text \<open>The states the loop of \<^verbatim>\<open>main\<close> passes through, at the top of a turn.\<close>

inductive reachable :: "simulator \<Rightarrow> bool" where
  reachable_init:
    "valid_draws d \<Longrightarrow> userEnterPrepareForSuccessor d newSimulator = Inr s \<Longrightarrow> reachable s"
| reachable_step:
    "reachable s \<Longrightarrow> valid_draws d \<Longrightarrow> mainStep d s = Running s' \<Longrightarrow> reachable s'"

section \<open>Notions used in the statements\<close>

text \<open>
  The index the walk of \<^verbatim>\<open>sortIn\<close> stops at, computed by recursion on the ring: the
  last node whose \<^verbatim>\<open>nextTime\<close> is at most \<open>t\<close> (\<open>sortIn_walk_lastLe\<close> below).
\<close>

fun lastLe :: "int \<Rightarrow> int list \<Rightarrow> nat option" where
  "lastLe t [] = None"
| "lastLe t (x # xs) =
     (case lastLe t xs of Some k \<Rightarrow> Some (Suc k) | None \<Rightarrow> if x \<le> t then Some 0 else None)"

text \<open>The times of the WAIT list, in list order.\<close>

definition times :: "waitElement node list \<Rightarrow> int list" where
  "times xs = map (\<lambda>n. nextTime (snd n)) xs"

text \<open>Some call register of floor \<open>j\<close> is asserted.\<close>

definition anyCall :: "elevator \<Rightarrow> int \<Rightarrow> bool" where
  "anyCall e j \<longleftrightarrow> callUp e ! nat j \<or> callDown e ! nat j \<or> callCar e ! nat j"

text \<open>The slices have the lengths \<^verbatim>\<open>newElevator\<close> gives them.\<close>

definition wellSized :: "elevator \<Rightarrow> bool" where
  "wellSized e \<longleftrightarrow>
     int (length (callUp e)) = floors \<and> int (length (callDown e)) = floors \<and>
     int (length (callCar e)) = floors \<and> int (length (queue e)) = floors"

text \<open>\<^verbatim>\<open>x.delete()\<close> seen from one list: \<^verbatim>\<open>nil\<close> changes nothing.\<close>

definition unlinkO :: "nat option \<Rightarrow> 'a node list \<Rightarrow> 'a node list" where
  "unlinkO x xs = (case x of None \<Rightarrow> xs | Some a \<Rightarrow> unlink a xs)"

text \<open>
  Every node in use was handed out before: the addresses of the WAIT list and of the three
  handles are below the next unused one.
\<close>

definition allocated :: "simulator \<Rightarrow> bool" where
  "allocated s \<longleftrightarrow>
     (\<forall>n \<in> set (wait s). fst n < nextNode s) \<and>
     (\<forall>sl a. getSlot sl s = Some a \<longrightarrow> a < nextNode s)"

text \<open>No call register is asserted at any floor above (below) the elevator's floor.\<close>

definition noCallsAbove :: "elevator \<Rightarrow> bool" where
  "noCallsAbove e \<longleftrightarrow> (\<forall>j \<in> set [floor_e e + 1 .. floors - 1]. \<not> anyCall e j)"

definition noCallsBelow :: "elevator \<Rightarrow> bool" where
  "noCallsBelow e \<longleftrightarrow> (\<forall>j \<in> set [0 .. floor_e e - 1]. \<not> anyCall e j)"

text \<open>
  The action \<open>l\<close> is made the first entry of the WAIT list, due at the current time, in a
  new node (what \<^verbatim>\<open>s.wait.immed(newWaitElement(s.time, l))\<close> leaves behind).
\<close>

definition triggerNow :: "inst \<Rightarrow> simulator \<Rightarrow> simulator" where
  "triggerNow l s =
     s\<lparr>wait := (nextNode s, \<lparr>nextTime = time s, nextInst = l\<rparr>) # wait s,
       nextNode := Suc (nextNode s)\<rparr>"

text \<open>
  The handle slot an elevator action is scheduled through: E5 through elev2, E9 through elev3,
  every other step of the elevator through elev1; the user actions through none.
\<close>

fun slotOf :: "inst \<Rightarrow> slot option" where
  "slotOf ExecuteCloseDoors = Some Elev2"
| "slotOf ExecuteSetInactionIndicator = Some Elev3"
| "slotOf ExecuteWaitForCall = Some Elev1"
| "slotOf ExecuteChangeOfState = Some Elev1"
| "slotOf ExecuteOpenDoors = Some Elev1"
| "slotOf ExecuteLetPeopleOutIn = Some Elev1"
| "slotOf ExecutePrepareToMove = Some Elev1"
| "slotOf ExecuteGoUpAFloor = Some Elev1"
| "slotOf ExecuteGoUpAFloor2 = Some Elev1"
| "slotOf ExecuteGoDownAFloor = Some Elev1"
| "slotOf ExecuteGoDownAFloor2 = Some Elev1"
| "slotOf _ = None"

text \<open>The actions pending in the WAIT list; those of elev1; and whether E5 is pending.\<close>

definition insts :: "simulator \<Rightarrow> inst set" where
  "insts s = (\<lambda>n. nextInst (snd n)) ` set (wait s)"

definition pend1 :: "simulator \<Rightarrow> inst set" where
  "pend1 s = {i \<in> insts s. slotOf i = Some Elev1}"

definition pend2 :: "simulator \<Rightarrow> bool" where
  "pend2 s \<longleftrightarrow> ExecuteCloseDoors \<in> insts s"

text \<open>
  The shape of the WAIT list: the clock is not negative and below \<^verbatim>\<open>maxTime\<close> (the loop
  of \<^verbatim>\<open>main\<close> executes no action later than that), the list is sorted by
  \<^verbatim>\<open>nextTime\<close> and no entry is due before the clock; its nodes are allocated and
  distinct; and an entry is an action of a handle slot exactly when that slot refers to it.
\<close>

definition struct :: "simulator \<Rightarrow> bool" where
  "struct s \<longleftrightarrow>
     0 \<le> time s \<and> sorted (times (wait s)) \<and> (\<forall>n \<in> set (wait s). time s \<le> nextTime (snd n)) \<and>
     allocated s \<and> distinct (map fst (wait s)) \<and>
     (\<forall>n \<in> set (wait s). \<forall>sl. slotOf (nextInst (snd n)) = Some sl \<longleftrightarrow> getSlot sl s = Some (fst n)) \<and>
     time s < maxTime"

text \<open>The state after \<^verbatim>\<open>scheduleElevator\<close> and after \<^verbatim>\<open>s.wait.sortIn\<close>, when they return.\<close>

definition scheduled :: "slot \<Rightarrow> int \<Rightarrow> inst \<Rightarrow> simulator \<Rightarrow> simulator" where
  "scheduled sl dl l s = (case scheduleElevator sl dl l s of Inr s' \<Rightarrow> s' | Inl e \<Rightarrow> s)"

definition waitSorted :: "waitElement \<Rightarrow> simulator \<Rightarrow> simulator" where
  "waitSorted w s = (case waitSortIn w s of Inr (n, s') \<Rightarrow> s' | Inl e \<Rightarrow> s)"

text \<open>A user as U1 makes one.\<close>

definition validUser :: "user \<Rightarrow> bool" where
  "validUser u \<longleftrightarrow>
     0 \<le> in_u u \<and> in_u u < floors \<and> 0 \<le> out_u u \<and> out_u u < floors \<and> in_u u \<noteq> out_u u \<and>
     0 \<le> giveUpTime u \<and> giveUpTime u < maxGiveUpTime"

fun userOf :: "inst \<Rightarrow> nat option" where
  "userOf (UserSignalAndWait i) = Some i"
| "userOf (UserEnterQueue i) = Some i"
| "userOf (UserGetIn i) = Some i"
| "userOf _ = None"

text \<open>
  The users: those about to signal, to enter a queue or to get in, and those waiting in a
  queue, have been created and are as U1 made them; a user waits in the queue of the floor of
  origin; and the nodes a user refers to are allocated and are not those of the handle slots.
\<close>

definition usersOK :: "simulator \<Rightarrow> bool" where
  "usersOK s \<longleftrightarrow>
     (\<forall>n \<in> set (wait s). \<forall>i. userOf (nextInst (snd n)) = Some i \<longrightarrow>
        i \<le> userID s \<and> validUser (users s i)) \<and>
     (\<forall>k < length (queue (ele s)). \<forall>p \<in> set (queue (ele s) ! k).
        snd p \<le> userID s \<and> validUser (users s (snd p)) \<and> in_u (users s (snd p)) = int k) \<and>
     (\<forall>i a. listNode (users s i) = Some a \<or> giveUp (users s i) = Some a \<longrightarrow>
        a < nextNode s \<and> (\<forall>sl. getSlot sl s \<noteq> Some a))"

text \<open>Some register is asserted at a floor \<open>j\<close> with \<open>a \<le> j < b\<close>.\<close>

definition callIn :: "elevator \<Rightarrow> int \<Rightarrow> int \<Rightarrow> bool" where
  "callIn e a b \<longleftrightarrow> (\<exists>j. a \<le> j \<and> j < b \<and> anyCall e j)"

text \<open>A direction other than Neutral has a call to go to.\<close>

definition dirOK :: "elevator \<Rightarrow> bool" where
  "dirOK e \<longleftrightarrow>
     (state e = stateGoingUp \<longrightarrow> callIn e (floor_e e + 1) floors) \<and>
     (state e = stateGoingDown \<longrightarrow> callIn e 0 (floor_e e))"

text \<open>
  The elevator between two actions, with \<open>P\<close> the actions pending on elev1 and \<open>b\<close> telling
  whether E5 is pending: the floor is one of the building's; D3 is true only after E4 found
  nobody, with nothing pending on elev1; while E5 is pending the doors are being served (E3 or
  E4 on elev1); after E5 only E3, E4 or E6 can be pending on elev1; unless the car is on its
  way (E7, E8 or E2 pending), its direction has a call to go to; a pending move up or down
  has a floor with a call, or the home floor, ahead of it; and the step is never that of E9.
\<close>

definition elevP :: "elevator \<Rightarrow> inst set \<Rightarrow> bool \<Rightarrow> bool" where
  "elevP e P b \<longleftrightarrow>
     wellSized e \<and> 0 \<le> floor_e e \<and> floor_e e < floors \<and>
     (d3 e \<longrightarrow> P = {} \<and> step e = stepLetPeopleOutIn \<and> \<not> d1 e) \<and>
     (b \<longrightarrow>
        step e \<in> {stepOpenDoors, stepLetPeopleOutIn, stepCloseDoors} \<and>
        P \<subseteq> {ExecuteOpenDoors, ExecuteLetPeopleOutIn}) \<and>
     (step e = stepCloseDoors \<longrightarrow>
        P \<subseteq> {ExecuteOpenDoors, ExecuteLetPeopleOutIn, ExecutePrepareToMove}) \<and>
     (P \<inter> {ExecuteGoUpAFloor, ExecuteGoUpAFloor2, ExecuteGoDownAFloor,
              ExecuteGoDownAFloor2, ExecuteChangeOfState} = {} \<longrightarrow> dirOK e) \<and>
     (ExecuteGoUpAFloor \<in> P \<longrightarrow> floor_e e < floorHome \<or> callIn e (floor_e e + 1) floors) \<and>
     (ExecuteGoUpAFloor2 \<in> P \<longrightarrow> floor_e e \<le> floorHome \<or> callIn e (floor_e e) floors) \<and>
     (ExecuteGoDownAFloor \<in> P \<longrightarrow> floorHome < floor_e e \<or> callIn e 0 (floor_e e)) \<and>
     (ExecuteGoDownAFloor2 \<in> P \<longrightarrow> floorHome \<le> floor_e e \<or> callIn e 0 (floor_e e + 1)) \<and>
     step e \<noteq> stepSetInactionIndicator"

definition elevOK :: "simulator \<Rightarrow> bool" where
  "elevOK s \<longleftrightarrow> elevP (ele s) (pend1 s) (pend2 s)"

text \<open>
  The head of the WAIT list: U5 is pending only as the first entry, for a user of the
  elevator's floor, right after E4; and when E6 has left the direction Neutral, E1 is the first
  entry.
\<close>

definition headOK :: "simulator \<Rightarrow> bool" where
  "headOK s \<longleftrightarrow>
     (\<forall>n \<in> set (tl (wait s)). \<forall>i. nextInst (snd n) \<noteq> UserGetIn i) \<and>
     (\<forall>n rest i. wait s = n # rest \<and> nextInst (snd n) = UserGetIn i \<longrightarrow>
        in_u (users s i) = floor_e (ele s) \<and> step (ele s) = stepLetPeopleOutIn \<and>
        pend1 s \<subseteq> {ExecuteLetPeopleOutIn}) \<and>
     (step (ele s) = stepPrepareToMove \<and> state (ele s) = stateNeutral \<longrightarrow>
        (\<exists>n rest. wait s = n # rest \<and> nextInst (snd n) = ExecuteWaitForCall))"

definition inv :: "simulator \<Rightarrow> bool" where
  "inv s \<longleftrightarrow> struct s \<and> usersOK s \<and> elevOK s \<and> headOK s"

text \<open>
  The list \<open>ys\<close> is \<open>xs\<close> with the entry \<open>w\<close>, in the node \<open>a\<close>, put behind the entries due at
  the time of \<open>w\<close> or earlier and before the entries due later.
\<close>

definition sortedIn ::
  "waitElement \<Rightarrow> nat \<Rightarrow> waitElement node list \<Rightarrow> waitElement node list \<Rightarrow> bool" where
  "sortedIn w a xs ys \<longleftrightarrow>
     (\<exists>k \<le> length xs. ys = take k xs @ (a, w) # drop k xs \<and>
        (\<forall>m \<in> set (take k xs). nextTime (snd m) \<le> nextTime w) \<and>
        (\<forall>m \<in> set (drop k xs). nextTime w < nextTime (snd m)))"

text \<open>
  What scheduling through the slot \<open>sl\<close> does to a state \<open>s\<close> apart from the WAIT list: the
  slot refers to the new node, which is the next unused one of \<open>s\<close>; the node it referred to is
  in no list any more; the other slots, the clock, the users and the rest of the elevator are
  as they were.
\<close>

definition handed :: "slot \<Rightarrow> simulator \<Rightarrow> simulator \<Rightarrow> bool" where
  "handed sl s s' \<longleftrightarrow>
     getSlot sl s' = Some (nextNode s) \<and> (\<forall>sl'. sl' \<noteq> sl \<longrightarrow> getSlot sl' s' = getSlot sl' s) \<and>
     nextNode s' = Suc (nextNode s) \<and> time s' = time s \<and> users s' = users s \<and>
     userID s' = userID s \<and>
     callUp (ele s') = callUp (ele s) \<and> callDown (ele s') = callDown (ele s) \<and>
     callCar (ele s') = callCar (ele s) \<and> floor_e (ele s') = floor_e (ele s) \<and>
     d1 (ele s') = d1 (ele s) \<and> d2 (ele s') = d2 (ele s) \<and> d3 (ele s') = d3 (ele s) \<and>
     state (ele s') = state (ele s) \<and> step (ele s') = step (ele s) \<and>
     stack (ele s') = unlinkO (getSlot sl s) (stack (ele s)) \<and>
     queue (ele s') = map (unlinkO (getSlot sl s)) (queue (ele s))"

text \<open>
  The state \<open>s'\<close> is \<open>s\<close> after the action \<open>l\<close> has been scheduled through the slot \<open>sl\<close> for
  the time now + \<open>dl\<close>: the entry the slot referred to has left the WAIT list and the new one
  has been sorted in. And after it has been scheduled immediately: the new entry, due now, is
  the first of the list.
\<close>

definition scheduledAt :: "slot \<Rightarrow> int \<Rightarrow> inst \<Rightarrow> simulator \<Rightarrow> simulator \<Rightarrow> bool" where
  "scheduledAt sl dl l s s' \<longleftrightarrow>
     handed sl s s' \<and>
     sortedIn \<lparr>nextTime = time s + dl, nextInst = l\<rparr> (nextNode s)
       (unlinkO (getSlot sl s) (wait s)) (wait s')"

definition scheduledNow :: "slot \<Rightarrow> inst \<Rightarrow> simulator \<Rightarrow> simulator \<Rightarrow> bool" where
  "scheduledNow sl l s s' \<longleftrightarrow>
     handed sl s s' \<and>
     wait s' = (nextNode s, \<lparr>nextTime = time s, nextInst = l\<rparr>) # unlinkO (getSlot sl s) (wait s)"

text \<open>
  The outcome of \<open>k\<close> turns of the loop of \<^verbatim>\<open>main\<close>, each with the draws \<open>d\<close>: the state
  at the top of the next turn, or the outcome of the turn that ended the run.
\<close>

fun turns :: "nat \<Rightarrow> draws \<Rightarrow> simulator \<Rightarrow> outcome" where
  "turns 0 d s = Running s"
| "turns (Suc k) d s = (case mainStep d s of Running s' \<Rightarrow> turns k d s' | out \<Rightarrow> out)"

section \<open>Properties\<close>

subsection \<open>The error monad and the slices\<close>

lemma wrap64_id [simp]: "- (2 ^ 63) \<le> x \<Longrightarrow> x < 2 ^ 63 \<Longrightarrow> wrap64 x = x"
  by (simp add: wrap64_def)

lemma bindE_Inr [simp]: "bindE (Inr x) f = f x"
  by (simp add: bindE_def)

lemma bindE_Inl [simp]: "bindE (Inl e) f = Inl e"
  by (simp add: bindE_def)

lemma bindE_eq_Inr: "bindE m f = Inr y \<longleftrightarrow> (\<exists>x. m = Inr x \<and> f x = Inr y)"
  by (cases m) simp_all

lemma at_in [simp]: "0 \<le> i \<Longrightarrow> i < int (length xs) \<Longrightarrow> at xs i = Inr (xs ! nat i)"
  by (simp add: at_def)

lemma put_in [simp]: "0 \<le> i \<Longrightarrow> i < int (length xs) \<Longrightarrow> put xs i v = Inr (xs[nat i := v])"
  by (simp add: put_def)

lemma orE_Inr [simp]: "orE (Inr a) (Inr b) = Inr (a \<or> b)"
  by (cases a) (simp_all add: orE_def)

lemma andE_Inr [simp]: "andE (Inr a) (Inr b) = Inr (a \<and> b)"
  by (cases a) (simp_all add: andE_def)

lemma andE_False [simp]: "andE (Inr False) m = Inr False"
  by (simp add: andE_def)

lemma andE_True [simp]: "andE (Inr True) m = m"
  by (simp add: andE_def)

subsection \<open>The walk of sortIn\<close>

lemma lastLe_snoc: "lastLe t (xs @ [a]) = (if a \<le> t then Some (length xs) else lastLe t xs)"
  by (induction xs) (auto split: option.splits)

lemma lastLe_None: "lastLe t xs = None \<longleftrightarrow> (\<forall>x \<in> set xs. \<not> x \<le> t)"
  by (induction xs) (auto split: option.splits)

lemma lastLe_Some:
  "lastLe t xs = Some k \<Longrightarrow>
     k < length xs \<and> xs ! k \<le> t \<and> (\<forall>j. k < j \<and> j < length xs \<longrightarrow> \<not> xs ! j \<le> t)"
proof (induction xs arbitrary: k)
  case Nil
  then show ?case by simp
next
  case (Cons x xs)
  show ?case
  proof (cases "lastLe t xs")
    case None
    with Cons.prems have k: "k = 0" "x \<le> t" by (auto split: if_splits)
    from None have "\<forall>y \<in> set xs. \<not> y \<le> t" by (simp add: lastLe_None)
    then have "\<forall>j. 0 < j \<and> j < Suc (length xs) \<longrightarrow> \<not> (x # xs) ! j \<le> t"
      by (auto simp: nth_Cons split: nat.splits)
    with k show ?thesis by simp
  next
    case (Some m)
    with Cons.prems have k: "k = Suc m" by simp
    from Cons.IH[OF Some]
    have "m < length xs" "xs ! m \<le> t" "\<forall>j. m < j \<and> j < length xs \<longrightarrow> \<not> xs ! j \<le> t"
      by auto
    then show ?thesis unfolding k by (auto simp: nth_Cons split: nat.splits)
  qed
qed

text \<open>Walking down from \<open>x\<close> finds the last index below \<open>x\<close> that passes the test.\<close>

lemma walk_down:
  "x \<le> length ring \<Longrightarrow> lastLe t (take x ring) = Some k \<Longrightarrow> 0 < x \<Longrightarrow>
     sortIn_walk t ring x = Some k"
proof (induction x)
  case 0
  then show ?case by simp
next
  case (Suc y)
  then have y: "y < length ring" by simp
  have tk: "take (Suc y) ring = take y ring @ [ring ! y]"
    using y by (simp add: take_Suc_conv_app_nth)
  show ?case
  proof (cases "ring ! y \<le> t")
    case True
    with Suc.prems tk y have "k = y" by (simp add: lastLe_snoc)
    with True show ?thesis by (subst sortIn_walk.simps) simp
  next
    case False
    with Suc.prems tk y have l: "lastLe t (take y ring) = Some k" by (simp add: lastLe_snoc)
    then have "0 < y" by (cases y) auto
    with Suc.IH l y have "sortIn_walk t ring y = Some k" by simp
    with False show ?thesis by (subst sortIn_walk.simps) simp
  qed
qed

text \<open>Whatever the walk returns passes the test.\<close>

lemma walk_some:
  assumes "sortIn_walk t ring x = Some k"
  shows "ring \<noteq> [] \<longrightarrow> x \<le> length ring \<longrightarrow> k < length ring \<and> ring ! k \<le> t"
proof -
  let ?P = "\<lambda>t ring x k. ring \<noteq> [] \<longrightarrow> x \<le> length ring \<longrightarrow> k < length ring \<and> ring ! k \<le> (t::int)"
  have "(case ((t, ring), x) of (a, c) \<Rightarrow> (case a of (a, b) \<Rightarrow> ?P a b) c) k"
  proof (rule sortIn_walk.raw_induct[where P = ?P and xa = "((t, ring), x)"])
    show "(case ((t, ring), x) of (a, c) \<Rightarrow> (case a of (a, b) \<Rightarrow> sortIn_walk a b) c) = Some k"
      using assms by simp
  next
    fix f :: "int \<Rightarrow> int list \<Rightarrow> nat \<Rightarrow> nat option" and t ring x k
    assume IH: "\<And>t ring x k. f t ring x = Some k \<Longrightarrow> ?P t ring x k"
      and eq: "(let x' = if x = 0 then length ring - 1 else x - 1
                in if ring ! x' \<le> t then Some x' else f t ring x') = Some k"
    show "?P t ring x k"
    proof (intro impI)
      assume ne: "ring \<noteq> []" and le: "x \<le> length ring"
      let ?x' = "if x = 0 then length ring - 1 else x - 1"
      from ne le have lt: "?x' < length ring" by (cases ring) auto
      show "k < length ring \<and> ring ! k \<le> t"
      proof (cases "ring ! ?x' \<le> t")
        case True
        with eq have "k = ?x'" by (simp add: Let_def)
        with True lt show ?thesis by simp
      next
        case False
        with eq have "f t ring ?x' = Some k" by (simp add: Let_def)
        from IH[OF this] ne lt show ?thesis by simp
      qed
    qed
  qed
  then show ?thesis by simp
qed

text \<open>When no node of the ring passes the test, the walk never ends.\<close>

lemma walk_none:
  assumes "lastLe t ring = None" "ring \<noteq> []" "x \<le> length ring"
  shows "sortIn_walk t ring x = None"
proof (cases "sortIn_walk t ring x")
  case None
  then show ?thesis .
next
  case (Some k)
  from walk_some[OF Some] assms(2,3) have "ring ! k \<in> set ring" "ring ! k \<le> t" by auto
  with assms(1) show ?thesis by (simp add: lastLe_None)
qed

lemma sortIn_walk_lastLe: "ring \<noteq> [] \<Longrightarrow> sortIn_walk t ring 0 = lastLe t ring"
proof -
  assume ne: "ring \<noteq> []"
  have start: "sortIn_walk t ring 0 = sortIn_walk t ring (length ring)"
    using ne by (subst sortIn_walk.simps, subst (2) sortIn_walk.simps) (simp add: Let_def)
  show ?thesis
  proof (cases "lastLe t ring")
    case None
    with ne show ?thesis by (simp add: walk_none)
  next
    case (Some k)
    with ne have "sortIn_walk t ring (length ring) = Some k" by (intro walk_down) auto
    with start Some show ?thesis by simp
  qed
qed

lemma sortIn_eq:
  "sortIn w a xs =
     (case lastLe (nextTime w) (0 # times xs) of
        None \<Rightarrow> None
      | Some k \<Rightarrow> Some (take k xs @ (a, w) # drop k xs))"
  by (simp add: sortIn_def times_def sortIn_walk_lastLe del: lastLe.simps split: option.splits)

lemma lastLe_head: "0 \<le> t \<Longrightarrow> lastLe t (0 # ts) \<noteq> None"
  by (simp split: option.splits)

lemma sortIn_total: "0 \<le> nextTime w \<Longrightarrow> \<exists>ys. sortIn w a xs = Some ys"
  using lastLe_head[of "nextTime w" "times xs"] by (auto simp: sortIn_eq simp del: lastLe.simps split: option.splits)

lemma sortIn_SomeD:
  assumes "sortIn w a xs = Some ys"
  shows "\<exists>k \<le> length xs. ys = take k xs @ (a, w) # drop k xs \<and>
           (\<forall>n \<in> set (drop k xs). nextTime w < nextTime (snd n)) \<and>
           (0 < k \<longrightarrow> nextTime (snd (xs ! (k - 1))) \<le> nextTime w)"
proof -
  from assms obtain k where k: "lastLe (nextTime w) (0 # times xs) = Some k"
    and ys: "ys = take k xs @ (a, w) # drop k xs"
    by (auto simp: sortIn_eq simp del: lastLe.simps split: option.splits)
  from lastLe_Some[OF k] have kl: "k \<le> length xs"
    and le: "(0 # times xs) ! k \<le> nextTime w"
    and gt: "\<forall>j. k < j \<and> j < Suc (length xs) \<longrightarrow> \<not> (0 # times xs) ! j \<le> nextTime w"
    by (auto simp: times_def)
  have "\<forall>n \<in> set (drop k xs). nextTime w < nextTime (snd n)"
  proof
    fix n assume "n \<in> set (drop k xs)"
    then obtain i where "i < length (drop k xs)" "drop k xs ! i = n"
      unfolding in_set_conv_nth by blast
    then have i: "i < length xs - k" "n = xs ! (k + i)" using kl by simp_all
    then have "\<not> (0 # times xs) ! (Suc (k + i)) \<le> nextTime w"
      using gt[rule_format, of "Suc (k + i)"] by simp
    with i show "nextTime w < nextTime (snd n)" by (simp add: times_def)
  qed
  moreover have "0 < k \<longrightarrow> nextTime (snd (xs ! (k - 1))) \<le> nextTime w"
    using le kl by (cases k) (auto simp: times_def)
  ultimately show ?thesis using kl ys by blast
qed

lemma set_sortIn: "sortIn w a xs = Some ys \<Longrightarrow> set ys = insert (a, w) (set xs)"
proof -
  assume "sortIn w a xs = Some ys"
  from sortIn_SomeD[OF this] obtain k where "ys = take k xs @ (a, w) # drop k xs" by blast
  then have "set ys = insert (a, w) (set (take k xs) \<union> set (drop k xs))" by auto
  then show ?thesis by (simp add: set_append[symmetric] del: set_append)
qed

lemma sorted_sortIn:
  assumes "sortIn w a xs = Some ys" "sorted (times xs)"
  shows "sorted (times ys)"
proof -
  from sortIn_SomeD[OF assms(1)] obtain k where kl: "k \<le> length xs"
    and ys: "ys = take k xs @ (a, w) # drop k xs"
    and gt: "\<forall>n \<in> set (drop k xs). nextTime w < nextTime (snd n)"
    and le: "0 < k \<longrightarrow> nextTime (snd (xs ! (k - 1))) \<le> nextTime w" by blast
  have xs: "xs = take k xs @ drop k xs" by simp
  from assms(2) have s: "sorted (times (take k xs) @ times (drop k xs))"
    by (simp add: times_def map_append[symmetric] del: map_append)
  have "\<forall>n \<in> set (take k xs). nextTime (snd n) \<le> nextTime w"
  proof
    fix n assume "n \<in> set (take k xs)"
    then obtain i where "i < length (take k xs)" "take k xs ! i = n"
      unfolding in_set_conv_nth by blast
    then have i: "i < k" "i < length xs" "n = xs ! i" using kl by simp_all
    with assms(2) kl have "times xs ! i \<le> times xs ! (k - 1)"
      by (intro sorted_nth_mono) (auto simp: times_def)
    with i le kl show "nextTime (snd n) \<le> nextTime w" by (simp add: times_def)
  qed
  moreover have "\<forall>n \<in> set (drop k xs). nextTime w \<le> nextTime (snd n)"
    using gt by auto
  ultimately show ?thesis using s unfolding ys
    by (fastforce simp: times_def sorted_append)
qed


lemma sortIn_hd:
  assumes "sortIn w a xs = Some ys" "xs = x # xs'" "nextTime (snd x) \<le> nextTime w"
  shows "\<exists>ys'. ys = x # ys' \<and> set ys' = insert (a, w) (set xs')"
proof -
  from sortIn_SomeD[OF assms(1)] obtain k where kl: "k \<le> length xs"
    and ys: "ys = take k xs @ (a, w) # drop k xs"
    and gt: "\<forall>n \<in> set (drop k xs). nextTime w < nextTime (snd n)" by blast
  have k0: "k \<noteq> 0"
  proof
    assume "k = 0"
    with gt have "\<forall>n \<in> set xs. nextTime w < nextTime (snd n)" by simp
    then have "nextTime w < nextTime (snd x)" unfolding assms(2) by simp
    with assms(3) show False by simp
  qed
  then obtain m where m: "k = Suc m" using not0_implies_Suc by blast
  have e: "ys = x # (take m xs' @ (a, w) # drop m xs')" unfolding ys m assms(2) by simp
  have "set (take m xs' @ (a, w) # drop m xs') = insert (a, w) (set (take m xs') \<union> set (drop m xs'))"
    by simp
  also have "set (take m xs') \<union> set (drop m xs') = set xs'"
    by (metis append_take_drop_id set_append) 
  finally show ?thesis using e by blast
qed

subsection \<open>Scheduling through a handle\<close>

lemma unlinkO_simps [simp]:
  "unlinkO None xs = xs" "unlinkO (Some a) xs = unlink a xs"
  by (simp_all add: unlinkO_def)

lemma set_unlinkO: "set (unlinkO x xs) = {n \<in> set xs. Some (fst n) \<noteq> x}"
  by (cases x) (auto simp: unlink_def)

lemma unlinkO_absent: "\<forall>n \<in> set xs. Some (fst n) \<noteq> x \<Longrightarrow> unlinkO x xs = xs"
  by (cases x) (auto simp: unlink_def filter_id_conv)

lemma delete_eq:
  "delete x s =
     s\<lparr>wait := unlinkO x (wait s),
       ele := (ele s)\<lparr>stack := unlinkO x (stack (ele s)),
                       queue := map (unlinkO x) (queue (ele s))\<rparr>\<rparr>"
  by (cases x) (simp_all add: delete_def map_idI)

lemma scheduleElevatorImmediately_eq:
  "scheduleElevatorImmediately sl l s =
     setSlot sl (Some (nextNode s))
       ((delete (getSlot sl s) s)
          \<lparr>wait := (nextNode s, \<lparr>nextTime = time s, nextInst = l\<rparr>) # unlinkO (getSlot sl s) (wait s),
           nextNode := Suc (nextNode s)\<rparr>)"
  by (simp add: scheduleElevatorImmediately_def waitImmed_def immed_def insertRight_def delete_eq Let_def)

lemma scheduleElevator_Inr_iff:
  "scheduleElevator sl dl l s = Inr s' \<longleftrightarrow>
     (\<exists>ys. sortIn \<lparr>nextTime = wrap64 (time s + dl), nextInst = l\<rparr> (nextNode s)
             (unlinkO (getSlot sl s) (wait s)) = Some ys \<and>
           s' = setSlot sl (Some (nextNode s))
                  ((delete (getSlot sl s) s)\<lparr>wait := ys, nextNode := Suc (nextNode s)\<rparr>))"
  by (auto simp: scheduleElevator_def waitSortIn_def delete_eq Let_def split: option.splits)

lemma scheduleElevator_total:
  "0 \<le> time s + dl \<and> time s + dl < 2 ^ 63 \<Longrightarrow> \<exists>s'. scheduleElevator sl dl l s = Inr s'"
  using sortIn_total[of "\<lparr>nextTime = time s + dl, nextInst = l\<rparr>" "nextNode s" "unlinkO (getSlot sl s) (wait s)"]
  by (auto simp: scheduleElevator_Inr_iff)

lemma setSlot_frame [simp]:
  "time (setSlot sl v s) = time s" "wait (setSlot sl v s) = wait s"
  "users (setSlot sl v s) = users s" "nextNode (setSlot sl v s) = nextNode s"
  "userID (setSlot sl v s) = userID s"
  "getSlot sl (setSlot sl v s) = v"
  by (cases sl; simp add: setSlot_def getSlot_def)+

lemma delete_frame [simp]:
  "time (delete x s) = time s" "wait (delete x s) = unlinkO x (wait s)"
  "users (delete x s) = users s" "nextNode (delete x s) = nextNode s"
  "userID (delete x s) = userID s" "getSlot sl (delete x s) = getSlot sl s"
  by (simp_all add: delete_eq getSlot_def split: slot.splits)

lemma filter_unlinkO_new:
  assumes "\<forall>n \<in> set xs. fst n < a"
  shows "filter (\<lambda>n. fst n = a) (unlinkO x xs) = []" "unlink a (unlinkO x xs) = unlinkO x xs"
  using assms by (auto simp: set_unlinkO unlink_def filter_empty_conv filter_id_conv)

text \<open>
  Claim C2. Rescheduling through a handle slot (\<^verbatim>\<open>scheduleElevator\<close> or
  \<^verbatim>\<open>scheduleElevatorImmediately\<close> on elev1, elev2 or elev3), in a state whose nodes were
  all allocated before, with now + delay not negative and below \<open>2\<^sup>6\<^sup>3\<close> (so that the
  sum does not wrap round): the call returns; the slot then
  holds the new node; exactly one entry of the WAIT list is reachable through the slot, the new
  one, due at now + delay (for the immediate form: due now and first in the list); taking the
  new entry out again leaves the old list without the entry the slot referred to; no entry of
  the new list is the one the slot referred to; and when the old entry was no longer in the
  list (fired or cancelled), removing it changed nothing.
\<close>

theorem reschedule_one_entry:
  assumes "allocated s" and "0 \<le> time s + delay \<and> time s + delay < 2 ^ 63"
  shows "\<exists>s'. scheduleElevator sl delay l s = Inr s' \<and>
           getSlot sl s' = Some (nextNode s) \<and>
           filter (\<lambda>n. Some (fst n) = getSlot sl s') (wait s') =
             [(nextNode s, \<lparr>nextTime = time s + delay, nextInst = l\<rparr>)] \<and>
           unlink (nextNode s) (wait s') = unlinkO (getSlot sl s) (wait s) \<and>
           (\<forall>n \<in> set (wait s'). Some (fst n) \<noteq> getSlot sl s) \<and>
           ((\<forall>n \<in> set (wait s). Some (fst n) \<noteq> getSlot sl s) \<longrightarrow>
              unlink (nextNode s) (wait s') = wait s) \<and>
           (let s'' = scheduleElevatorImmediately sl l s
            in getSlot sl s'' = Some (nextNode s) \<and>
               wait s'' = (nextNode s, \<lparr>nextTime = time s, nextInst = l\<rparr>)
                            # unlinkO (getSlot sl s) (wait s) \<and>
               filter (\<lambda>n. Some (fst n) = getSlot sl s'') (wait s'') =
                 [(nextNode s, \<lparr>nextTime = time s, nextInst = l\<rparr>)])"
proof -
  let ?a = "nextNode s" and ?h = "getSlot sl s"
  let ?w = "\<lparr>nextTime = time s + delay, nextInst = l\<rparr>"
  let ?xs = "unlinkO ?h (wait s)"
  from assms(1) have fresh: "\<forall>n \<in> set ?xs. fst n < ?a"
    by (auto simp: allocated_def set_unlinkO)
  from assms(1) have old: "?h \<noteq> Some ?a" by (auto simp: allocated_def)
  from scheduleElevator_total[OF assms(2)] obtain s' where r: "scheduleElevator sl delay l s = Inr s'"
    by blast
  then obtain ys where ys: "sortIn ?w ?a ?xs = Some ys"
    and s': "s' = setSlot sl (Some ?a) ((delete ?h s)\<lparr>wait := ys, nextNode := Suc ?a\<rparr>)"
    using assms(2) by (auto simp: scheduleElevator_Inr_iff)
  from sortIn_SomeD[OF ys] obtain k where k: "ys = take k ?xs @ (?a, ?w) # drop k ?xs" by blast
  have neq: "\<forall>n \<in> set (take k ?xs) \<union> set (drop k ?xs). fst n \<noteq> ?a"
    using fresh by (auto dest!: in_set_takeD in_set_dropD)
  have w': "wait s' = ys" and g': "getSlot sl s' = Some ?a" by (simp_all add: s')
  have f1: "filter (\<lambda>n. Some (fst n) = getSlot sl s') (wait s') = [(?a, ?w)]"
    using neq unfolding w' g' k by (auto simp: filter_empty_conv)
  have "unlink ?a ys = take k ?xs @ drop k ?xs"
    using neq unfolding k unlink_def by (auto simp: filter_id_conv)
  then have f2: "unlink ?a (wait s') = ?xs" by (simp add: w')
  have f3: "\<forall>n \<in> set (wait s'). Some (fst n) \<noteq> ?h"
    using old set_sortIn[OF ys] by (auto simp: w' set_unlinkO)
  have f4: "(\<forall>n \<in> set (wait s). Some (fst n) \<noteq> ?h) \<longrightarrow> unlink ?a (wait s') = wait s"
    using f2 by (simp add: unlinkO_absent)
  have f5: "filter (\<lambda>n. Some (fst n) = Some ?a) ?xs = []"
    using fresh by (auto simp: filter_empty_conv)
  show ?thesis
    using r g' f1 f2 f3 f4 f5 by (simp add: scheduleElevatorImmediately_eq Let_def)
qed

text \<open>
  Claim C9. When the WAIT list is empty at the top of a turn of the main loop, the turn ends
  the run with the error \<^verbatim>\<open>ERROR: Wait queue is empty.\<close>: nothing is popped, no action is
  executed, the state is the one the turn started from, and the loop stops there. A turn that
  starts with an entry in the list never takes that branch.
\<close>

theorem empty_wait_halts:
  "(wait s = [] \<longrightarrow>
      mainStep d s = WaitQueueEmpty s \<and> mainLoop (Suc fuel) rnd k s = Some (WaitQueueEmpty s)) \<and>
   (wait s \<noteq> [] \<longrightarrow> (\<forall>s'. mainStep d s \<noteq> WaitQueueEmpty s'))"
  by (auto simp: mainStep_def Let_def split: list.splits sum.splits)

theorem reschedule_one_entry_witness:
  "allocated
     (newSimulator\<lparr>time := 10, nextNode := 2,
        wait := [(0, \<lparr>nextTime = 15, nextInst = ExecuteOpenDoors\<rparr>),
                 (1, \<lparr>nextTime = 40, nextInst = UserGiveUp 1\<rparr>)],
        ele := newElevator\<lparr>elev1 := Some 0\<rparr>\<rparr>) \<and>
   (\<exists>s'. scheduleElevator Elev1 20 ExecuteLetPeopleOutIn
           (newSimulator\<lparr>time := 10, nextNode := 2,
              wait := [(0, \<lparr>nextTime = 15, nextInst = ExecuteOpenDoors\<rparr>),
                       (1, \<lparr>nextTime = 40, nextInst = UserGiveUp 1\<rparr>)],
              ele := newElevator\<lparr>elev1 := Some 0\<rparr>\<rparr>) = Inr s' \<and>
         getSlot Elev1 s' = Some 2 \<and>
         filter (\<lambda>n. Some (fst n) = getSlot Elev1 s') (wait s') =
           [(2, \<lparr>nextTime = 30, nextInst = ExecuteLetPeopleOutIn\<rparr>)] \<and>
         unlink 2 (wait s') = [(1, \<lparr>nextTime = 40, nextInst = UserGiveUp 1\<rparr>)])"
proof -
  let ?s = "newSimulator\<lparr>time := 10, nextNode := 2,
        wait := [(0, \<lparr>nextTime = 15, nextInst = ExecuteOpenDoors\<rparr>),
                 (1, \<lparr>nextTime = 40, nextInst = UserGiveUp 1\<rparr>)],
        ele := newElevator\<lparr>elev1 := Some 0\<rparr>\<rparr>"
  have a: "allocated ?s"
    by (auto simp: allocated_def newSimulator_def newElevator_def getSlot_def split: slot.splits)
  have t: "0 \<le> time ?s + 20 \<and> time ?s + 20 < 2 ^ 63" by (simp add: newSimulator_def)
  from reschedule_one_entry[OF a t, of Elev1 ExecuteLetPeopleOutIn]
  obtain s' where "scheduleElevator Elev1 20 ExecuteLetPeopleOutIn ?s = Inr s'"
    "getSlot Elev1 s' = Some (nextNode ?s)"
    "filter (\<lambda>n. Some (fst n) = getSlot Elev1 s') (wait s') =
       [(nextNode ?s, \<lparr>nextTime = time ?s + 20, nextInst = ExecuteLetPeopleOutIn\<rparr>)]"
    "unlink (nextNode ?s) (wait s') = unlinkO (getSlot Elev1 ?s) (wait ?s)"
    by blast
  then have "scheduleElevator Elev1 20 ExecuteLetPeopleOutIn ?s = Inr s' \<and>
         getSlot Elev1 s' = Some 2 \<and>
         filter (\<lambda>n. Some (fst n) = getSlot Elev1 s') (wait s') =
           [(2, \<lparr>nextTime = 30, nextInst = ExecuteLetPeopleOutIn\<rparr>)] \<and>
         unlink 2 (wait s') = [(1, \<lparr>nextTime = 40, nextInst = UserGiveUp 1\<rparr>)]"
    by (simp add: newSimulator_def newElevator_def getSlot_def unlink_def)
  with a show ?thesis by blast
qed

theorem empty_wait_halts_witness:
  "wait newSimulator = [] \<and>
   mainStep \<lparr>rIn = 0, rOut = 0, rGiveUp = 0, rInter = 0\<rparr> newSimulator = WaitQueueEmpty newSimulator \<and>
   mainLoop (Suc 0) (\<lambda>k. \<lparr>rIn = 0, rOut = 0, rGiveUp = 0, rInter = 0\<rparr>) 0 newSimulator
     = Some (WaitQueueEmpty newSimulator)"
  using empty_wait_halts[of newSimulator "\<lparr>rIn = 0, rOut = 0, rGiveUp = 0, rInter = 0\<rparr>" 0
      "\<lambda>k. \<lparr>rIn = 0, rOut = 0, rGiveUp = 0, rInter = 0\<rparr>" 0]
  by (simp add: newSimulator_def)

subsection \<open>Frames of the list operations, and the tests on the call registers\<close>

lemma ele_setSlot [simp]:
  "callUp (ele (setSlot sl v s)) = callUp (ele s)"
  "callDown (ele (setSlot sl v s)) = callDown (ele s)"
  "callCar (ele (setSlot sl v s)) = callCar (ele s)"
  "floor_e (ele (setSlot sl v s)) = floor_e (ele s)"
  "d1 (ele (setSlot sl v s)) = d1 (ele s)"
  "d2 (ele (setSlot sl v s)) = d2 (ele s)"
  "d3 (ele (setSlot sl v s)) = d3 (ele s)"
  "state (ele (setSlot sl v s)) = state (ele s)"
  "step (ele (setSlot sl v s)) = step (ele s)"
  "stack (ele (setSlot sl v s)) = stack (ele s)"
  "queue (ele (setSlot sl v s)) = queue (ele s)"
  by (cases sl; simp add: setSlot_def)+

lemma ele_delete [simp]:
  "callUp (ele (delete x s)) = callUp (ele s)"
  "callDown (ele (delete x s)) = callDown (ele s)"
  "callCar (ele (delete x s)) = callCar (ele s)"
  "floor_e (ele (delete x s)) = floor_e (ele s)"
  "d1 (ele (delete x s)) = d1 (ele s)"
  "d2 (ele (delete x s)) = d2 (ele s)"
  "d3 (ele (delete x s)) = d3 (ele s)"
  "state (ele (delete x s)) = state (ele s)"
  "step (ele (delete x s)) = step (ele s)"
  "elev1 (ele (delete x s)) = elev1 (ele s)"
  "elev2 (ele (delete x s)) = elev2 (ele s)"
  "elev3 (ele (delete x s)) = elev3 (ele s)"
  "stack (ele (delete x s)) = unlinkO x (stack (ele s))"
  "queue (ele (delete x s)) = map (unlinkO x) (queue (ele s))"
  by (simp_all add: delete_eq)

lemma getSlot_setSlot_other [simp]: "sl \<noteq> sl' \<Longrightarrow> getSlot sl (setSlot sl' v s) = getSlot sl s"
  by (cases sl; cases sl'; simp add: getSlot_def setSlot_def)

lemma getSlot_upd [simp]:
  "getSlot sl (s\<lparr>wait := w\<rparr>) = getSlot sl s"
  "getSlot sl (s\<lparr>nextNode := n\<rparr>) = getSlot sl s"
  "getSlot sl (s\<lparr>time := t\<rparr>) = getSlot sl s"
  "getSlot sl (s\<lparr>users := u\<rparr>) = getSlot sl s"
  by (cases sl; simp add: getSlot_def)+

lemma callsUDC_in:
  "wellSized e \<Longrightarrow> 0 \<le> j \<Longrightarrow> j < floors \<Longrightarrow> callsUDC e j = Inr (anyCall e j)"
  by (auto simp: wellSized_def callsUDC_def anyCall_def)

lemma callsUCD_in:
  "wellSized e \<Longrightarrow> 0 \<le> j \<Longrightarrow> j < floors \<Longrightarrow> callsUCD e j = Inr (anyCall e j)"
  by (auto simp: wellSized_def callsUCD_def anyCall_def)

lemma allCallsFalse_in:
  "wellSized e \<Longrightarrow> \<forall>j \<in> set js. 0 \<le> j \<and> j < floors \<Longrightarrow>
     allCallsFalse e js = Inr (\<forall>j \<in> set js. \<not> anyCall e j)"
  by (induction js) (auto simp: callsUDC_in split: bool.splits)

lemma isAllCallsAboveFalse_in:
  "wellSized (ele s) \<Longrightarrow> - 1 \<le> floor_e (ele s) \<Longrightarrow>
     isAllCallsAboveFalse s = Inr (noCallsAbove (ele s))"
  by (simp add: isAllCallsAboveFalse_def noCallsAbove_def allCallsFalse_in)

lemma isAllCallsBelowFalse_in:
  "wellSized (ele s) \<Longrightarrow> floor_e (ele s) \<le> floors \<Longrightarrow>
     isAllCallsBelowFalse s = Inr (noCallsBelow (ele s))"
  by (simp add: isAllCallsBelowFalse_def noCallsBelow_def allCallsFalse_in)

lemma findCall_in:
  "wellSized e \<Longrightarrow> \<forall>j \<in> set js. 0 \<le> j \<and> j < floors \<Longrightarrow>
     findCall e js = Inr (find (\<lambda>j. j \<noteq> floor_e e \<and> anyCall e j) js)"
  by (induction js) (auto simp: callsUCD_in split: bool.splits)

lemma find_upto_None: "find P [a..b] = None \<longleftrightarrow> (\<forall>j. a \<le> j \<and> j \<le> b \<longrightarrow> \<not> P j)"
  by (auto simp: find_None_iff)

lemma find_upto_Some:
  "find P [a..b] = Some j \<longleftrightarrow> a \<le> j \<and> j \<le> b \<and> P j \<and> (\<forall>i. a \<le> i \<and> i < j \<longrightarrow> \<not> P i)"
proof (induction a b rule: upto.induct)
  case (1 a b)
  show ?case
  proof (cases "a \<le> b")
    case False
    then show ?thesis by (subst upto.simps) auto
  next
    case True
    show ?thesis
    proof (cases "P a")
      case pa: True
      with True show ?thesis by (subst upto.simps) (auto simp: not_less)
    next
      case npa: False
      have "find P [a..b] = find P [a + 1..b]" using True npa by (subst upto.simps) simp
      also have "\<dots> = Some j \<longleftrightarrow> a + 1 \<le> j \<and> j \<le> b \<and> P j \<and> (\<forall>i. a + 1 \<le> i \<and> i < j \<longrightarrow> \<not> P i)"
        using 1[OF True] .
      also have "\<dots> \<longleftrightarrow> a \<le> j \<and> j \<le> b \<and> P j \<and> (\<forall>i. a \<le> i \<and> i < j \<longrightarrow> \<not> P i)"
      proof -
        have "a \<le> i \<longleftrightarrow> i = a \<or> a + 1 \<le> i" for i by auto
        with npa show ?thesis by (metis add1_zle_eq order_le_less)
      qed
      finally show ?thesis .
    qed
  qed
qed

subsection \<open>E2\<close>

lemma clearCalls_in:
  "wellSized (ele s) \<Longrightarrow> 0 \<le> floor_e (ele s) \<Longrightarrow> floor_e (ele s) < floors \<Longrightarrow>
     clearCalls s =
       Inr (s\<lparr>ele := (ele s)\<lparr>callUp := (callUp (ele s))[nat (floor_e (ele s)) := False],
                               callDown := (callDown (ele s))[nat (floor_e (ele s)) := False],
                               callCar := (callCar (ele s))[nat (floor_e (ele s)) := False]\<rparr>\<rparr>)"
  by (simp add: clearCalls_def wellSized_def)

text \<open>
  Claim C5. E2 (\<^verbatim>\<open>executeChangeOfState\<close>), at a floor within range: when the direction is
  GoingUp and no register is asserted at any floor above, the direction becomes Neutral if no
  register is asserted at any floor below either and GoingDown otherwise; symmetrically for
  GoingDown; in every other case it stays. The three registers of the current floor are
  cleared in exactly those two cases, and nothing else of the registers changes. The floor is
  unchanged, and E3 is scheduled on elev1 by immediate scheduling: due at the current time,
  first in the WAIT list, the entry elev1 referred to removed.
\<close>

theorem changeOfState_effect:
  assumes "wellSized (ele s)" and "0 \<le> floor_e (ele s)" and "floor_e (ele s) < floors"
  shows
    "\<exists>s'. executeChangeOfState s = Inr s' \<and>
       state (ele s') =
         (if state (ele s) = stateGoingUp \<and> noCallsAbove (ele s)
          then (if noCallsBelow (ele s) then stateNeutral else stateGoingDown)
          else if state (ele s) = stateGoingDown \<and> noCallsBelow (ele s)
          then (if noCallsAbove (ele s) then stateNeutral else stateGoingUp)
          else state (ele s)) \<and>
       (if state (ele s) = stateGoingUp \<and> noCallsAbove (ele s) \<or>
           state (ele s) = stateGoingDown \<and> noCallsBelow (ele s)
        then callUp (ele s') = (callUp (ele s))[nat (floor_e (ele s)) := False] \<and>
             callDown (ele s') = (callDown (ele s))[nat (floor_e (ele s)) := False] \<and>
             callCar (ele s') = (callCar (ele s))[nat (floor_e (ele s)) := False]
        else callUp (ele s') = callUp (ele s) \<and> callDown (ele s') = callDown (ele s) \<and>
             callCar (ele s') = callCar (ele s)) \<and>
       floor_e (ele s') = floor_e (ele s) \<and>
       step (ele s') = stepChangeOfState \<and>
       time s' = time s \<and>
       elev1 (ele s') = Some (nextNode s) \<and>
       wait s' = (nextNode s, \<lparr>nextTime = time s, nextInst = ExecuteOpenDoors\<rparr>)
                   # unlinkO (elev1 (ele s)) (wait s)"
proof -
  let ?s1 = "s\<lparr>ele := (ele s)\<lparr>step := stepChangeOfState\<rparr>\<rparr>"
  have w: "wellSized (ele ?s1)" using assms(1) by (simp add: wellSized_def)
  have a: "isAllCallsAboveFalse ?s1 = Inr (noCallsAbove (ele s))"
    using w assms(2) by (simp add: isAllCallsAboveFalse_in noCallsAbove_def anyCall_def)
  have b: "isAllCallsBelowFalse ?s1 = Inr (noCallsBelow (ele s))"
    using w assms(3) by (simp add: isAllCallsBelowFalse_in noCallsBelow_def anyCall_def)
  note sz = assms(1)[unfolded wellSized_def]
  show ?thesis
    by (cases "state (ele s)")
       (use sz assms(2,3) in \<open>simp_all add: executeChangeOfState_def Let_def a b clearCalls_def
          scheduleElevatorImmediately_eq getSlot_def setSlot_def\<close>)
qed

theorem changeOfState_effect_witness:
  "\<exists>s'. executeChangeOfState
           (newSimulator\<lparr>ele := newElevator\<lparr>callCar := [True, False, True, False, False],
                                                state := stateGoingUp\<rparr>\<rparr>) = Inr s' \<and>
        state (ele s') = stateGoingDown \<and>
        callCar (ele s') = [True, False, False, False, False] \<and>
        floor_e (ele s') = 2 \<and>
        wait s' = [(0, \<lparr>nextTime = 0, nextInst = ExecuteOpenDoors\<rparr>)]"
proof -
  let ?s = "newSimulator\<lparr>ele := newElevator\<lparr>callCar := [True, False, True, False, False],
                                                state := stateGoingUp\<rparr>\<rparr>"
  have w: "wellSized (ele ?s)"
    by (simp add: wellSized_def newSimulator_def newElevator_def floors_def)
  have f: "0 \<le> floor_e (ele ?s)" "floor_e (ele ?s) < floors"
    by (simp_all add: newSimulator_def newElevator_def floors_def floorHome_def)
  have up: "noCallsAbove (ele ?s)" "\<not> noCallsBelow (ele ?s)"
    by code_simp+
  from changeOfState_effect[OF w f] up
  have "\<exists>s'. executeChangeOfState ?s = Inr s' \<and> state (ele s') = stateGoingDown \<and>
     callUp (ele s') = (callUp (ele ?s))[nat (floor_e (ele ?s)) := False] \<and>
     callDown (ele s') = (callDown (ele ?s))[nat (floor_e (ele ?s)) := False] \<and>
     callCar (ele s') = (callCar (ele ?s))[nat (floor_e (ele ?s)) := False] \<and>
     floor_e (ele s') = floor_e (ele ?s) \<and> step (ele s') = stepChangeOfState \<and>
     time s' = time ?s \<and> elev1 (ele s') = Some (nextNode ?s) \<and>
     wait s' = (nextNode ?s, \<lparr>nextTime = time ?s, nextInst = ExecuteOpenDoors\<rparr>)
                   # unlinkO (elev1 (ele ?s)) (wait ?s)"
    by simp
  then obtain s' where "executeChangeOfState ?s = Inr s'" "state (ele s') = stateGoingDown"
     "callCar (ele s') = (callCar (ele ?s))[nat (floor_e (ele ?s)) := False]"
     "floor_e (ele s') = floor_e (ele ?s)"
     "wait s' = (nextNode ?s, \<lparr>nextTime = time ?s, nextInst = ExecuteOpenDoors\<rparr>)
                   # unlinkO (elev1 (ele ?s)) (wait ?s)"
    by blast
  then have "executeChangeOfState ?s = Inr s' \<and> state (ele s') = stateGoingDown \<and>
        callCar (ele s') = [True, False, False, False, False] \<and>
        floor_e (ele s') = 2 \<and>
        wait s' = [(0, \<lparr>nextTime = 0, nextInst = ExecuteOpenDoors\<rparr>)]"
    by (simp add: newSimulator_def newElevator_def floorHome_def)
  then show ?thesis by blast
qed

subsection \<open>E7, E8 and E4\<close>

lemma orE_andE_in:
  "orE (Inr a) (orE (Inr b) (andE (orE (Inr c) (Inr d)) (Inr e))) = Inr (a \<or> b \<or> (c \<or> d) \<and> e)"
  by simp

lemma waitImmed_triggerNow: "snd (waitImmed \<lparr>nextTime = time s, nextInst = l\<rparr> s) = triggerNow l s"
  by (simp add: waitImmed_def triggerNow_def immed_def insertRight_def)

lemma find_rev_Some:
  "find P (rev xs) = Some p \<longleftrightarrow>
     (\<exists>pre post. xs = pre @ p # post \<and> P p \<and> (\<forall>q \<in> set post. \<not> P q))"
proof (induction xs rule: rev_induct)
  case Nil
  then show ?case by simp
next
  case (snoc x xs)
  show ?case
  proof (cases "P x")
    case True
    have "(\<exists>pre post. xs @ [x] = pre @ p # post \<and> P p \<and> (\<forall>q \<in> set post. \<not> P q)) \<longleftrightarrow> p = x"
    proof
      assume "\<exists>pre post. xs @ [x] = pre @ p # post \<and> P p \<and> (\<forall>q \<in> set post. \<not> P q)"
      then obtain pre post where e: "xs @ [x] = pre @ p # post" and n: "\<forall>q \<in> set post. \<not> P q"
        by blast
      show "p = x"
      proof (cases post rule: rev_cases)
        case Nil
        with e show ?thesis by simp
      next
        case (snoc post' y)
        with e have "y = x" by (metis append_Cons append_assoc last_snoc)
        with snoc n True show ?thesis by simp
      qed
    next
      assume "p = x"
      with True show "\<exists>pre post. xs @ [x] = pre @ p # post \<and> P p \<and> (\<forall>q \<in> set post. \<not> P q)"
        by (intro exI[of _ xs] exI[of _ "[]"]) simp
    qed
    with True show ?thesis by auto
  next
    case False
    have "(\<exists>pre post. xs @ [x] = pre @ p # post \<and> P p \<and> (\<forall>q \<in> set post. \<not> P q)) \<longleftrightarrow>
          (\<exists>pre post. xs = pre @ p # post \<and> P p \<and> (\<forall>q \<in> set post. \<not> P q))"
    proof
      assume "\<exists>pre post. xs @ [x] = pre @ p # post \<and> P p \<and> (\<forall>q \<in> set post. \<not> P q)"
      then obtain pre post where e: "xs @ [x] = pre @ p # post" and pp: "P p"
        and n: "\<forall>q \<in> set post. \<not> P q" by blast
      show "\<exists>pre post. xs = pre @ p # post \<and> P p \<and> (\<forall>q \<in> set post. \<not> P q)"
      proof (cases post rule: rev_cases)
        case Nil
        with e pp False show ?thesis by simp
      next
        case (snoc post' y)
        with e have "xs = pre @ p # post'" by (metis append_Cons append_assoc butlast_snoc)
        with n snoc pp show ?thesis by auto
      qed
    next
      assume "\<exists>pre post. xs = pre @ p # post \<and> P p \<and> (\<forall>q \<in> set post. \<not> P q)"
      then obtain pre post where "xs = pre @ p # post" "P p" "\<forall>q \<in> set post. \<not> P q" by blast
      with False show "\<exists>pre post. xs @ [x] = pre @ p # post \<and> P p \<and> (\<forall>q \<in> set post. \<not> P q)"
        by (intro exI[of _ pre] exI[of _ "post @ [x]"]) simp
    qed
    with False snoc.IH show ?thesis by simp
  qed
qed

lemma find_rev_None: "find P (rev xs) = None \<longleftrightarrow> (\<forall>q \<in> set xs. \<not> P q)"
  by (auto simp: find_None_iff)

lemma unlinkO_filter: "unlinkO x xs = filter (\<lambda>n. Some (fst n) \<noteq> x) xs"
  by (cases x) (simp_all add: unlink_def)

subsection \<open>scheduled, waitSorted: what they are\<close>

lemma scheduleElevator_scheduled:
  "0 \<le> time s + dl \<and> time s + dl < 2 ^ 63 \<Longrightarrow> scheduleElevator sl dl l s = Inr (scheduled sl dl l s)"
  using scheduleElevator_total[of s dl sl l] by (auto simp: scheduled_def)

lemma scheduled_eq:
  assumes "0 \<le> time s + dl \<and> time s + dl < 2 ^ 63"
  shows "\<exists>ys. sortIn \<lparr>nextTime = time s + dl, nextInst = l\<rparr> (nextNode s)
             (unlinkO (getSlot sl s) (wait s)) = Some ys \<and>
           scheduled sl dl l s = setSlot sl (Some (nextNode s))
                  ((delete (getSlot sl s) s)\<lparr>wait := ys, nextNode := Suc (nextNode s)\<rparr>)"
  using scheduleElevator_scheduled[OF assms, of sl l] assms by (simp add: scheduleElevator_Inr_iff)

lemma scheduled_frame:
  assumes "0 \<le> time s + dl \<and> time s + dl < 2 ^ 63"
  shows "time (scheduled sl dl l s) = time s" "users (scheduled sl dl l s) = users s"
    "userID (scheduled sl dl l s) = userID s" "nextNode (scheduled sl dl l s) = Suc (nextNode s)"
    "callUp (ele (scheduled sl dl l s)) = callUp (ele s)"
    "callDown (ele (scheduled sl dl l s)) = callDown (ele s)"
    "callCar (ele (scheduled sl dl l s)) = callCar (ele s)"
    "floor_e (ele (scheduled sl dl l s)) = floor_e (ele s)"
    "d1 (ele (scheduled sl dl l s)) = d1 (ele s)"
    "d2 (ele (scheduled sl dl l s)) = d2 (ele s)"
    "d3 (ele (scheduled sl dl l s)) = d3 (ele s)"
    "state (ele (scheduled sl dl l s)) = state (ele s)"
    "step (ele (scheduled sl dl l s)) = step (ele s)"
    "stack (ele (scheduled sl dl l s)) = unlinkO (getSlot sl s) (stack (ele s))"
    "queue (ele (scheduled sl dl l s)) = map (unlinkO (getSlot sl s)) (queue (ele s))"
    "getSlot sl' (scheduled sl dl l s) = (if sl' = sl then Some (nextNode s) else getSlot sl' s)"
  using scheduled_eq[OF assms, of l sl] by auto

lemma set_wait_scheduled:
  assumes "0 \<le> time s + dl \<and> time s + dl < 2 ^ 63"
  shows "set (wait (scheduled sl dl l s)) =
     insert (nextNode s, \<lparr>nextTime = time s + dl, nextInst = l\<rparr>)
       {n \<in> set (wait s). Some (fst n) \<noteq> getSlot sl s}"
  using scheduled_eq[OF assms, of l sl] by (auto simp: set_sortIn set_unlinkO)

lemma waitSortIn_waitSorted:
  "0 \<le> nextTime w \<Longrightarrow> waitSortIn w s = Inr (nextNode s, waitSorted w s)"
  using sortIn_total[of w "nextNode s" "wait s"]
  by (auto simp: waitSorted_def waitSortIn_def)

lemma waitSorted_eq:
  assumes "0 \<le> nextTime w"
  shows "\<exists>ys. sortIn w (nextNode s) (wait s) = Some ys \<and>
           waitSorted w s = s\<lparr>wait := ys, nextNode := Suc (nextNode s)\<rparr>"
  using waitSortIn_waitSorted[OF assms, of s] by (auto simp: waitSortIn_def split: option.splits)

lemma waitSorted_frame:
  assumes "0 \<le> nextTime w"
  shows "time (waitSorted w s) = time s" "users (waitSorted w s) = users s"
    "userID (waitSorted w s) = userID s" "nextNode (waitSorted w s) = Suc (nextNode s)"
    "ele (waitSorted w s) = ele s" "getSlot sl (waitSorted w s) = getSlot sl s"
    "set (wait (waitSorted w s)) = insert (nextNode s, w) (set (wait s))"
  using waitSorted_eq[OF assms, of s] by (auto simp: set_sortIn getSlot_def split: slot.splits)

lemma scheduleElevatorImmediately_frame:
  shows "time (scheduleElevatorImmediately sl l s) = time s"
    "users (scheduleElevatorImmediately sl l s) = users s"
    "userID (scheduleElevatorImmediately sl l s) = userID s"
    "nextNode (scheduleElevatorImmediately sl l s) = Suc (nextNode s)"
    "callUp (ele (scheduleElevatorImmediately sl l s)) = callUp (ele s)"
    "callDown (ele (scheduleElevatorImmediately sl l s)) = callDown (ele s)"
    "callCar (ele (scheduleElevatorImmediately sl l s)) = callCar (ele s)"
    "floor_e (ele (scheduleElevatorImmediately sl l s)) = floor_e (ele s)"
    "d1 (ele (scheduleElevatorImmediately sl l s)) = d1 (ele s)"
    "d2 (ele (scheduleElevatorImmediately sl l s)) = d2 (ele s)"
    "d3 (ele (scheduleElevatorImmediately sl l s)) = d3 (ele s)"
    "state (ele (scheduleElevatorImmediately sl l s)) = state (ele s)"
    "step (ele (scheduleElevatorImmediately sl l s)) = step (ele s)"
    "stack (ele (scheduleElevatorImmediately sl l s)) = unlinkO (getSlot sl s) (stack (ele s))"
    "queue (ele (scheduleElevatorImmediately sl l s)) = map (unlinkO (getSlot sl s)) (queue (ele s))"
    "getSlot sl' (scheduleElevatorImmediately sl l s) =
       (if sl' = sl then Some (nextNode s) else getSlot sl' s)"
    "wait (scheduleElevatorImmediately sl l s) =
       (nextNode s, \<lparr>nextTime = time s, nextInst = l\<rparr>) # unlinkO (getSlot sl s) (wait s)"
  by (auto simp: scheduleElevatorImmediately_eq)

lemma triggerNow_frame:
  shows "time (triggerNow l s) = time s" "users (triggerNow l s) = users s"
    "userID (triggerNow l s) = userID s" "nextNode (triggerNow l s) = Suc (nextNode s)"
    "ele (triggerNow l s) = ele s" "getSlot sl (triggerNow l s) = getSlot sl s"
    "wait (triggerNow l s) = (nextNode s, \<lparr>nextTime = time s, nextInst = l\<rparr>) # wait s"
  by (simp_all add: triggerNow_def)

lemma times_unlinkO_sorted: "sorted (times xs) \<Longrightarrow> sorted (times (unlinkO x xs))"
  by (simp add: times_def unlinkO_filter sorted_filter)

lemma distinct_unlinkO: "distinct (map fst xs) \<Longrightarrow> distinct (map fst (unlinkO x xs))"
  by (simp add: unlinkO_filter distinct_map_filter)

lemma distinct_sortIn:
  assumes "sortIn w a xs = Some ys" "distinct (map fst xs)" "\<forall>n \<in> set xs. fst n \<noteq> a"
  shows "distinct (map fst ys)"
proof -
  from sortIn_SomeD[OF assms(1)] obtain k where ys: "ys = take k xs @ (a, w) # drop k xs" by blast
  have "distinct (map fst (take k xs @ drop k xs))" using assms(2) by simp
  moreover have "a \<notin> fst ` set (take k xs)" "a \<notin> fst ` set (drop k xs)"
    using assms(3) by (auto dest: in_set_takeD in_set_dropD)
  ultimately show ?thesis unfolding ys by (auto simp del: append_take_drop_id)
qed

lemma structD:
  assumes "struct s"
  shows "0 \<le> time s" "sorted (times (wait s))" "\<forall>n \<in> set (wait s). time s \<le> nextTime (snd n)"
    "\<forall>n \<in> set (wait s). fst n < nextNode s" "\<forall>sl a. getSlot sl s = Some a \<longrightarrow> a < nextNode s"
    "distinct (map fst (wait s))"
    "\<forall>n \<in> set (wait s). \<forall>sl. slotOf (nextInst (snd n)) = Some sl \<longleftrightarrow> getSlot sl s = Some (fst n)"
    "time s < maxTime"
  using assms by (auto simp: struct_def allocated_def)

lemma structI:
  assumes "0 \<le> time s" "sorted (times (wait s))" "\<forall>n \<in> set (wait s). time s \<le> nextTime (snd n)"
    "\<forall>n \<in> set (wait s). fst n < nextNode s" "\<forall>sl a. getSlot sl s = Some a \<longrightarrow> a < nextNode s"
    "distinct (map fst (wait s))"
    "\<forall>n \<in> set (wait s). \<forall>sl. slotOf (nextInst (snd n)) = Some sl \<longleftrightarrow> getSlot sl s = Some (fst n)"
    "time s < maxTime"
  shows "struct s"
  using assms by (auto simp: struct_def allocated_def)

lemma struct_scheduled:
  assumes "struct s" "0 \<le> dl \<and> dl < 2 ^ 62" "slotOf l = Some sl"
  shows "struct (scheduled sl dl l s)"
proof -
  note d = structD[OF assms(1)]
  from d(1,8) assms(2) have t: "0 \<le> time s + dl \<and> time s + dl < 2 ^ 63"
    by (simp add: maxTime_def)
  let ?s' = "scheduled sl dl l s" and ?h = "getSlot sl s"
  from scheduled_eq[OF t, of l sl] obtain ys where
    ys: "sortIn \<lparr>nextTime = time s + dl, nextInst = l\<rparr> (nextNode s) (unlinkO ?h (wait s)) = Some ys"
    and w: "wait ?s' = ys" by auto
  note set = set_wait_scheduled[OF t, of sl l]
  note fr = scheduled_frame[OF t, where sl = sl and l = l]
  show ?thesis
  proof (rule structI)
    show "0 \<le> time ?s'" using d(1) by (simp add: fr)
    show "time ?s' < maxTime" using d(8) by (simp add: fr)
    show "sorted (times (wait ?s'))"
      unfolding w using d(2) by (intro sorted_sortIn[OF ys] times_unlinkO_sorted)
    show "\<forall>n \<in> set (wait ?s'). time ?s' \<le> nextTime (snd n)"
      using d(3) assms(2) unfolding set by (auto simp: fr)
    show "\<forall>n \<in> set (wait ?s'). fst n < nextNode ?s'"
      using d(4) unfolding set by (auto simp: fr less_Suc_eq)
    show "\<forall>sl a. getSlot sl ?s' = Some a \<longrightarrow> a < nextNode ?s'"
      using d(5) by (auto simp: fr less_Suc_eq)
    show "distinct (map fst (wait ?s'))"
      unfolding w using d(4,6)
      by (intro distinct_sortIn[OF ys] distinct_unlinkO) (auto simp: set_unlinkO)
    show "\<forall>n \<in> set (wait ?s'). \<forall>sl'. slotOf (nextInst (snd n)) = Some sl' \<longleftrightarrow> getSlot sl' ?s' = Some (fst n)"
      unfolding set using d(4,5,7) assms(3) by (auto simp: fr less_Suc_eq)
  qed
qed

lemma struct_scheduleElevatorImmediately:
  assumes "struct s" "slotOf l = Some sl"
  shows "struct (scheduleElevatorImmediately sl l s)"
proof -
  note d = structD[OF assms(1)]
  let ?s' = "scheduleElevatorImmediately sl l s"
  note fr = scheduleElevatorImmediately_frame[where sl = sl and l = l and s = s]
  show ?thesis
  proof (rule structI)
    show "0 \<le> time ?s'" using d(1) by (simp add: fr)
    show "time ?s' < maxTime" using d(8) by (simp add: fr)
    show "sorted (times (wait ?s'))"
      using times_unlinkO_sorted[OF d(2), of "getSlot sl s"] d(3)
      by (auto simp: fr times_def set_unlinkO)
    show "\<forall>n \<in> set (wait ?s'). time ?s' \<le> nextTime (snd n)"
      using d(3) by (auto simp: fr set_unlinkO)
    show "\<forall>n \<in> set (wait ?s'). fst n < nextNode ?s'"
      using d(4) by (auto simp: fr set_unlinkO less_Suc_eq)
    show "\<forall>sl a. getSlot sl ?s' = Some a \<longrightarrow> a < nextNode ?s'"
      using d(5) by (auto simp: fr less_Suc_eq)
    show "distinct (map fst (wait ?s'))"
      using d(4) distinct_unlinkO[OF d(6), of "getSlot sl s"] by (auto simp: fr set_unlinkO)
    show "\<forall>n \<in> set (wait ?s'). \<forall>sl'. slotOf (nextInst (snd n)) = Some sl' \<longleftrightarrow> getSlot sl' ?s' = Some (fst n)"
      using d(4,5,7) assms(2) by (auto simp: fr set_unlinkO)
  qed
qed

lemma struct_triggerNow:
  assumes "struct s" "slotOf l = None"
  shows "struct (triggerNow l s)"
proof -
  note d = structD[OF assms(1)]
  let ?s' = "triggerNow l s"
  note fr = triggerNow_frame[where l = l and s = s]
  show ?thesis
  proof (rule structI)
    show "0 \<le> time ?s'" using d(1) by (simp add: fr)
    show "time ?s' < maxTime" using d(8) by (simp add: fr)
    show "sorted (times (wait ?s'))" using d(2,3) by (auto simp: fr times_def)
    show "\<forall>n \<in> set (wait ?s'). time ?s' \<le> nextTime (snd n)" using d(3) by (auto simp: fr)
    show "\<forall>n \<in> set (wait ?s'). fst n < nextNode ?s'" using d(4) by (auto simp: fr less_Suc_eq)
    show "\<forall>sl a. getSlot sl ?s' = Some a \<longrightarrow> a < nextNode ?s'"
      using d(5) by (auto simp: fr less_Suc_eq)
    show "distinct (map fst (wait ?s'))" using d(4,6) by (auto simp: fr)
    show "\<forall>n \<in> set (wait ?s'). \<forall>sl'. slotOf (nextInst (snd n)) = Some sl' \<longleftrightarrow> getSlot sl' ?s' = Some (fst n)"
      using d(4,5,7) assms(2) by (auto simp: fr)
  qed
qed

lemma struct_waitSorted:
  assumes "struct s" "time s \<le> nextTime w" "slotOf (nextInst w) = None"
  shows "struct (waitSorted w s)"
proof -
  note d = structD[OF assms(1)]
  from d(1,8) assms(2) have t: "0 \<le> nextTime w" by simp
  let ?s' = "waitSorted w s"
  from waitSorted_eq[OF t, of s] obtain ys where
    ys: "sortIn w (nextNode s) (wait s) = Some ys" and w: "wait ?s' = ys" by auto
  note fr = waitSorted_frame[OF t, where s = s]
  show ?thesis
  proof (rule structI)
    show "0 \<le> time ?s'" using d(1) by (simp add: fr)
    show "time ?s' < maxTime" using d(8) by (simp add: fr)
    show "sorted (times (wait ?s'))" unfolding w using d(2) by (rule sorted_sortIn[OF ys])
    show "\<forall>n \<in> set (wait ?s'). time ?s' \<le> nextTime (snd n)"
      using d(3) assms(2) by (auto simp: fr)
    show "\<forall>n \<in> set (wait ?s'). fst n < nextNode ?s'" using d(4) by (auto simp: fr less_Suc_eq)
    show "\<forall>sl a. getSlot sl ?s' = Some a \<longrightarrow> a < nextNode ?s'"
      using d(5) by (auto simp: fr less_Suc_eq)
    show "distinct (map fst (wait ?s'))"
      unfolding w using d(4,6) by (intro distinct_sortIn[OF ys]) auto
    show "\<forall>n \<in> set (wait ?s'). \<forall>sl'. slotOf (nextInst (snd n)) = Some sl' \<longleftrightarrow> getSlot sl' ?s' = Some (fst n)"
      using d(4,5,7) assms(3) by (auto simp: fr)
  qed
qed

lemma struct_delete:
  assumes "struct s"
  shows "struct (delete x s)"
proof -
  note d = structD[OF assms(1)]
  show ?thesis
  proof (rule structI)
    show "0 \<le> time (delete x s)" using d(1) by simp
    show "time (delete x s) < maxTime" using d(8) by simp
    show "sorted (times (wait (delete x s)))" using d(2) by (simp add: times_unlinkO_sorted)
    show "\<forall>n \<in> set (wait (delete x s)). time (delete x s) \<le> nextTime (snd n)"
      using d(3) by (auto simp: set_unlinkO)
    show "\<forall>n \<in> set (wait (delete x s)). fst n < nextNode (delete x s)"
      using d(4) by (auto simp: set_unlinkO)
    show "\<forall>sl a. getSlot sl (delete x s) = Some a \<longrightarrow> a < nextNode (delete x s)"
      using d(5) by auto
    show "distinct (map fst (wait (delete x s)))" using d(6) by (simp add: distinct_unlinkO)
    show "\<forall>n \<in> set (wait (delete x s)). \<forall>sl'. slotOf (nextInst (snd n)) = Some sl' \<longleftrightarrow> getSlot sl' (delete x s) = Some (fst n)"
      using d(7) by (auto simp: set_unlinkO)
  qed
qed

lemma struct_ele_upd:
  "elev1 e = elev1 (ele s) \<Longrightarrow> elev2 e = elev2 (ele s) \<Longrightarrow> elev3 e = elev3 (ele s) \<Longrightarrow>
     struct (s\<lparr>ele := e\<rparr>) = struct s"
  by (simp add: struct_def allocated_def getSlot_def split: slot.splits)

lemma struct_other_upd [simp]:
  "struct (s\<lparr>users := u\<rparr>) = struct s" "struct (s\<lparr>userID := i\<rparr>) = struct s"
  by (simp_all add: struct_def allocated_def getSlot_def split: slot.splits)

lemma struct_alloc: "struct s \<Longrightarrow> struct (s\<lparr>nextNode := Suc (nextNode s)\<rparr>)"
  by (auto simp: struct_def allocated_def less_Suc_eq)

text \<open>Taking the first entry and moving the clock to its time.\<close>

lemma struct_pop:
  assumes "struct s" "wait s = n # rest" "nextTime (snd n) < maxTime"
  shows "struct (s\<lparr>wait := rest, time := nextTime (snd n)\<rparr>)"
proof -
  note d = structD[OF assms(1)]
  show ?thesis
  proof (rule structI)
    show "0 \<le> time (s\<lparr>wait := rest, time := nextTime (snd n)\<rparr>)"
      using d(1,3) assms(2) by auto
    show "sorted (times (wait (s\<lparr>wait := rest, time := nextTime (snd n)\<rparr>)))"
      using d(2) assms(2) by (simp add: times_def)
    show "\<forall>m \<in> set (wait (s\<lparr>wait := rest, time := nextTime (snd n)\<rparr>)).
        time (s\<lparr>wait := rest, time := nextTime (snd n)\<rparr>) \<le> nextTime (snd m)"
      using d(2) assms(2) by (simp add: times_def)
  qed (use d assms(2,3) in \<open>auto simp: getSlot_def split: slot.splits\<close>)
qed

lemma slotOf_Elev2 [simp]: "slotOf l = Some Elev2 \<longleftrightarrow> l = ExecuteCloseDoors"
  by (cases l) simp_all

lemma slotOf_Elev3 [simp]: "slotOf l = Some Elev3 \<longleftrightarrow> l = ExecuteSetInactionIndicator"
  by (cases l) simp_all

lemma insts_upd [simp]:
  "insts (s\<lparr>ele := e\<rparr>) = insts s" "insts (s\<lparr>users := u\<rparr>) = insts s"
  "insts (s\<lparr>userID := i\<rparr>) = insts s" "insts (s\<lparr>nextNode := k\<rparr>) = insts s"
  "insts (s\<lparr>time := t\<rparr>) = insts s"
  by (simp_all add: insts_def)

lemma pend_upd [simp]:
  "pend1 (s\<lparr>ele := e\<rparr>) = pend1 s" "pend1 (s\<lparr>users := u\<rparr>) = pend1 s"
  "pend1 (s\<lparr>userID := i\<rparr>) = pend1 s" "pend1 (s\<lparr>nextNode := k\<rparr>) = pend1 s"
  "pend1 (s\<lparr>time := t\<rparr>) = pend1 s"
  "pend2 (s\<lparr>ele := e\<rparr>) = pend2 s" "pend2 (s\<lparr>users := u\<rparr>) = pend2 s"
  "pend2 (s\<lparr>userID := i\<rparr>) = pend2 s" "pend2 (s\<lparr>nextNode := k\<rparr>) = pend2 s"
  "pend2 (s\<lparr>time := t\<rparr>) = pend2 s"
  by (simp_all add: pend1_def pend2_def)

lemma own_iff:
  assumes "struct s" "n \<in> set (wait s)"
  shows "Some (fst n) = getSlot sl s \<longleftrightarrow> slotOf (nextInst (snd n)) = Some sl"
  using structD(7)[OF assms(1), rule_format, OF assms(2), of sl] by auto

lemma own_set:
  assumes "struct s"
  shows "{n \<in> set (wait s). Some (fst n) \<noteq> getSlot sl s} =
         {n \<in> set (wait s). slotOf (nextInst (snd n)) \<noteq> Some sl}"
  using own_iff[OF assms] by blast

lemma insts_scheduled:
  assumes "struct s" "0 \<le> dl \<and> dl < 2 ^ 62" "slotOf l = Some sl"
  shows "insts (scheduled sl dl l s) = insert l {i \<in> insts s. slotOf i \<noteq> Some sl}"
proof -
  note d = structD[OF assms(1)]
  from d(1,8) assms(2) have t: "0 \<le> time s + dl \<and> time s + dl < 2 ^ 63"
    by (simp add: maxTime_def)
  from own_set[OF assms(1), of sl] show ?thesis
    unfolding insts_def set_wait_scheduled[OF t] by auto
qed

lemma insts_scheduleElevatorImmediately:
  assumes "struct s" "slotOf l = Some sl"
  shows "insts (scheduleElevatorImmediately sl l s) = insert l {i \<in> insts s. slotOf i \<noteq> Some sl}"
proof -
  note d = structD[OF assms(1)]
  from own_set[OF assms(1), of sl] show ?thesis
    unfolding insts_def by (auto simp: scheduleElevatorImmediately_frame set_unlinkO)
qed

lemma insts_triggerNow: "insts (triggerNow l s) = insert l (insts s)"
  by (simp add: insts_def triggerNow_frame)

lemma insts_waitSorted: "0 \<le> nextTime w \<Longrightarrow> insts (waitSorted w s) = insert (nextInst w) (insts s)"
  by (simp add: insts_def waitSorted_frame)

lemma insts_delete_slot:
  assumes "struct s"
  shows "insts (delete (getSlot sl s) s) = {i \<in> insts s. slotOf i \<noteq> Some sl}"
proof -
  note d = structD[OF assms(1)]
  from own_set[OF assms(1), of sl] show ?thesis
    unfolding insts_def by (auto simp: set_unlinkO)
qed

lemma insts_delete_sub: "i \<in> insts (delete x s) \<Longrightarrow> i \<in> insts s"
  by (auto simp: insts_def set_unlinkO)

lemma insts_delete_user:
  assumes "struct s" "\<forall>sl. getSlot sl s \<noteq> x \<or> x = None" "slotOf i \<noteq> None"
  shows "i \<in> insts (delete x s) \<longleftrightarrow> i \<in> insts s"
proof
  assume "i \<in> insts s"
  then obtain n where n: "n \<in> set (wait s)" "nextInst (snd n) = i" by (auto simp: insts_def)
  from assms(3) obtain sl where "slotOf i = Some sl" by auto
  with n structD(7)[OF assms(1)] have "getSlot sl s = Some (fst n)" by auto
  with assms(2)[rule_format, of sl] have "Some (fst n) \<noteq> x" by auto
  with n show "i \<in> insts (delete x s)" by (force simp: insts_def set_unlinkO)
qed (rule insts_delete_sub)

lemma pend_scheduled:
  assumes "struct s" "0 \<le> dl \<and> dl < 2 ^ 62" "slotOf l = Some sl"
  shows "pend1 (scheduled sl dl l s) = (if sl = Elev1 then {l} else pend1 s)"
    "pend2 (scheduled sl dl l s) = (if sl = Elev2 then True else pend2 s)"
  using assms(3) by (auto simp: pend1_def pend2_def insts_scheduled[OF assms])

lemma pend_scheduleElevatorImmediately:
  assumes "struct s" "slotOf l = Some sl"
  shows "pend1 (scheduleElevatorImmediately sl l s) = (if sl = Elev1 then {l} else pend1 s)"
    "pend2 (scheduleElevatorImmediately sl l s) = (if sl = Elev2 then True else pend2 s)"
  using assms(2) by (auto simp: pend1_def pend2_def insts_scheduleElevatorImmediately[OF assms])

lemma pend_triggerNow:
  assumes "slotOf l = None"
  shows "pend1 (triggerNow l s) = pend1 s" "pend2 (triggerNow l s) = pend2 s"
  using assms by (auto simp: pend1_def pend2_def insts_triggerNow)

lemma pend_waitSorted:
  assumes "0 \<le> nextTime w" "slotOf (nextInst w) = None"
  shows "pend1 (waitSorted w s) = pend1 s" "pend2 (waitSorted w s) = pend2 s"
  using assms by (auto simp: pend1_def pend2_def insts_waitSorted)

lemma pend_delete_slot:
  assumes "struct s"
  shows "pend1 (delete (getSlot sl s) s) = (if sl = Elev1 then {} else pend1 s)"
    "pend2 (delete (getSlot sl s) s) = (if sl = Elev2 then False else pend2 s)"
  by (auto simp: pend1_def pend2_def insts_delete_slot[OF assms])

lemma pend_delete_user:
  assumes "struct s" "\<forall>sl. getSlot sl s \<noteq> x \<or> x = None"
  shows "pend1 (delete x s) = pend1 s" "pend2 (delete x s) = pend2 s"
  using insts_delete_user[OF assms] by (auto simp: pend1_def pend2_def)

text \<open>After the first entry has been taken.\<close>

lemma pend_pop:
  assumes "struct s" "wait s = n # rest"
  shows "pend1 (s\<lparr>wait := rest\<rparr>) =
           (if slotOf (nextInst (snd n)) = Some Elev1 then {} else pend1 s)"
    "pend2 (s\<lparr>wait := rest\<rparr>) =
           (if nextInst (snd n) = ExecuteCloseDoors then False else pend2 s)"
    "slotOf (nextInst (snd n)) = Some Elev1 \<Longrightarrow> pend1 s = {nextInst (snd n)}"
    "nextInst (snd n) = ExecuteCloseDoors \<Longrightarrow> pend2 s"
proof -
  note d = structD[OF assms(1)]
  have one: "slotOf (nextInst (snd m)) \<noteq> slotOf (nextInst (snd n)) \<or> slotOf (nextInst (snd n)) = None"
    if "m \<in> set rest" for m
  proof (cases "slotOf (nextInst (snd n))")
    case None
    then show ?thesis by simp
  next
    case (Some sl)
    with d(7) assms(2) have "getSlot sl s = Some (fst n)" by auto
    moreover from d(6) assms(2) have "fst n \<notin> fst ` set rest" by simp
    with that have "fst m \<noteq> fst n" by (metis imageI)
    moreover from d(7) assms(2) that
    have "slotOf (nextInst (snd m)) = Some sl \<longleftrightarrow> getSlot sl s = Some (fst m)" by auto
    ultimately show ?thesis using Some by auto
  qed
  show "pend1 (s\<lparr>wait := rest\<rparr>) =
           (if slotOf (nextInst (snd n)) = Some Elev1 then {} else pend1 s)"
    using one assms(2) by (auto simp: pend1_def insts_def)
  show "pend2 (s\<lparr>wait := rest\<rparr>) =
           (if nextInst (snd n) = ExecuteCloseDoors then False else pend2 s)"
  proof (cases "nextInst (snd n) = ExecuteCloseDoors")
    case True
    have "nextInst (snd m) \<noteq> ExecuteCloseDoors" if "m \<in> set rest" for m
      using one[OF that] True by auto
    then have "ExecuteCloseDoors \<notin> (\<lambda>n. nextInst (snd n)) ` set rest" by (metis imageE)
    with True show ?thesis by (simp add: pend2_def insts_def)
  next
    case False
    with assms(2) show ?thesis by (auto simp: pend2_def insts_def)
  qed
  show "pend1 s = {nextInst (snd n)}" if "slotOf (nextInst (snd n)) = Some Elev1"
  proof -
    have "slotOf (nextInst (snd m)) \<noteq> Some Elev1" if "m \<in> set rest" for m
      using one[OF that] \<open>slotOf (nextInst (snd n)) = Some Elev1\<close> by auto
    with that assms(2) show ?thesis by (auto simp: pend1_def insts_def)
  qed
  show "pend2 s" if "nextInst (snd n) = ExecuteCloseDoors"
    using assms(2) that by (force simp: pend2_def insts_def)
qed

lemma struct_time:
  "struct s \<Longrightarrow> 0 \<le> dl \<and> dl < 2 ^ 62 \<Longrightarrow> 0 \<le> time s + dl \<and> time s + dl < 2 ^ 63"
  by (simp add: struct_def maxTime_def)

lemmas scheduled_fr = scheduled_frame[OF struct_time]

lemma scheduleElevator_ok:
  "struct s \<Longrightarrow> 0 \<le> dl \<and> dl < 2 ^ 62 \<Longrightarrow> scheduleElevator sl dl l s = Inr (scheduled sl dl l s)"
  by (rule scheduleElevator_scheduled[OF struct_time])

lemma usersOK_D:
  assumes "usersOK s"
  shows "\<And>n i. n \<in> set (wait s) \<Longrightarrow> userOf (nextInst (snd n)) = Some i \<Longrightarrow>
            i \<le> userID s \<and> validUser (users s i)"
    "\<And>k p. k < length (queue (ele s)) \<Longrightarrow> p \<in> set (queue (ele s) ! k) \<Longrightarrow>
            snd p \<le> userID s \<and> validUser (users s (snd p)) \<and> in_u (users s (snd p)) = int k"
    "\<And>i a. listNode (users s i) = Some a \<or> giveUp (users s i) = Some a \<Longrightarrow>
            a < nextNode s \<and> (\<forall>sl. getSlot sl s \<noteq> Some a)"
  using assms unfolding usersOK_def by blast+

lemma usersOK_I:
  assumes "\<And>n i. n \<in> set (wait s) \<Longrightarrow> userOf (nextInst (snd n)) = Some i \<Longrightarrow>
            i \<le> userID s \<and> validUser (users s i)"
    "\<And>k p. k < length (queue (ele s)) \<Longrightarrow> p \<in> set (queue (ele s) ! k) \<Longrightarrow>
            snd p \<le> userID s \<and> validUser (users s (snd p)) \<and> in_u (users s (snd p)) = int k"
    "\<And>i a. listNode (users s i) = Some a \<or> giveUp (users s i) = Some a \<Longrightarrow>
            a < nextNode s \<and> (\<forall>sl. getSlot sl s \<noteq> Some a)"
  shows "usersOK s"
  using assms unfolding usersOK_def by blast

lemma in_unlinkO: "p \<in> set (unlinkO x xs) \<Longrightarrow> p \<in> set xs"
  by (simp add: set_unlinkO)

lemma usersOK_scheduled:
  assumes "usersOK s" "struct s" "0 \<le> dl \<and> dl < 2 ^ 62" "slotOf l = Some sl"
  shows "usersOK (scheduled sl dl l s)"
proof -
  note u = usersOK_D[OF assms(1)]
  note fr = scheduled_fr[OF assms(2,3), where sl = sl and l = l]
  note set = set_wait_scheduled[OF struct_time[OF assms(2,3)], of sl l]
  have l: "userOf l = None" using assms(4) by (cases l) auto
  show ?thesis
  proof (rule usersOK_I)
    fix n i assume "n \<in> set (wait (scheduled sl dl l s))" "userOf (nextInst (snd n)) = Some i"
    then show "i \<le> userID (scheduled sl dl l s) \<and> validUser (users (scheduled sl dl l s) i)"
      using u(1)[of n i] l unfolding set by (auto simp: fr)
  next
    fix k p assume "k < length (queue (ele (scheduled sl dl l s)))"
      "p \<in> set (queue (ele (scheduled sl dl l s)) ! k)"
    then show "snd p \<le> userID (scheduled sl dl l s) \<and>
        validUser (users (scheduled sl dl l s) (snd p)) \<and>
        in_u (users (scheduled sl dl l s) (snd p)) = int k"
      using u(2)[of k p] by (auto simp: fr dest: in_unlinkO)
  next
    fix i a assume "listNode (users (scheduled sl dl l s) i) = Some a \<or>
        giveUp (users (scheduled sl dl l s) i) = Some a"
    then show "a < nextNode (scheduled sl dl l s) \<and> (\<forall>sl'. getSlot sl' (scheduled sl dl l s) \<noteq> Some a)"
      using u(3)[of i a] by (auto simp: fr)
  qed
qed

lemma usersOK_scheduleElevatorImmediately:
  assumes "usersOK s" "slotOf l = Some sl"
  shows "usersOK (scheduleElevatorImmediately sl l s)"
proof -
  note u = usersOK_D[OF assms(1)]
  note fr = scheduleElevatorImmediately_frame[where sl = sl and l = l and s = s]
  have l: "userOf l = None" using assms(2) by (cases l) auto
  show ?thesis
  proof (rule usersOK_I)
    fix n i assume "n \<in> set (wait (scheduleElevatorImmediately sl l s))"
      "userOf (nextInst (snd n)) = Some i"
    then show "i \<le> userID (scheduleElevatorImmediately sl l s) \<and>
        validUser (users (scheduleElevatorImmediately sl l s) i)"
      using u(1)[of n i] l by (auto simp: fr dest: in_unlinkO)
  next
    fix k p assume "k < length (queue (ele (scheduleElevatorImmediately sl l s)))"
      "p \<in> set (queue (ele (scheduleElevatorImmediately sl l s)) ! k)"
    then show "snd p \<le> userID (scheduleElevatorImmediately sl l s) \<and>
        validUser (users (scheduleElevatorImmediately sl l s) (snd p)) \<and>
        in_u (users (scheduleElevatorImmediately sl l s) (snd p)) = int k"
      using u(2)[of k p] by (auto simp: fr dest: in_unlinkO)
  next
    fix i a assume "listNode (users (scheduleElevatorImmediately sl l s) i) = Some a \<or>
        giveUp (users (scheduleElevatorImmediately sl l s) i) = Some a"
    then show "a < nextNode (scheduleElevatorImmediately sl l s) \<and>
        (\<forall>sl'. getSlot sl' (scheduleElevatorImmediately sl l s) \<noteq> Some a)"
      using u(3)[of i a] by (auto simp: fr)
  qed
qed

lemma usersOK_triggerNow:
  assumes "usersOK s" "\<And>i. userOf l = Some i \<Longrightarrow> i \<le> userID s \<and> validUser (users s i)"
  shows "usersOK (triggerNow l s)"
proof -
  note u = usersOK_D[OF assms(1)]
  note fr = triggerNow_frame[where l = l and s = s]
  show ?thesis
  proof (rule usersOK_I)
    fix n i assume "n \<in> set (wait (triggerNow l s))" "userOf (nextInst (snd n)) = Some i"
    then show "i \<le> userID (triggerNow l s) \<and> validUser (users (triggerNow l s) i)"
      using u(1)[of n i] assms(2)[of i] by (auto simp: fr)
  next
    fix k p assume "k < length (queue (ele (triggerNow l s)))"
      "p \<in> set (queue (ele (triggerNow l s)) ! k)"
    then show "snd p \<le> userID (triggerNow l s) \<and> validUser (users (triggerNow l s) (snd p)) \<and>
        in_u (users (triggerNow l s) (snd p)) = int k"
      using u(2)[of k p] by (auto simp: fr)
  next
    fix i a assume "listNode (users (triggerNow l s) i) = Some a \<or>
        giveUp (users (triggerNow l s) i) = Some a"
    then show "a < nextNode (triggerNow l s) \<and> (\<forall>sl'. getSlot sl' (triggerNow l s) \<noteq> Some a)"
      using u(3)[of i a] by (auto simp: fr)
  qed
qed

lemma usersOK_delete:
  assumes "usersOK s"
  shows "usersOK (delete x s)"
proof -
  note u = usersOK_D[OF assms(1)]
  show ?thesis
  proof (rule usersOK_I)
    fix n i assume "n \<in> set (wait (delete x s))" "userOf (nextInst (snd n)) = Some i"
    then show "i \<le> userID (delete x s) \<and> validUser (users (delete x s) i)"
      using u(1)[of n i] by (auto dest: in_unlinkO)
  next
    fix k p assume "k < length (queue (ele (delete x s)))" "p \<in> set (queue (ele (delete x s)) ! k)"
    then show "snd p \<le> userID (delete x s) \<and> validUser (users (delete x s) (snd p)) \<and>
        in_u (users (delete x s) (snd p)) = int k"
      using u(2)[of k p] by (auto dest: in_unlinkO)
  next
    fix i a assume "listNode (users (delete x s) i) = Some a \<or> giveUp (users (delete x s) i) = Some a"
    then show "a < nextNode (delete x s) \<and> (\<forall>sl'. getSlot sl' (delete x s) \<noteq> Some a)"
      using u(3)[of i a] by auto
  qed
qed

lemma usersOK_ele_upd:
  "queue e = queue (ele s) \<Longrightarrow> elev1 e = elev1 (ele s) \<Longrightarrow> elev2 e = elev2 (ele s) \<Longrightarrow>
     elev3 e = elev3 (ele s) \<Longrightarrow> usersOK (s\<lparr>ele := e\<rparr>) = usersOK s"
  by (simp add: usersOK_def getSlot_def split: slot.splits)

lemma usersOK_pop:
  assumes "usersOK s" "wait s = n # rest"
  shows "usersOK (s\<lparr>wait := rest, time := t\<rparr>)"
    "\<And>i. userOf (nextInst (snd n)) = Some i \<Longrightarrow> i \<le> userID s \<and> validUser (users s i)"
  using assms by (auto simp: usersOK_def getSlot_def split: slot.splits)

lemma instsI: "n \<in> set (wait s) \<Longrightarrow> nextInst (snd n) \<in> insts s"
  by (simp add: insts_def)

lemma headOK_I:
  assumes "\<And>i. UserGetIn i \<notin> insts s"
    "step (ele s) = stepPrepareToMove \<Longrightarrow> state (ele s) = stateNeutral \<Longrightarrow>
       (\<exists>n rest. wait s = n # rest \<and> nextInst (snd n) = ExecuteWaitForCall)"
  shows "headOK s"
proof -
  have "nextInst (snd n) \<noteq> UserGetIn i" if "n \<in> set (wait s)" for n i
    using assms(1)[of i] instsI[OF that] by auto
  moreover have "n \<in> set (wait s)" if "n \<in> set (tl (wait s))" for n
    using that by (cases "wait s") auto
  moreover have "n \<in> set (wait s)" if "wait s = n # rest" for n rest
    using that by simp
  ultimately show ?thesis using assms(2) unfolding headOK_def by blast
qed

lemma headOK_pop:
  assumes "headOK s" "wait s = n # rest"
  shows "UserGetIn i \<notin> insts (s\<lparr>wait := rest, time := t\<rparr>)"
    "nextInst (snd n) \<noteq> ExecuteWaitForCall \<Longrightarrow>
       \<not> (step (ele s) = stepPrepareToMove \<and> state (ele s) = stateNeutral)"
proof -
  from assms have "\<forall>m \<in> set rest. nextInst (snd m) \<noteq> UserGetIn i" by (simp add: headOK_def)
  then show "UserGetIn i \<notin> insts (s\<lparr>wait := rest, time := t\<rparr>)"
    by (auto simp: insts_def)
  show "\<not> (step (ele s) = stepPrepareToMove \<and> state (ele s) = stateNeutral)"
    if "nextInst (snd n) \<noteq> ExecuteWaitForCall"
    using assms that by (auto simp: headOK_def)
qed

lemma getIn_scheduled [simp]:
  "struct s \<Longrightarrow> 0 \<le> dl \<and> dl < 2 ^ 62 \<Longrightarrow> slotOf l = Some sl \<Longrightarrow>
     UserGetIn i \<in> insts (scheduled sl dl l s) \<longleftrightarrow> UserGetIn i \<in> insts s"
  by (auto simp: insts_scheduled)

lemma getIn_scheduleElevatorImmediately [simp]:
  "struct s \<Longrightarrow> slotOf l = Some sl \<Longrightarrow>
     UserGetIn i \<in> insts (scheduleElevatorImmediately sl l s) \<longleftrightarrow> UserGetIn i \<in> insts s"
  by (auto simp: insts_scheduleElevatorImmediately)

lemma decision_result [consumes 2, case_names same opens go wake home]:
  assumes "struct s" "wellSized (ele s)"
  obtains
    (same) "decision s = Inr s"
      "state (ele s) \<noteq> stateNeutral \<or> step (ele s) \<noteq> stepPrepareToMove"
  | (opens) "decision s = Inr (scheduled Elev1 20 ExecuteOpenDoors s)"
      "state (ele s) = stateNeutral" "step (ele s) = stepWaitForCall"
  | (go) j where "0 \<le> j" "j < floors" "j \<noteq> floor_e (ele s)" "anyCall (ele s) j"
      "state (ele s) = stateNeutral" "step (ele s) \<noteq> stepWaitForCall"
      "decision s = Inr (s\<lparr>ele := (ele s)\<lparr>state :=
          (if floor_e (ele s) > j then stateGoingDown else stateGoingUp)\<rparr>\<rparr>)"
  | (wake) j where "0 \<le> j" "j < floors" "j \<noteq> floor_e (ele s)" "anyCall (ele s) j"
      "state (ele s) = stateNeutral" "step (ele s) = stepWaitForCall"
      "decision s = Inr (scheduled Elev1 20 ExecutePrepareToMove
          (s\<lparr>ele := (ele s)\<lparr>state :=
             (if floor_e (ele s) > j then stateGoingDown else stateGoingUp)\<rparr>\<rparr>))"
  | (home) "state (ele s) = stateNeutral" "step (ele s) = stepPrepareToMove"
      "decision s = Inr (s\<lparr>ele := (ele s)\<lparr>state :=
          (if floor_e (ele s) > floorHome then stateGoingDown
           else if floor_e (ele s) < floorHome then stateGoingUp else stateNeutral)\<rparr>\<rparr>)"
proof -
  let ?e = "ele s"
  let ?P = "\<lambda>j. j \<noteq> floor_e ?e \<and> anyCall ?e j"
  have hm: "callsUCD ?e 2 = Inr (anyCall ?e 2)"
    using assms(2) by (simp add: callsUCD_in floors_def)
  have fc: "findCall ?e [0 .. floors - 1] = Inr (find ?P [0 .. floors - 1])"
    using assms(2) by (simp add: findCall_in)
  have same_s: "s\<lparr>ele := ?e\<lparr>state := stateNeutral\<rparr>\<rparr> = s" if "state ?e = stateNeutral"
    using that by simp
  show ?thesis
  proof (cases "state ?e = stateNeutral")
    case False
    then show ?thesis by (intro same) (simp_all add: decision_def)
  next
    case n: True
    show ?thesis
    proof (cases "step ?e = stepWaitForCall \<and> anyCall ?e floorHome")
      case True
      with n show ?thesis
        by (intro opens) (simp_all add: decision_def hm floorHome_def scheduleElevator_ok assms(1))
    next
      case nh: False
      show ?thesis
      proof (cases "find ?P [0 .. floors - 1]")
        case None
        show ?thesis
        proof (cases "step ?e = stepPrepareToMove")
          case True
          with n nh None show ?thesis
            by (intro home) (auto simp: decision_def hm fc decisionD4_def Let_def floorHome_def same_s)
        next
          case False
          with n nh None show ?thesis
            by (intro same) (auto simp: decision_def hm fc floorHome_def)
        qed
      next
        case (Some j)
        then have j: "0 \<le> j" "j < floors" "?P j" by (auto simp: find_upto_Some)
        let ?s1 = "s\<lparr>ele := ?e\<lparr>state := (if floor_e ?e > j then stateGoingDown else stateGoingUp)\<rparr>\<rparr>"
        have st1: "struct ?s1" using assms(1) by (simp add: struct_ele_upd)
        show ?thesis
        proof (cases "step ?e = stepWaitForCall")
          case True
          with nh j have "j \<noteq> 2" by (auto simp: floorHome_def)
          with n nh Some j True st1 show ?thesis
            by (intro wake[of j])
               (auto simp: decision_def hm fc decisionD4_def Let_def floorHome_def scheduleElevator_ok)
        next
          case False
          with n nh Some j show ?thesis
            by (intro go[of j]) (auto simp: decision_def hm fc decisionD4_def Let_def floorHome_def)
        qed
      qed
    qed
  qed
qed

lemma elevP_D:
  assumes "elevP e P b"
  shows "wellSized e" "0 \<le> floor_e e" "floor_e e < floors"
    "d3 e \<Longrightarrow> P = {} \<and> step e = stepLetPeopleOutIn \<and> \<not> d1 e"
    "b \<Longrightarrow> step e \<in> {stepOpenDoors, stepLetPeopleOutIn, stepCloseDoors} \<and>
        P \<subseteq> {ExecuteOpenDoors, ExecuteLetPeopleOutIn}"
    "step e = stepCloseDoors \<Longrightarrow>
        P \<subseteq> {ExecuteOpenDoors, ExecuteLetPeopleOutIn, ExecutePrepareToMove}"
    "P \<inter> {ExecuteGoUpAFloor, ExecuteGoUpAFloor2, ExecuteGoDownAFloor,
              ExecuteGoDownAFloor2, ExecuteChangeOfState} = {} \<Longrightarrow> dirOK e"
    "ExecuteGoUpAFloor \<in> P \<Longrightarrow> floor_e e < floorHome \<or> callIn e (floor_e e + 1) floors"
    "ExecuteGoUpAFloor2 \<in> P \<Longrightarrow> floor_e e \<le> floorHome \<or> callIn e (floor_e e) floors"
    "ExecuteGoDownAFloor \<in> P \<Longrightarrow> floorHome < floor_e e \<or> callIn e 0 (floor_e e)"
    "ExecuteGoDownAFloor2 \<in> P \<Longrightarrow> floorHome \<le> floor_e e \<or> callIn e 0 (floor_e e + 1)"
    "step e \<noteq> stepSetInactionIndicator"
  using assms unfolding elevP_def by blast+

lemma elevP_I:
  assumes "wellSized e" "0 \<le> floor_e e" "floor_e e < floors"
    "d3 e \<Longrightarrow> P = {} \<and> step e = stepLetPeopleOutIn \<and> \<not> d1 e"
    "b \<Longrightarrow> step e \<in> {stepOpenDoors, stepLetPeopleOutIn, stepCloseDoors} \<and>
        P \<subseteq> {ExecuteOpenDoors, ExecuteLetPeopleOutIn}"
    "step e = stepCloseDoors \<Longrightarrow>
        P \<subseteq> {ExecuteOpenDoors, ExecuteLetPeopleOutIn, ExecutePrepareToMove}"
    "P \<inter> {ExecuteGoUpAFloor, ExecuteGoUpAFloor2, ExecuteGoDownAFloor,
              ExecuteGoDownAFloor2, ExecuteChangeOfState} = {} \<Longrightarrow> dirOK e"
    "ExecuteGoUpAFloor \<in> P \<Longrightarrow> floor_e e < floorHome \<or> callIn e (floor_e e + 1) floors"
    "ExecuteGoUpAFloor2 \<in> P \<Longrightarrow> floor_e e \<le> floorHome \<or> callIn e (floor_e e) floors"
    "ExecuteGoDownAFloor \<in> P \<Longrightarrow> floorHome < floor_e e \<or> callIn e 0 (floor_e e)"
    "ExecuteGoDownAFloor2 \<in> P \<Longrightarrow> floorHome \<le> floor_e e \<or> callIn e 0 (floor_e e + 1)"
    "step e \<noteq> stepSetInactionIndicator"
  shows "elevP e P b"
  using assms unfolding elevP_def by blast

text \<open>Only the registers, the floor, the flags, the direction and the step matter.\<close>

lemma elevP_fields:
  assumes "callUp e' = callUp e" "callDown e' = callDown e" "callCar e' = callCar e"
    "floor_e e' = floor_e e" "d1 e' = d1 e" "d3 e' = d3 e" "state e' = state e" "step e' = step e"
    "length (queue e') = length (queue e)"
  shows "elevP e' P b = elevP e P b"
  using assms by (simp add: elevP_def wellSized_def dirOK_def callIn_def anyCall_def)

lemma elevP_ele_scheduled [simp]:
  "struct s \<Longrightarrow> 0 \<le> dl \<and> dl < 2 ^ 62 \<Longrightarrow> elevP (ele (scheduled sl dl l s)) P b = elevP (ele s) P b"
  by (rule elevP_fields) (simp_all add: scheduled_fr)

lemma elevP_ele_scheduleElevatorImmediately [simp]:
  "elevP (ele (scheduleElevatorImmediately sl l s)) P b = elevP (ele s) P b"
  by (rule elevP_fields) (simp_all add: scheduleElevatorImmediately_frame)

lemma elevP_ele_delete [simp]: "elevP (ele (delete x s)) P b = elevP (ele s) P b"
  by (rule elevP_fields) simp_all

lemma elevP_handles [simp]:
  "elevP (e\<lparr>elev1 := x\<rparr>) P b = elevP e P b" "elevP (e\<lparr>elev2 := x\<rparr>) P b = elevP e P b"
  "elevP (e\<lparr>elev3 := x\<rparr>) P b = elevP e P b" "elevP (e\<lparr>stack := y\<rparr>) P b = elevP e P b"
  "elevP (e\<lparr>d2 := z\<rparr>) P b = elevP e P b"
  by (rule elevP_fields; simp)+

lemma dirOK_Neutral: "state e = stateNeutral \<Longrightarrow> dirOK e"
  by (simp add: dirOK_def)

lemma callIn_I: "a \<le> j \<Longrightarrow> j < b \<Longrightarrow> anyCall e j \<Longrightarrow> callIn e a b"
  unfolding callIn_def by blast

lemma anyCall_state [simp]: "anyCall (e\<lparr>state := x\<rparr>) j = anyCall e j"
  by (simp add: anyCall_def)

lemma callIn_state [simp]: "callIn (e\<lparr>state := x\<rparr>) a b = callIn e a b"
  by (simp add: callIn_def)

lemma wellSized_state [simp]: "wellSized (e\<lparr>state := x\<rparr>) = wellSized e"
  by (simp add: wellSized_def)

lemma dirOK_target:
  assumes "0 \<le> j" "j < floors" "j \<noteq> floor_e e" "anyCall e j"
  shows "dirOK (e\<lparr>state := (if floor_e e > j then stateGoingDown else stateGoingUp)\<rparr>)"
proof (cases "floor_e e > j")
  case True
  with assms have "callIn e 0 (floor_e e)" by (intro callIn_I[of _ j]) simp_all
  with True show ?thesis by (simp add: dirOK_def)
next
  case False
  with assms have "callIn e (floor_e e + 1) floors" by (intro callIn_I[of _ j]) simp_all
  with False show ?thesis by (simp add: dirOK_def)
qed

text \<open>Setting the direction towards a floor with a call, whatever is pending.\<close>

lemma elevP_target:
  assumes "elevP e P b" "0 \<le> j" "j < floors" "j \<noteq> floor_e e" "anyCall e j"
  shows "elevP (e\<lparr>state := (if floor_e e > j then stateGoingDown else stateGoingUp)\<rparr>) P b"
proof -
  note d = elevP_D[OF assms(1)]
  show ?thesis
  proof (rule elevP_I)
    show "P \<inter> {ExecuteGoUpAFloor, ExecuteGoUpAFloor2, ExecuteGoDownAFloor,
              ExecuteGoDownAFloor2, ExecuteChangeOfState} = {} \<Longrightarrow>
        dirOK (e\<lparr>state := (if floor_e e > j then stateGoingDown else stateGoingUp)\<rparr>)"
      by (rule dirOK_target[OF assms(2-5)])
  qed (use d in simp_all)
qed

lemma elevOK_wellSized: "elevOK s \<Longrightarrow> wellSized (ele s)"
  by (simp add: elevOK_def elevP_def)

lemma decision_inv:
  assumes "struct s" "usersOK s" "elevOK s" "\<And>i. UserGetIn i \<notin> insts s"
    "\<not> (step (ele s) = stepPrepareToMove \<and> state (ele s) = stateNeutral)"
  shows "\<exists>s'. decision s = Inr s' \<and> struct s' \<and> usersOK s' \<and> elevOK s' \<and>
           (\<forall>i. UserGetIn i \<notin> insts s') \<and> users s' = users s \<and> userID s' = userID s \<and>
           step (ele s') = step (ele s) \<and> time s' = time s \<and>
           (state (ele s') = stateNeutral \<longrightarrow> state (ele s) = stateNeutral)"
  using assms(1) elevOK_wellSized[OF assms(3)]
proof (cases rule: decision_result)
  case same
  with assms show ?thesis by simp
next
  case opens
  let ?s' = "scheduled Elev1 20 ExecuteOpenDoors s"
  note d = elevP_D[OF assms(3)[unfolded elevOK_def]]
  have st: "struct ?s'" by (rule struct_scheduled[OF assms(1)]) simp_all
  have us: "usersOK ?s'" by (rule usersOK_scheduled[OF assms(2,1)]) simp_all
  have "elevP (ele s) {ExecuteOpenDoors} (pend2 s)"
    by (rule elevP_I) (use d opens(2,3) in \<open>auto simp: dirOK_Neutral\<close>)
  then have el: "elevOK ?s'" using assms(1) by (simp add: elevOK_def pend_scheduled)
  from opens(1) st us el assms(1,4) show ?thesis by (simp add: scheduled_fr)
next
  case (go j)
  let ?s' = "s\<lparr>ele := (ele s)\<lparr>state := (if floor_e (ele s) > j then stateGoingDown else stateGoingUp)\<rparr>\<rparr>"
  have st: "struct ?s'" using assms(1) by (simp add: struct_ele_upd)
  have us: "usersOK ?s'" using assms(2) by (simp add: usersOK_ele_upd)
  have el: "elevOK ?s'"
    using elevP_target[OF assms(3)[unfolded elevOK_def] go(1-4)] by (simp add: elevOK_def)
  from go(7) st us el assms(4) show ?thesis by simp
next
  case (wake j)
  let ?s1 = "s\<lparr>ele := (ele s)\<lparr>state := (if floor_e (ele s) > j then stateGoingDown else stateGoingUp)\<rparr>\<rparr>"
  let ?s' = "scheduled Elev1 20 ExecutePrepareToMove ?s1"
  note d = elevP_D[OF assms(3)[unfolded elevOK_def]]
  have st1: "struct ?s1" using assms(1) by (simp add: struct_ele_upd)
  have st: "struct ?s'" by (rule struct_scheduled[OF st1]) simp_all
  have us1: "usersOK ?s1" using assms(2) by (simp add: usersOK_ele_upd)
  have us: "usersOK ?s'" by (rule usersOK_scheduled[OF us1 st1]) simp_all
  have "elevP (ele s) {ExecutePrepareToMove} (pend2 s)"
    by (rule elevP_I) (use d wake(5,6) in \<open>auto simp: dirOK_Neutral\<close>)
  from elevP_target[OF this wake(1-4)]
  have el: "elevOK ?s'" using st1 by (simp add: elevOK_def pend_scheduled)
  from wake(7) st us el st1 assms(4) show ?thesis by (simp add: scheduled_fr)
next
  case home
  with assms(5) show ?thesis by simp
qed

lemma wellSized_upd [simp]:
  "wellSized (e\<lparr>step := a\<rparr>) = wellSized e" "wellSized (e\<lparr>d1 := b1\<rparr>) = wellSized e"
  "wellSized (e\<lparr>d2 := b2\<rparr>) = wellSized e" "wellSized (e\<lparr>d3 := b3\<rparr>) = wellSized e"
  "wellSized (e\<lparr>floor_e := f\<rparr>) = wellSized e" "wellSized (e\<lparr>elev1 := x\<rparr>) = wellSized e"
  "wellSized (e\<lparr>elev2 := x\<rparr>) = wellSized e" "wellSized (e\<lparr>elev3 := x\<rparr>) = wellSized e"
  "wellSized (e\<lparr>stack := y\<rparr>) = wellSized e"
  by (simp_all add: wellSized_def)

lemma anyCall_upd [simp]:
  "anyCall (e\<lparr>step := a\<rparr>) j = anyCall e j" "anyCall (e\<lparr>d1 := b1\<rparr>) j = anyCall e j"
  "anyCall (e\<lparr>d2 := b2\<rparr>) j = anyCall e j" "anyCall (e\<lparr>d3 := b3\<rparr>) j = anyCall e j"
  "anyCall (e\<lparr>floor_e := f\<rparr>) j = anyCall e j" "anyCall (e\<lparr>elev1 := x\<rparr>) j = anyCall e j"
  "anyCall (e\<lparr>elev2 := x\<rparr>) j = anyCall e j" "anyCall (e\<lparr>elev3 := x\<rparr>) j = anyCall e j"
  "anyCall (e\<lparr>stack := y\<rparr>) j = anyCall e j" "anyCall (e\<lparr>queue := q\<rparr>) j = anyCall e j"
  by (simp_all add: anyCall_def)

lemma callIn_upd [simp]:
  "callIn (e\<lparr>step := a\<rparr>) lo hi = callIn e lo hi" "callIn (e\<lparr>d1 := b1\<rparr>) lo hi = callIn e lo hi"
  "callIn (e\<lparr>d2 := b2\<rparr>) lo hi = callIn e lo hi" "callIn (e\<lparr>d3 := b3\<rparr>) lo hi = callIn e lo hi"
  "callIn (e\<lparr>floor_e := f\<rparr>) lo hi = callIn e lo hi"
  "callIn (e\<lparr>elev1 := x\<rparr>) lo hi = callIn e lo hi"
  "callIn (e\<lparr>elev2 := x\<rparr>) lo hi = callIn e lo hi"
  "callIn (e\<lparr>elev3 := x\<rparr>) lo hi = callIn e lo hi"
  "callIn (e\<lparr>stack := y\<rparr>) lo hi = callIn e lo hi"
  "callIn (e\<lparr>queue := q\<rparr>) lo hi = callIn e lo hi"
  by (simp_all add: callIn_def)

lemma dirOK_upd [simp]:
  "dirOK (e\<lparr>step := a\<rparr>) = dirOK e" "dirOK (e\<lparr>d1 := b1\<rparr>) = dirOK e"
  "dirOK (e\<lparr>d2 := b2\<rparr>) = dirOK e" "dirOK (e\<lparr>d3 := b3\<rparr>) = dirOK e"
  "dirOK (e\<lparr>elev1 := x\<rparr>) = dirOK e" "dirOK (e\<lparr>elev2 := x\<rparr>) = dirOK e"
  "dirOK (e\<lparr>elev3 := x\<rparr>) = dirOK e" "dirOK (e\<lparr>stack := y\<rparr>) = dirOK e"
  "dirOK (e\<lparr>queue := q\<rparr>) = dirOK e"
  by (simp_all add: dirOK_def)

lemma noCallsAbove_callIn: "noCallsAbove e \<longleftrightarrow> \<not> callIn e (floor_e e + 1) floors"
  by (auto simp: noCallsAbove_def callIn_def)

lemma noCallsBelow_callIn: "noCallsBelow e \<longleftrightarrow> \<not> callIn e 0 (floor_e e)"
  by (auto simp: noCallsBelow_def callIn_def)

text \<open>What is known once the first entry has been taken and the clock moved to its time.\<close>

lemma pop_facts:
  assumes "inv s" "wait s = n # rest" "nextTime (snd n) < maxTime"
  shows "struct (s\<lparr>wait := rest, time := nextTime (snd n)\<rparr>)"
    "usersOK (s\<lparr>wait := rest, time := nextTime (snd n)\<rparr>)"
    "\<And>i. UserGetIn i \<notin> insts (s\<lparr>wait := rest, time := nextTime (snd n)\<rparr>)"
    "elevP (ele s) (pend1 s) (pend2 s)"
    "struct s"
    "nextInst (snd n) \<noteq> ExecuteWaitForCall \<Longrightarrow>
       \<not> (step (ele s) = stepPrepareToMove \<and> state (ele s) = stateNeutral)"
proof -
  from assms(1) have i: "struct s" "usersOK s" "elevOK s" "headOK s" by (simp_all add: inv_def)
  show "struct (s\<lparr>wait := rest, time := nextTime (snd n)\<rparr>)" by (rule struct_pop[OF i(1) assms(2,3)])
  show "usersOK (s\<lparr>wait := rest, time := nextTime (snd n)\<rparr>)"
    by (rule usersOK_pop(1)[OF i(2) assms(2)])
  show "UserGetIn i \<notin> insts (s\<lparr>wait := rest, time := nextTime (snd n)\<rparr>)" for i
    by (rule headOK_pop(1)[OF i(4) assms(2)])
  show "elevP (ele s) (pend1 s) (pend2 s)" using i(3) by (simp add: elevOK_def)
  show "struct s" by (rule i(1))
  show "\<not> (step (ele s) = stepPrepareToMove \<and> state (ele s) = stateNeutral)"
    if "nextInst (snd n) \<noteq> ExecuteWaitForCall"
    by (rule headOK_pop(2)[OF i(4) assms(2) that])
qed

lemma invI: "struct s \<Longrightarrow> usersOK s \<Longrightarrow> elevOK s \<Longrightarrow> headOK s \<Longrightarrow> inv s"
  by (simp add: inv_def)

lemma usersOK_waitSorted:
  assumes "usersOK s" "0 \<le> nextTime w" "userOf (nextInst w) = None"
  shows "usersOK (waitSorted w s)"
proof -
  note u = usersOK_D[OF assms(1)]
  note fr = waitSorted_frame[OF assms(2), where s = s]
  show ?thesis
  proof (rule usersOK_I)
    fix n i assume "n \<in> set (wait (waitSorted w s))" "userOf (nextInst (snd n)) = Some i"
    then show "i \<le> userID (waitSorted w s) \<and> validUser (users (waitSorted w s) i)"
      using u(1)[of n i] assms(3) by (auto simp: fr)
  next
    fix k p assume "k < length (queue (ele (waitSorted w s)))"
      "p \<in> set (queue (ele (waitSorted w s)) ! k)"
    then show "snd p \<le> userID (waitSorted w s) \<and> validUser (users (waitSorted w s) (snd p)) \<and>
        in_u (users (waitSorted w s) (snd p)) = int k"
      using u(2)[of k p] by (auto simp: fr)
  next
    fix i a assume "listNode (users (waitSorted w s) i) = Some a \<or>
        giveUp (users (waitSorted w s) i) = Some a"
    then show "a < nextNode (waitSorted w s) \<and> (\<forall>sl'. getSlot sl' (waitSorted w s) \<noteq> Some a)"
      using u(3)[of i a] by (auto simp: fr)
  qed
qed

lemma step_E1:
  assumes "inv s" "wait s = n # rest" "nextInst (snd n) = ExecuteWaitForCall"
    and tm: "nextTime (snd n) < maxTime"
  shows "\<exists>s'. executeWaitForCall (s\<lparr>wait := rest, time := nextTime (snd n)\<rparr>) = Inr s' \<and> inv s'"
proof -
  let ?s2 = "s\<lparr>wait := rest, time := nextTime (snd n)\<rparr>"
  let ?s' = "?s2\<lparr>ele := (ele ?s2)\<lparr>step := stepWaitForCall\<rparr>\<rparr>"
  note f = pop_facts[OF assms(1,2) tm]
  note p = pend_pop[OF f(5) assms(2)]
  note d = elevP_D[OF f(4)]
  have p1: "pend1 s = {ExecuteWaitForCall}" using p(3) assms(3) by simp
  have st: "struct ?s'" using f(1) by (simp add: struct_ele_upd)
  have us: "usersOK ?s'" using f(2) by (simp add: usersOK_ele_upd)
  have "elevP ((ele s)\<lparr>step := stepWaitForCall\<rparr>) {} (pend2 s)"
    by (rule elevP_I) (use d p1 in auto)
  then have el: "elevOK ?s'" using assms(3) by (simp add: elevOK_def p(1,2))
  have hd: "headOK ?s'" by (rule headOK_I) (use f(3) in simp_all)
  have "executeWaitForCall ?s2 = Inr ?s'" by (simp add: executeWaitForCall_def)
  with st us el hd show ?thesis by (simp add: inv_def)
qed

lemma step_E3:
  assumes "inv s" "wait s = n # rest" "nextInst (snd n) = ExecuteOpenDoors"
    and tm: "nextTime (snd n) < maxTime"
  shows "\<exists>s'. executeOpenDoors (s\<lparr>wait := rest, time := nextTime (snd n)\<rparr>) = Inr s' \<and> inv s'"
proof -
  let ?s2 = "s\<lparr>wait := rest, time := nextTime (snd n)\<rparr>"
  let ?s3 = "?s2\<lparr>ele := (ele ?s2)\<lparr>step := stepOpenDoors, d1 := True, d2 := True\<rparr>\<rparr>"
  let ?s4 = "scheduled Elev3 300 ExecuteSetInactionIndicator ?s3"
  let ?s5 = "scheduled Elev2 76 ExecuteCloseDoors ?s4"
  let ?s' = "scheduled Elev1 20 ExecuteLetPeopleOutIn ?s5"
  note f = pop_facts[OF assms(1,2) tm]
  note p = pend_pop[OF f(5) assms(2)]
  note d = elevP_D[OF f(4)]
  have p1: "pend1 s = {ExecuteOpenDoors}" using p(3) assms(3) by simp
  have st3: "struct ?s3" using f(1) by (simp add: struct_ele_upd)
  have st4: "struct ?s4" by (rule struct_scheduled[OF st3]) simp_all
  have st5: "struct ?s5" by (rule struct_scheduled[OF st4]) simp_all
  have st: "struct ?s'" by (rule struct_scheduled[OF st5]) simp_all
  have us3: "usersOK ?s3" using f(2) by (simp add: usersOK_ele_upd)
  have us4: "usersOK ?s4" by (rule usersOK_scheduled[OF us3 st3]) simp_all
  have us5: "usersOK ?s5" by (rule usersOK_scheduled[OF us4 st4]) simp_all
  have us: "usersOK ?s'" by (rule usersOK_scheduled[OF us5 st5]) simp_all
  have "elevP ((ele s)\<lparr>step := stepOpenDoors, d1 := True\<rparr>) {ExecuteLetPeopleOutIn} True"
    by (rule elevP_I) (use d p1 in auto)
  then have el: "elevOK ?s'" using st3 st4 st5 by (simp add: elevOK_def pend_scheduled)
  have hd: "headOK ?s'"
    by (rule headOK_I) (use f(3) st3 st4 st5 in \<open>simp_all add: scheduled_fr\<close>)
  have "executeOpenDoors ?s2 = Inr ?s'"
    using st3 st4 st5 by (simp add: executeOpenDoors_def Let_def scheduleElevator_ok)
  with st us el hd show ?thesis by (simp add: inv_def)
qed

lemma step_E5:
  assumes "inv s" "wait s = n # rest" "nextInst (snd n) = ExecuteCloseDoors"
    and tm: "nextTime (snd n) < maxTime"
  shows "\<exists>s'. executeCloseDoors (s\<lparr>wait := rest, time := nextTime (snd n)\<rparr>) = Inr s' \<and> inv s'"
proof -
  let ?s2 = "s\<lparr>wait := rest, time := nextTime (snd n)\<rparr>"
  let ?s3 = "?s2\<lparr>ele := (ele ?s2)\<lparr>step := stepCloseDoors\<rparr>\<rparr>"
  note f = pop_facts[OF assms(1,2) tm]
  note p = pend_pop[OF f(5) assms(2)]
  note d = elevP_D[OF f(4)]
  have p2: "pend2 s" using p(4) assms(3) by simp
  have p1: "pend1 (s\<lparr>wait := rest\<rparr>) = pend1 s" using p(1) assms(3) by simp
  have st3: "struct ?s3" using f(1) by (simp add: struct_ele_upd)
  have us3: "usersOK ?s3" using f(2) by (simp add: usersOK_ele_upd)
  show ?thesis
  proof (cases "d1 (ele s)")
    case True
    let ?s' = "scheduled Elev2 40 ExecuteCloseDoors ?s3"
    have st: "struct ?s'" by (rule struct_scheduled[OF st3]) simp_all
    have us: "usersOK ?s'" by (rule usersOK_scheduled[OF us3 st3]) simp_all
    have "elevP ((ele s)\<lparr>step := stepCloseDoors\<rparr>) (pend1 s) True"
      by (rule elevP_I) (use d p2 True in auto)
    then have el: "elevOK ?s'" using st3 by (simp add: elevOK_def pend_scheduled p1)
    have hd: "headOK ?s'" by (rule headOK_I) (use f(3) st3 in \<open>simp_all add: scheduled_fr\<close>)
    have "executeCloseDoors ?s2 = Inr ?s'"
      using st3 True by (simp add: executeCloseDoors_def Let_def scheduleElevator_ok)
    with st us el hd show ?thesis by (simp add: inv_def)
  next
    case False
    let ?s4 = "?s3\<lparr>ele := (ele ?s3)\<lparr>d3 := False\<rparr>\<rparr>"
    let ?s' = "scheduled Elev1 20 ExecutePrepareToMove ?s4"
    have st4: "struct ?s4" using f(1) by (simp add: struct_ele_upd)
    have us4: "usersOK ?s4" using f(2) by (simp add: usersOK_ele_upd)
    have st: "struct ?s'" by (rule struct_scheduled[OF st4]) simp_all
    have us: "usersOK ?s'" by (rule usersOK_scheduled[OF us4 st4]) simp_all
    have "elevP ((ele s)\<lparr>step := stepCloseDoors, d3 := False\<rparr>) {ExecutePrepareToMove} False"
      by (rule elevP_I) (use d p2 in auto)
    then have el: "elevOK ?s'" using st4 assms(3) by (simp add: elevOK_def pend_scheduled p(2))
    have hd: "headOK ?s'" by (rule headOK_I) (use f(3) st4 in \<open>simp_all add: scheduled_fr\<close>)
    have "executeCloseDoors ?s2 = Inr ?s'"
      using st4 False by (simp add: executeCloseDoors_def Let_def scheduleElevator_ok)
    with st us el hd show ?thesis by (simp add: inv_def)
  qed
qed

lemma callIn_range: "callIn e a b \<Longrightarrow> a < b"
  by (auto simp: callIn_def)

lemma step_E7:
  assumes "inv s" "wait s = n # rest" "nextInst (snd n) = ExecuteGoUpAFloor"
    and tm: "nextTime (snd n) < maxTime"
  shows "\<exists>s'. executeGoUpAFloor (s\<lparr>wait := rest, time := nextTime (snd n)\<rparr>) = Inr s' \<and> inv s'"
proof -
  let ?s2 = "s\<lparr>wait := rest, time := nextTime (snd n)\<rparr>"
  let ?s3 = "?s2\<lparr>ele := (ele ?s2)\<lparr>step := stepGoUpAFloor, floor_e := floor_e (ele ?s2) + 1\<rparr>\<rparr>"
  let ?s' = "scheduled Elev1 51 ExecuteGoUpAFloor2 ?s3"
  note f = pop_facts[OF assms(1,2) tm]
  note p = pend_pop[OF f(5) assms(2)]
  note d = elevP_D[OF f(4)]
  have p1: "pend1 s = {ExecuteGoUpAFloor}" using p(3) assms(3) by simp
  have np2: "\<not> pend2 s" using d(5) p1 by auto
  have ahead: "floor_e (ele s) < floorHome \<or> callIn (ele s) (floor_e (ele s) + 1) floors"
    using d(8) p1 by simp
  then have top: "floor_e (ele s) + 1 < floors"
    using callIn_range[of "ele s" "floor_e (ele s) + 1" floors] by (auto simp: floorHome_def floors_def)
  have st3: "struct ?s3" using f(1) by (simp add: struct_ele_upd)
  have us3: "usersOK ?s3" using f(2) by (simp add: usersOK_ele_upd)
  have st: "struct ?s'" by (rule struct_scheduled[OF st3]) simp_all
  have us: "usersOK ?s'" by (rule usersOK_scheduled[OF us3 st3]) simp_all
  have "elevP ((ele s)\<lparr>step := stepGoUpAFloor, floor_e := floor_e (ele s) + 1\<rparr>)
          {ExecuteGoUpAFloor2} False"
  proof (rule elevP_I)
    show "floor_e ((ele s)\<lparr>step := stepGoUpAFloor, floor_e := floor_e (ele s) + 1\<rparr>) \<le> floorHome \<or>
        callIn ((ele s)\<lparr>step := stepGoUpAFloor, floor_e := floor_e (ele s) + 1\<rparr>)
          (floor_e ((ele s)\<lparr>step := stepGoUpAFloor, floor_e := floor_e (ele s) + 1\<rparr>)) floors"
      using ahead by auto
  qed (use d p1 top in simp_all)
  then have el: "elevOK ?s'" using st3 assms(3) np2 by (simp add: elevOK_def pend_scheduled p(2))
  have hd: "headOK ?s'" by (rule headOK_I) (use f(3) st3 in \<open>simp_all add: scheduled_fr\<close>)
  have wr: "wrap64 (floor_e (ele s) + 1) = floor_e (ele s) + 1"
    using d(2) top by (simp add: floors_def)
  have "executeGoUpAFloor ?s2 = Inr ?s'"
    using st3 by (simp add: executeGoUpAFloor_def scheduleElevator_ok wr)
  with st us el hd show ?thesis by (simp add: inv_def)
qed

lemma step_E8:
  assumes "inv s" "wait s = n # rest" "nextInst (snd n) = ExecuteGoDownAFloor"
    and tm: "nextTime (snd n) < maxTime"
  shows "\<exists>s'. executeGoDownAFloor (s\<lparr>wait := rest, time := nextTime (snd n)\<rparr>) = Inr s' \<and> inv s'"
proof -
  let ?s2 = "s\<lparr>wait := rest, time := nextTime (snd n)\<rparr>"
  let ?s3 = "?s2\<lparr>ele := (ele ?s2)\<lparr>step := stepGoDownAFloor, floor_e := floor_e (ele ?s2) - 1\<rparr>\<rparr>"
  let ?s' = "scheduled Elev1 61 ExecuteGoDownAFloor2 ?s3"
  note f = pop_facts[OF assms(1,2) tm]
  note p = pend_pop[OF f(5) assms(2)]
  note d = elevP_D[OF f(4)]
  have p1: "pend1 s = {ExecuteGoDownAFloor}" using p(3) assms(3) by simp
  have np2: "\<not> pend2 s" using d(5) p1 by auto
  have ahead: "floorHome < floor_e (ele s) \<or> callIn (ele s) 0 (floor_e (ele s))"
    using d(10) p1 by simp
  then have bot: "0 \<le> floor_e (ele s) - 1"
    using callIn_range[of "ele s" 0 "floor_e (ele s)"] by (auto simp: floorHome_def)
  have st3: "struct ?s3" using f(1) by (simp add: struct_ele_upd)
  have us3: "usersOK ?s3" using f(2) by (simp add: usersOK_ele_upd)
  have st: "struct ?s'" by (rule struct_scheduled[OF st3]) simp_all
  have us: "usersOK ?s'" by (rule usersOK_scheduled[OF us3 st3]) simp_all
  have "elevP ((ele s)\<lparr>step := stepGoDownAFloor, floor_e := floor_e (ele s) - 1\<rparr>)
          {ExecuteGoDownAFloor2} False"
  proof (rule elevP_I)
    show "floorHome \<le> floor_e ((ele s)\<lparr>step := stepGoDownAFloor, floor_e := floor_e (ele s) - 1\<rparr>) \<or>
        callIn ((ele s)\<lparr>step := stepGoDownAFloor, floor_e := floor_e (ele s) - 1\<rparr>) 0
          (floor_e ((ele s)\<lparr>step := stepGoDownAFloor, floor_e := floor_e (ele s) - 1\<rparr>) + 1)"
      using ahead by auto
  qed (use d p1 bot in simp_all)
  then have el: "elevOK ?s'" using st3 assms(3) np2 by (simp add: elevOK_def pend_scheduled p(2))
  have hd: "headOK ?s'" by (rule headOK_I) (use f(3) st3 in \<open>simp_all add: scheduled_fr\<close>)
  have wr: "wrap64 (floor_e (ele s) - 1) = floor_e (ele s) - 1"
    using d(3) bot by (simp add: floors_def)
  have "executeGoDownAFloor ?s2 = Inr ?s'"
    using st3 by (simp add: executeGoDownAFloor_def scheduleElevator_ok wr)
  with st us el hd show ?thesis by (simp add: inv_def)
qed

lemma goUp2_eq:
  assumes "wellSized (ele s)" "0 \<le> floor_e (ele s)" "floor_e (ele s) < floors"
  shows "executeGoUpAFloor2 s =
       (if callCar (ele s) ! nat (floor_e (ele s)) \<or> callUp (ele s) ! nat (floor_e (ele s)) \<or>
           (floor_e (ele s) = floorHome \<or> callDown (ele s) ! nat (floor_e (ele s))) \<and>
             noCallsAbove (ele s)
        then scheduleElevator Elev1 14 ExecuteChangeOfState s
        else Inr (scheduleElevatorImmediately Elev1 ExecuteGoUpAFloor s))"
proof -
  note sz = assms(1)[unfolded wellSized_def]
  have a: "isAllCallsAboveFalse s = Inr (noCallsAbove (ele s))"
    using assms by (simp add: isAllCallsAboveFalse_in)
  show ?thesis using sz assms(2,3) by (simp add: executeGoUpAFloor2_def a floorHome_def)
qed

lemma goDown2_eq:
  assumes "wellSized (ele s)" "0 \<le> floor_e (ele s)" "floor_e (ele s) < floors"
  shows "executeGoDownAFloor2 s =
       (if callCar (ele s) ! nat (floor_e (ele s)) \<or> callDown (ele s) ! nat (floor_e (ele s)) \<or>
           (floor_e (ele s) = floorHome \<or> callUp (ele s) ! nat (floor_e (ele s))) \<and>
             noCallsBelow (ele s)
        then scheduleElevator Elev1 23 ExecuteChangeOfState s
        else Inr (scheduleElevatorImmediately Elev1 ExecuteGoDownAFloor s))"
proof -
  note sz = assms(1)[unfolded wellSized_def]
  have b: "isAllCallsBelowFalse s = Inr (noCallsBelow (ele s))"
    using assms by (simp add: isAllCallsBelowFalse_in)
  show ?thesis using sz assms(2,3) by (simp add: executeGoDownAFloor2_def b floorHome_def)
qed

lemma callIn_first: "callIn e a b \<Longrightarrow> anyCall e a \<or> callIn e (a + 1) b"
  unfolding callIn_def by (metis add1_zle_eq order_le_less)

lemma callIn_last: "callIn e a (b + 1) \<Longrightarrow> anyCall e b \<or> callIn e a b"
  unfolding callIn_def by (metis zle_add1_eq_le order_le_less)

lemma step_E7b:
  assumes "inv s" "wait s = n # rest" "nextInst (snd n) = ExecuteGoUpAFloor2"
    and tm: "nextTime (snd n) < maxTime"
  shows "\<exists>s'. executeGoUpAFloor2 (s\<lparr>wait := rest, time := nextTime (snd n)\<rparr>) = Inr s' \<and> inv s'"
proof -
  let ?s2 = "s\<lparr>wait := rest, time := nextTime (snd n)\<rparr>"
  let ?f = "floor_e (ele s)"
  let ?stop = "callCar (ele s) ! nat ?f \<or> callUp (ele s) ! nat ?f \<or>
           (?f = floorHome \<or> callDown (ele s) ! nat ?f) \<and> noCallsAbove (ele s)"
  note f = pop_facts[OF assms(1,2) tm]
  note p = pend_pop[OF f(5) assms(2)]
  note d = elevP_D[OF f(4)]
  have p1: "pend1 s = {ExecuteGoUpAFloor2}" using p(3) assms(3) by simp
  have np2: "\<not> pend2 s" using d(5) p1 by auto
  have eq: "executeGoUpAFloor2 ?s2 =
      (if ?stop then scheduleElevator Elev1 14 ExecuteChangeOfState ?s2
       else Inr (scheduleElevatorImmediately Elev1 ExecuteGoUpAFloor ?s2))"
    using goUp2_eq[of ?s2] d(1-3) by simp
  show ?thesis
  proof (cases ?stop)
    case True
    let ?s' = "scheduled Elev1 14 ExecuteChangeOfState ?s2"
    have st: "struct ?s'" by (rule struct_scheduled[OF f(1)]) simp_all
    have us: "usersOK ?s'" by (rule usersOK_scheduled[OF f(2) f(1)]) simp_all
    have "elevP (ele s) {ExecuteChangeOfState} False"
      by (rule elevP_I) (use d p1 in simp_all)
    then have el: "elevOK ?s'" using f(1) assms(3) np2 by (simp add: elevOK_def pend_scheduled p(2))
    have hd: "headOK ?s'" by (rule headOK_I) (use f(3) f(1) f(6) assms(3) in \<open>simp_all add: scheduled_fr\<close>)
    have "executeGoUpAFloor2 ?s2 = Inr ?s'"
      using eq True f(1) by (simp add: scheduleElevator_ok)
    with st us el hd show ?thesis by (simp add: inv_def)
  next
    case False
    let ?s' = "scheduleElevatorImmediately Elev1 ExecuteGoUpAFloor ?s2"
    have st: "struct ?s'" by (rule struct_scheduleElevatorImmediately[OF f(1)]) simp
    have us: "usersOK ?s'" by (rule usersOK_scheduleElevatorImmediately[OF f(2)]) simp
    have ahead: "?f < floorHome \<or> callIn (ele s) (?f + 1) floors"
    proof (cases "callIn (ele s) (?f + 1) floors")
      case True
      then show ?thesis by simp
    next
      case nc: False
      then have "noCallsAbove (ele s)" by (simp add: noCallsAbove_callIn)
      with False have nf: "?f \<noteq> floorHome" "\<not> anyCall (ele s) ?f" by (auto simp: anyCall_def)
      from d(9) p1 have "?f \<le> floorHome \<or> callIn (ele s) ?f floors" by simp
      with nf nc callIn_first[of "ele s" ?f floors] show ?thesis by auto
    qed
    have "elevP (ele s) {ExecuteGoUpAFloor} False"
      by (rule elevP_I) (use d p1 ahead in simp_all)
    then have el: "elevOK ?s'"
      using f(1) assms(3) np2 by (simp add: elevOK_def pend_scheduleElevatorImmediately p(2))
    have hd: "headOK ?s'"
      by (rule headOK_I) (use f(3) f(1) f(6) assms(3) in \<open>simp_all add: scheduleElevatorImmediately_frame\<close>)
    have "executeGoUpAFloor2 ?s2 = Inr ?s'" using eq False by simp
    with st us el hd show ?thesis by (simp add: inv_def)
  qed
qed

lemma step_E8b:
  assumes "inv s" "wait s = n # rest" "nextInst (snd n) = ExecuteGoDownAFloor2"
    and tm: "nextTime (snd n) < maxTime"
  shows "\<exists>s'. executeGoDownAFloor2 (s\<lparr>wait := rest, time := nextTime (snd n)\<rparr>) = Inr s' \<and> inv s'"
proof -
  let ?s2 = "s\<lparr>wait := rest, time := nextTime (snd n)\<rparr>"
  let ?f = "floor_e (ele s)"
  let ?stop = "callCar (ele s) ! nat ?f \<or> callDown (ele s) ! nat ?f \<or>
           (?f = floorHome \<or> callUp (ele s) ! nat ?f) \<and> noCallsBelow (ele s)"
  note f = pop_facts[OF assms(1,2) tm]
  note p = pend_pop[OF f(5) assms(2)]
  note d = elevP_D[OF f(4)]
  have p1: "pend1 s = {ExecuteGoDownAFloor2}" using p(3) assms(3) by simp
  have np2: "\<not> pend2 s" using d(5) p1 by auto
  have eq: "executeGoDownAFloor2 ?s2 =
      (if ?stop then scheduleElevator Elev1 23 ExecuteChangeOfState ?s2
       else Inr (scheduleElevatorImmediately Elev1 ExecuteGoDownAFloor ?s2))"
    using goDown2_eq[of ?s2] d(1-3) by simp
  show ?thesis
  proof (cases ?stop)
    case True
    let ?s' = "scheduled Elev1 23 ExecuteChangeOfState ?s2"
    have st: "struct ?s'" by (rule struct_scheduled[OF f(1)]) simp_all
    have us: "usersOK ?s'" by (rule usersOK_scheduled[OF f(2) f(1)]) simp_all
    have "elevP (ele s) {ExecuteChangeOfState} False"
      by (rule elevP_I) (use d p1 in simp_all)
    then have el: "elevOK ?s'" using f(1) assms(3) np2 by (simp add: elevOK_def pend_scheduled p(2))
    have hd: "headOK ?s'" by (rule headOK_I) (use f(3) f(1) f(6) assms(3) in \<open>simp_all add: scheduled_fr\<close>)
    have "executeGoDownAFloor2 ?s2 = Inr ?s'"
      using eq True f(1) by (simp add: scheduleElevator_ok)
    with st us el hd show ?thesis by (simp add: inv_def)
  next
    case False
    let ?s' = "scheduleElevatorImmediately Elev1 ExecuteGoDownAFloor ?s2"
    have st: "struct ?s'" by (rule struct_scheduleElevatorImmediately[OF f(1)]) simp
    have us: "usersOK ?s'" by (rule usersOK_scheduleElevatorImmediately[OF f(2)]) simp
    have ahead: "floorHome < ?f \<or> callIn (ele s) 0 ?f"
    proof (cases "callIn (ele s) 0 ?f")
      case True
      then show ?thesis by simp
    next
      case nc: False
      then have "noCallsBelow (ele s)" by (simp add: noCallsBelow_callIn)
      with False have nf: "?f \<noteq> floorHome" "\<not> anyCall (ele s) ?f" by (auto simp: anyCall_def)
      from d(11) p1 have "floorHome \<le> ?f \<or> callIn (ele s) 0 (?f + 1)" by simp
      with nf nc callIn_last[of "ele s" 0 ?f] show ?thesis by auto
    qed
    have "elevP (ele s) {ExecuteGoDownAFloor} False"
      by (rule elevP_I) (use d p1 ahead in simp_all)
    then have el: "elevOK ?s'"
      using f(1) assms(3) np2 by (simp add: elevOK_def pend_scheduleElevatorImmediately p(2))
    have hd: "headOK ?s'"
      by (rule headOK_I) (use f(3) f(1) f(6) assms(3) in \<open>simp_all add: scheduleElevatorImmediately_frame\<close>)
    have "executeGoDownAFloor2 ?s2 = Inr ?s'" using eq False by simp
    with st us el hd show ?thesis by (simp add: inv_def)
  qed
qed

lemma callIn_cong_range:
  assumes "\<And>j. a \<le> j \<Longrightarrow> j < b \<Longrightarrow> anyCall e' j = anyCall e j"
  shows "callIn e' a b = callIn e a b"
  using assms unfolding callIn_def by auto

lemma changeOfState_result:
  assumes "wellSized (ele s)" "0 \<le> floor_e (ele s)" "floor_e (ele s) < floors"
  shows "\<exists>e'. executeChangeOfState s =
             Inr (scheduleElevatorImmediately Elev1 ExecuteOpenDoors (s\<lparr>ele := e'\<rparr>)) \<and>
           wellSized e' \<and> floor_e e' = floor_e (ele s) \<and> step e' = stepChangeOfState \<and>
           d1 e' = d1 (ele s) \<and> d3 e' = d3 (ele s) \<and> elev1 e' = elev1 (ele s) \<and>
           elev2 e' = elev2 (ele s) \<and> elev3 e' = elev3 (ele s) \<and> queue e' = queue (ele s) \<and>
           dirOK e'"
proof -
  let ?e = "ele s" and ?f = "floor_e (ele s)"
  let ?s1 = "s\<lparr>ele := ?e\<lparr>step := stepChangeOfState\<rparr>\<rparr>"
  let ?cl = "\<lambda>x. ?e\<lparr>step := stepChangeOfState, state := x,
                 callUp := (callUp ?e)[nat ?f := False],
                 callDown := (callDown ?e)[nat ?f := False],
                 callCar := (callCar ?e)[nat ?f := False]\<rparr>"
  note sz = assms(1)[unfolded wellSized_def]
  have a: "isAllCallsAboveFalse ?s1 = Inr (noCallsAbove ?e)"
    using assms by (simp add: isAllCallsAboveFalse_in noCallsAbove_def)
  have b: "isAllCallsBelowFalse ?s1 = Inr (noCallsBelow ?e)"
    using assms by (simp add: isAllCallsBelowFalse_in noCallsBelow_def)
  have other: "anyCall (?cl x) j = anyCall ?e j" if "0 \<le> j" "j \<noteq> ?f" for x j
    using that assms(2) by (simp add: anyCall_def)
  have below: "callIn (?cl x) 0 ?f = callIn ?e 0 ?f" for x
    by (rule callIn_cong_range) (simp add: other)
  have above: "callIn (?cl x) (?f + 1) floors = callIn ?e (?f + 1) floors" for x
    by (rule callIn_cong_range) (use assms(2) in \<open>simp add: other\<close>)
  have wcl: "wellSized (?cl x)" for x using assms(1) by (simp add: wellSized_def)
  consider (up) "state ?e = stateGoingUp" "noCallsAbove ?e"
    | (down) "state ?e = stateGoingDown" "noCallsBelow ?e"
    | (stay) "\<not> (state ?e = stateGoingUp \<and> noCallsAbove ?e)"
             "\<not> (state ?e = stateGoingDown \<and> noCallsBelow ?e)"
    by blast
  then show ?thesis
  proof cases
    case up
    let ?x = "if noCallsBelow ?e then stateNeutral else stateGoingDown"
    have ex: "executeChangeOfState s =
        Inr (scheduleElevatorImmediately Elev1 ExecuteOpenDoors (s\<lparr>ele := ?cl ?x\<rparr>))"
      using up sz assms(2,3) by (simp add: executeChangeOfState_def Let_def a b clearCalls_def)
    have "dirOK (?cl ?x)"
      by (simp add: dirOK_def noCallsBelow_callIn below)
    with ex wcl[of ?x] show ?thesis by (intro exI[of _ "?cl ?x"]) simp
  next
    case down
    let ?x = "if noCallsAbove ?e then stateNeutral else stateGoingUp"
    have ex: "executeChangeOfState s =
        Inr (scheduleElevatorImmediately Elev1 ExecuteOpenDoors (s\<lparr>ele := ?cl ?x\<rparr>))"
      using down sz assms(2,3) by (simp add: executeChangeOfState_def Let_def a b clearCalls_def)
    have "dirOK (?cl ?x)"
      by (simp add: dirOK_def noCallsAbove_callIn above)
    with ex wcl[of ?x] show ?thesis by (intro exI[of _ "?cl ?x"]) simp
  next
    case stay
    have ex: "executeChangeOfState s =
        Inr (scheduleElevatorImmediately Elev1 ExecuteOpenDoors (s\<lparr>ele := ?e\<lparr>step := stepChangeOfState\<rparr>\<rparr>))"
      using stay by (cases "state ?e") (simp_all add: executeChangeOfState_def Let_def a b)
    have "dirOK (?e\<lparr>step := stepChangeOfState\<rparr>)"
      using stay by (auto simp: dirOK_def noCallsAbove_callIn noCallsBelow_callIn)
    with ex assms(1) show ?thesis by (intro exI[of _ "?e\<lparr>step := stepChangeOfState\<rparr>"]) simp
  qed
qed

lemma step_E2:
  assumes "inv s" "wait s = n # rest" "nextInst (snd n) = ExecuteChangeOfState"
    and tm: "nextTime (snd n) < maxTime"
  shows "\<exists>s'. executeChangeOfState (s\<lparr>wait := rest, time := nextTime (snd n)\<rparr>) = Inr s' \<and> inv s'"
proof -
  let ?s2 = "s\<lparr>wait := rest, time := nextTime (snd n)\<rparr>"
  note f = pop_facts[OF assms(1,2) tm]
  note p = pend_pop[OF f(5) assms(2)]
  note d = elevP_D[OF f(4)]
  have p1: "pend1 s = {ExecuteChangeOfState}" using p(3) assms(3) by simp
  have np2: "\<not> pend2 s" using d(5) p1 by auto
  from changeOfState_result[of ?s2] d(1-3) obtain e' where
    ex: "executeChangeOfState ?s2 =
           Inr (scheduleElevatorImmediately Elev1 ExecuteOpenDoors (?s2\<lparr>ele := e'\<rparr>))"
    and e': "wellSized e'" "floor_e e' = floor_e (ele s)" "step e' = stepChangeOfState"
      "d1 e' = d1 (ele s)" "d3 e' = d3 (ele s)" "elev1 e' = elev1 (ele s)"
      "elev2 e' = elev2 (ele s)" "elev3 e' = elev3 (ele s)" "queue e' = queue (ele s)"
      "dirOK e'"
    by auto
  let ?s3 = "?s2\<lparr>ele := e'\<rparr>"
  let ?s' = "scheduleElevatorImmediately Elev1 ExecuteOpenDoors ?s3"
  have st3: "struct ?s3" using f(1) e'(6-8) by (simp add: struct_ele_upd)
  have us3: "usersOK ?s3" using f(2) e'(6-9) by (simp add: usersOK_ele_upd)
  have st: "struct ?s'" by (rule struct_scheduleElevatorImmediately[OF st3]) simp
  have us: "usersOK ?s'" by (rule usersOK_scheduleElevatorImmediately[OF us3]) simp
  have "elevP e' {ExecuteOpenDoors} False"
    by (rule elevP_I) (use d p1 e' in simp_all)
  then have el: "elevOK ?s'"
    using st3 assms(3) np2 by (simp add: elevOK_def pend_scheduleElevatorImmediately p(2))
  have hd: "headOK ?s'"
    by (rule headOK_I) (use f(3) st3 e'(3) in \<open>simp_all add: scheduleElevatorImmediately_frame\<close>)
  from ex st us el hd show ?thesis by (simp add: inv_def)
qed

lemma wait_scheduled_hd:
  assumes "struct s" "0 \<le> dl \<and> dl < 2 ^ 62" "wait s = x # xs" "Some (fst x) \<noteq> getSlot sl s"
    "nextTime (snd x) \<le> time s + dl"
  shows "\<exists>ys. wait (scheduled sl dl l s) = x # ys"
proof -
  from scheduled_eq[OF struct_time[OF assms(1,2)], of l sl] obtain ys where
    ys: "sortIn \<lparr>nextTime = time s + dl, nextInst = l\<rparr> (nextNode s) (unlinkO (getSlot sl s) (wait s)) = Some ys"
    and w: "wait (scheduled sl dl l s) = ys" by auto
  have u: "unlinkO (getSlot sl s) (wait s) = x # unlinkO (getSlot sl s) xs"
    using assms(3,4) by (simp add: unlinkO_filter)
  from sortIn_hd[OF ys u] assms(5) w show ?thesis by auto
qed

lemma headOK_getIn:
  assumes "wait s = x # ys" "\<And>m i. m \<in> set ys \<Longrightarrow> nextInst (snd m) \<noteq> UserGetIn i"
    "\<And>i. nextInst (snd x) = UserGetIn i \<Longrightarrow> in_u (users s i) = floor_e (ele s)"
    "step (ele s) = stepLetPeopleOutIn" "pend1 s \<subseteq> {ExecuteLetPeopleOutIn}"
  shows "headOK s"
  using assms unfolding headOK_def by auto

lemma step_E4:
  assumes "inv s" "wait s = n # rest" "nextInst (snd n) = ExecuteLetPeopleOutIn"
    and tm: "nextTime (snd n) < maxTime"
  shows "\<exists>s'. executeLetPeopleOutIn (s\<lparr>wait := rest, time := nextTime (snd n)\<rparr>) = Inr s' \<and> inv s'"
proof -
  let ?s2 = "s\<lparr>wait := rest, time := nextTime (snd n)\<rparr>"
  let ?s3 = "s\<lparr>wait := rest, time := nextTime (snd n), ele := (ele s)\<lparr>step := stepLetPeopleOutIn\<rparr>\<rparr>"
  let ?f = "floor_e (ele s)"
  let ?P = "\<lambda>p. out_u (users s (snd p)) = ?f"
  note f = pop_facts[OF assms(1,2) tm]
  note p = pend_pop[OF f(5) assms(2)]
  note d = elevP_D[OF f(4)]
  note u = usersOK_D[OF f(2)]
  have p1: "pend1 s = {ExecuteLetPeopleOutIn}" using p(3) assms(3) by simp
  have p2: "pend2 (s\<lparr>wait := rest\<rparr>) = pend2 s" using p(2) assms(3) by simp
  have st3: "struct ?s3" using f(1) by (simp add: struct_ele_upd)
  have us3: "usersOK ?s3" using f(2) by (simp add: usersOK_ele_upd)
  have ng3: "UserGetIn i \<notin> insts ?s3" for i using f(3)[of i] by simp
  have el3: "elevP ((ele s)\<lparr>step := stepLetPeopleOutIn\<rparr>) {ExecuteLetPeopleOutIn} (pend2 s)"
    by (rule elevP_I) (use d p1 in auto)
  have qlen: "nat ?f < length (queue (ele s))" using d(1-3) by (auto simp: wellSized_def)
  have again: "\<exists>s'. scheduleElevator Elev1 25 ExecuteLetPeopleOutIn (triggerNow l ?s3) = Inr s' \<and> inv s'"
    if l: "slotOf l = None" "\<And>i. userOf l = Some i \<Longrightarrow> i \<le> userID s \<and> validUser (users s i)"
      "\<And>i. l = UserGetIn i \<Longrightarrow> in_u (users s i) = ?f" for l
  proof -
    let ?s4 = "triggerNow l ?s3"
    let ?s' = "scheduled Elev1 25 ExecuteLetPeopleOutIn ?s4"
    have st4: "struct ?s4" by (rule struct_triggerNow[OF st3 l(1)])
    have us4: "usersOK ?s4" by (rule usersOK_triggerNow[OF us3]) (use l(2) in simp)
    have st: "struct ?s'" by (rule struct_scheduled[OF st4]) simp_all
    have us: "usersOK ?s'" by (rule usersOK_scheduled[OF us4 st4]) simp_all
    have el: "elevOK ?s'"
      using el3 st4 l(1) by (simp add: elevOK_def pend_scheduled pend_triggerNow triggerNow_frame p2)
    have w4: "wait ?s4 = (nextNode ?s3, \<lparr>nextTime = time ?s3, nextInst = l\<rparr>) # wait ?s3"
      by (simp add: triggerNow_frame)
    have "getSlot Elev1 ?s4 \<noteq> Some (nextNode ?s3)"
      using structD(5)[OF st3] by (auto simp: triggerNow_frame)
    then have "\<exists>ys. wait ?s' = (nextNode ?s3, \<lparr>nextTime = time ?s3, nextInst = l\<rparr>) # ys"
      by (intro wait_scheduled_hd[OF st4 _ w4]) (auto simp: triggerNow_frame)
    then obtain ys where ys: "wait ?s' = (nextNode ?s3, \<lparr>nextTime = time ?s3, nextInst = l\<rparr>) # ys"
      by blast
    have tl: "nextInst (snd m) \<noteq> UserGetIn i" if "m \<in> set ys" for m i
    proof -
      have "distinct (map fst (wait ?s'))" by (rule structD(6)[OF st])
      then have "fst (nextNode ?s3, \<lparr>nextTime = time ?s3, nextInst = l\<rparr>) \<notin> fst ` set ys"
        unfolding ys by simp
      with that have ne: "m \<noteq> (nextNode ?s3, \<lparr>nextTime = time ?s3, nextInst = l\<rparr>)"
        by blast
      from that ys have "m \<in> set (wait ?s')" by simp
      then have "m = (nextNode ?s4, \<lparr>nextTime = time ?s4 + 25, nextInst = ExecuteLetPeopleOutIn\<rparr>) \<or>
          m \<in> set (wait ?s4)"
        using set_wait_scheduled[OF struct_time[OF st4, of 25], of Elev1 ExecuteLetPeopleOutIn]
        by auto
      then show ?thesis
      proof
        assume "m = (nextNode ?s4, \<lparr>nextTime = time ?s4 + 25, nextInst = ExecuteLetPeopleOutIn\<rparr>)"
        then show ?thesis by simp
      next
        assume "m \<in> set (wait ?s4)"
        with ne w4 have "m \<in> set (wait ?s3)" by auto
        from instsI[OF this] ng3[of i] show ?thesis by auto
      qed
    qed
    have hd: "headOK ?s'"
      by (rule headOK_getIn[OF ys tl])
         (use l(3) st4 in \<open>simp_all add: scheduled_fr triggerNow_frame pend_scheduled\<close>)
    have "scheduleElevator Elev1 25 ExecuteLetPeopleOutIn ?s4 = Inr ?s'"
      using st4 by (simp add: scheduleElevator_ok)
    with st us el hd show ?thesis by (simp add: inv_def)
  qed
  have wi: "snd (waitImmed \<lparr>nextTime = nextTime (snd n), nextInst = l\<rparr> ?s3) = triggerNow l ?s3" for l
    using waitImmed_triggerNow[of ?s3 l] by simp
  show ?thesis
  proof (cases "find ?P (rev (stack (ele s)))")
    case (Some q)
    from again[of "UserGetOut (snd q)"] Some show ?thesis
      by (simp add: executeLetPeopleOutIn_def Let_def wi)
  next
    case None
    have at: "at (queue (ele s)) ?f = Inr (queue (ele s) ! nat ?f)"
      using d(1-3) by (simp add: wellSized_def)
    show ?thesis
    proof (cases "queue (ele s) ! nat ?f")
      case Nil
      let ?s' = "?s3\<lparr>ele := (ele ?s3)\<lparr>d1 := False, d3 := True\<rparr>\<rparr>"
      have st: "struct ?s'" using f(1) by (simp add: struct_ele_upd)
      have us: "usersOK ?s'" using f(2) by (simp add: usersOK_ele_upd)
      have "elevP ((ele s)\<lparr>step := stepLetPeopleOutIn, d1 := False, d3 := True\<rparr>) {} (pend2 s)"
        by (rule elevP_I) (use d p1 in auto)
      then have el: "elevOK ?s'" using assms(3) by (simp add: elevOK_def p(1) p2)
      have hd: "headOK ?s'" by (rule headOK_I) (use f(3) in simp_all)
      have "executeLetPeopleOutIn ?s2 = Inr ?s'"
        using None Nil at by (simp add: executeLetPeopleOutIn_def Let_def)
      with st us el hd show ?thesis by (simp add: inv_def)
    next
      case (Cons q qs)
      then have "q \<in> set (queue (ele s) ! nat ?f)" by simp
      from u(2)[of "nat ?f" q] this qlen d(2)
      have q: "snd q \<le> userID s" "validUser (users s (snd q))" "in_u (users s (snd q)) = ?f"
        by simp_all
      from again[of "UserGetIn (snd q)"] q None Cons at show ?thesis
        by (simp add: executeLetPeopleOutIn_def Let_def wi)
    qed
  qed
qed

lemma prepareToMove_result:
  assumes "wellSized (ele s)" "0 \<le> floor_e (ele s)" "floor_e (ele s) < floors"
  shows "\<exists>e4. executePrepareToMove s =
           bindE (decision (s\<lparr>ele := e4\<rparr>)) (\<lambda>s5.
              if state (ele s5) = stateNeutral then
                Inr (scheduleElevatorImmediately Elev1 ExecuteWaitForCall s5)
              else
                let s6 = (if d2 (ele s5) then delete (elev3 (ele s5)) s5 else s5)
                in if state (ele s6) = stateGoingUp
                   then scheduleElevator Elev1 15 ExecuteGoUpAFloor s6
                   else scheduleElevator Elev1 15 ExecuteGoDownAFloor s6) \<and>
           wellSized e4 \<and> floor_e e4 = floor_e (ele s) \<and> step e4 = stepPrepareToMove \<and>
           state e4 = state (ele s) \<and> d1 e4 = d1 (ele s) \<and> d2 e4 = d2 (ele s) \<and>
           d3 e4 = d3 (ele s) \<and> elev1 e4 = elev1 (ele s) \<and>
           elev2 e4 = elev2 (ele s) \<and> elev3 e4 = elev3 (ele s) \<and> queue e4 = queue (ele s) \<and>
           (\<forall>j. 0 \<le> j \<longrightarrow> j \<noteq> floor_e (ele s) \<longrightarrow> anyCall e4 j = anyCall (ele s) j)"
proof -
  let ?e = "ele s" and ?f = "floor_e (ele s)"
  note sz = assms(1)[unfolded wellSized_def]
  show ?thesis
  proof (cases "state ?e")
    case stateGoingUp
    let ?e4 = "?e\<lparr>step := stepPrepareToMove, callCar := (callCar ?e)[nat ?f := False],
                  callUp := (callUp ?e)[nat ?f := False]\<rparr>"
    show ?thesis
      by (rule exI[of _ ?e4])
         (use stateGoingUp sz assms(2,3) in
           \<open>simp add: executePrepareToMove_def Let_def wellSized_def anyCall_def\<close>)
  next
    case stateGoingDown
    let ?e4 = "?e\<lparr>step := stepPrepareToMove, callCar := (callCar ?e)[nat ?f := False],
                  callDown := (callDown ?e)[nat ?f := False]\<rparr>"
    show ?thesis
      by (rule exI[of _ ?e4])
         (use stateGoingDown sz assms(2,3) in
           \<open>simp add: executePrepareToMove_def Let_def wellSized_def anyCall_def\<close>)
  next
    case stateNeutral
    let ?e4 = "?e\<lparr>step := stepPrepareToMove, callCar := (callCar ?e)[nat ?f := False],
                  callUp := (callUp ?e)[nat ?f := False],
                  callDown := (callDown ?e)[nat ?f := False]\<rparr>"
    show ?thesis
      by (rule exI[of _ ?e4])
         (use stateNeutral sz assms(2,3) in
           \<open>simp add: executePrepareToMove_def Let_def wellSized_def anyCall_def\<close>)
  qed
qed

lemma step_E6:
  assumes "inv s" "wait s = n # rest" "nextInst (snd n) = ExecutePrepareToMove"
    and tm: "nextTime (snd n) < maxTime"
  shows "\<exists>s'. executePrepareToMove (s\<lparr>wait := rest, time := nextTime (snd n)\<rparr>) = Inr s' \<and> inv s'"
proof -
  let ?s2 = "s\<lparr>wait := rest, time := nextTime (snd n)\<rparr>"
  let ?f = "floor_e (ele s)"
  let ?tail = "\<lambda>s5. if state (ele s5) = stateNeutral then
                Inr (scheduleElevatorImmediately Elev1 ExecuteWaitForCall s5)
              else
                let s6 = (if d2 (ele s5) then delete (elev3 (ele s5)) s5 else s5)
                in if state (ele s6) = stateGoingUp
                   then scheduleElevator Elev1 15 ExecuteGoUpAFloor s6
                   else scheduleElevator Elev1 15 ExecuteGoDownAFloor s6"
  note f = pop_facts[OF assms(1,2) tm]
  note p = pend_pop[OF f(5) assms(2)]
  note d = elevP_D[OF f(4)]
  have p1: "pend1 s = {ExecutePrepareToMove}" using p(3) assms(3) by simp
  have np2: "\<not> pend2 s" using d(5) p1 by auto
  have p2: "\<not> pend2 (s\<lparr>wait := rest\<rparr>)" using p(2) np2 by simp
  have nd3: "\<not> d3 (ele s)" using d(4) p1 by auto
  have dir: "dirOK (ele s)" using d(7) p1 by simp
  from prepareToMove_result[of ?s2] d(1-3) obtain e4 where
    ex: "executePrepareToMove ?s2 = bindE (decision (?s2\<lparr>ele := e4\<rparr>)) ?tail"
    and e4: "wellSized e4" "floor_e e4 = ?f" "step e4 = stepPrepareToMove"
      "state e4 = state (ele s)" "d1 e4 = d1 (ele s)" "d2 e4 = d2 (ele s)"
      "d3 e4 = d3 (ele s)" "elev1 e4 = elev1 (ele s)"
      "elev2 e4 = elev2 (ele s)" "elev3 e4 = elev3 (ele s)" "queue e4 = queue (ele s)"
    and oth: "\<And>j. 0 \<le> j \<Longrightarrow> j \<noteq> ?f \<Longrightarrow> anyCall e4 j = anyCall (ele s) j"
    by auto
  let ?s4 = "?s2\<lparr>ele := e4\<rparr>"
  let ?s5 = "\<lambda>x. ?s2\<lparr>ele := e4\<lparr>state := x\<rparr>\<rparr>"
  have below: "callIn e4 0 ?f = callIn (ele s) 0 ?f"
    by (rule callIn_cong_range) (simp add: oth)
  have above: "callIn e4 (?f + 1) floors = callIn (ele s) (?f + 1) floors"
    by (rule callIn_cong_range) (use d(2) in \<open>simp add: oth\<close>)
  have st4: "struct ?s4" using f(1) e4 by (simp add: struct_ele_upd)
  have ws4: "wellSized (ele ?s4)" using e4(1) by simp
  have st5: "struct (?s5 x)" for x using f(1) e4 by (simp add: struct_ele_upd)
  have us5: "usersOK (?s5 x)" for x using f(2) e4 by (simp add: usersOK_ele_upd)
  have ng5: "UserGetIn i \<notin> insts (?s5 x)" for i x using f(3)[of i] by simp
  have dec: "\<exists>x. decision ?s4 = Inr (?s5 x) \<and>
      (x = stateGoingUp \<longrightarrow> ?f < floorHome \<or> callIn e4 (?f + 1) floors) \<and>
      (x = stateGoingDown \<longrightarrow> floorHome < ?f \<or> callIn e4 0 ?f)"
    using st4 ws4
  proof (cases rule: decision_result)
    case same
    then have "state e4 \<noteq> stateNeutral" using e4(3) by simp
    with same(1) dir e4(2,4) show ?thesis
      by (intro exI[of _ "state e4"]) (simp add: dirOK_def below above)
  next
    case opens
    then show ?thesis using e4(3) by simp
  next
    case (go j)
    let ?x = "if ?f > j then stateGoingDown else stateGoingUp"
    have "callIn e4 0 ?f" if "j < ?f" using go(1,4) that by (auto intro: callIn_I)
    moreover have "callIn e4 (?f + 1) floors" if "\<not> j < ?f"
      using go(2,3,4) e4(2) that by (auto intro: callIn_I[of _ j])
    ultimately show ?thesis using go(7) e4(2) by (intro exI[of _ ?x]) auto
  next
    case (wake j)
    then show ?thesis using e4(3) by simp
  next
    case home
    let ?x = "if ?f > floorHome then stateGoingDown
           else if ?f < floorHome then stateGoingUp else stateNeutral"
    from home(3) e4(2) show ?thesis by (intro exI[of _ ?x]) auto
  qed
  then obtain x where dx: "decision ?s4 = Inr (?s5 x)"
    and up: "x = stateGoingUp \<Longrightarrow> ?f < floorHome \<or> callIn e4 (?f + 1) floors"
    and down: "x = stateGoingDown \<Longrightarrow> floorHome < ?f \<or> callIn e4 0 ?f"
    by blast
  have move: "\<exists>s'. scheduleElevator Elev1 15 l
         (if d2 e4 then delete (elev3 e4) (?s5 x) else ?s5 x) = Inr s' \<and> inv s'"
    if l: "slotOf l = Some Elev1" "x \<noteq> stateNeutral" "elevP (e4\<lparr>state := x\<rparr>) {l} False" for l
  proof -
    let ?s6 = "if d2 e4 then delete (elev3 e4) (?s5 x) else ?s5 x"
    let ?s' = "scheduled Elev1 15 l ?s6"
    have g3: "elev3 e4 = getSlot Elev3 (?s5 x)" by (simp add: getSlot_def)
    have st6: "struct ?s6" using st5[of x] by (simp add: struct_delete)
    have us6: "usersOK ?s6" using us5[of x] by (simp add: usersOK_delete)
    have ng6: "UserGetIn i \<notin> insts ?s6" for i
      using ng5[of i x] insts_delete_sub[of "UserGetIn i" "elev3 e4" "?s5 x"] by auto
    have p6: "\<not> pend2 ?s6"
      using pend_delete_slot(2)[OF st5[of x], of Elev3] p2 unfolding g3[symmetric] by simp
    have e6: "elevP (ele ?s6) {l} False" using l(3) by simp
    have x6: "state (ele ?s6) = x" by simp
    have st: "struct ?s'" by (rule struct_scheduled[OF st6]) (simp_all add: l(1))
    have us: "usersOK ?s'" by (rule usersOK_scheduled[OF us6 st6]) (simp_all add: l(1))
    have el: "elevOK ?s'"
      unfolding elevOK_def using st6 l(1) e6 p6 by (simp add: pend_scheduled)
    have hd: "headOK ?s'"
    proof (rule headOK_I)
      show "UserGetIn i \<notin> insts ?s'" for i using st6 l(1) ng6[of i] by simp
      show "\<exists>n rest. wait ?s' = n # rest \<and> nextInst (snd n) = ExecuteWaitForCall"
        if "state (ele ?s') = stateNeutral"
        using that l(2) x6 st6 by (simp add: scheduled_fr)
    qed
    have "scheduleElevator Elev1 15 l ?s6 = Inr ?s'" using st6 by (simp add: scheduleElevator_ok)
    with st us el hd show ?thesis by (simp add: inv_def)
  qed
  show ?thesis
  proof (cases x)
    case stateNeutral
    let ?s' = "scheduleElevatorImmediately Elev1 ExecuteWaitForCall (?s5 x)"
    have st: "struct ?s'" by (rule struct_scheduleElevatorImmediately[OF st5]) simp
    have us: "usersOK ?s'" by (rule usersOK_scheduleElevatorImmediately[OF us5]) simp
    have "elevP (e4\<lparr>state := x\<rparr>) {ExecuteWaitForCall} False"
      by (rule elevP_I) (use d(2,3) e4 nd3 stateNeutral in \<open>simp_all add: dirOK_Neutral\<close>)
    then have el: "elevOK ?s'"
      using st5[of x] p2 by (simp add: elevOK_def pend_scheduleElevatorImmediately)
    have hd: "headOK ?s'"
      by (rule headOK_I)
         (use ng5 st5[of x] in \<open>simp_all add: scheduleElevatorImmediately_frame\<close>)
    from ex dx stateNeutral st us el hd show ?thesis by (simp add: inv_def)
  next
    case stateGoingUp
    have "elevP (e4\<lparr>state := x\<rparr>) {ExecuteGoUpAFloor} False"
      by (rule elevP_I) (use d(2,3) e4 nd3 stateGoingUp up in simp_all)
    from move[OF _ _ this] stateGoingUp obtain s' where
      s': "scheduleElevator Elev1 15 ExecuteGoUpAFloor
         (if d2 e4 then delete (elev3 e4) (?s5 x) else ?s5 x) = Inr s'" "inv s'"
      by auto
    have "executePrepareToMove ?s2 = scheduleElevator Elev1 15 ExecuteGoUpAFloor
         (if d2 e4 then delete (elev3 e4) (?s5 x) else ?s5 x)"
      unfolding ex dx using stateGoingUp by (simp add: Let_def)
    with s' show ?thesis by simp
  next
    case stateGoingDown
    have "elevP (e4\<lparr>state := x\<rparr>) {ExecuteGoDownAFloor} False"
      by (rule elevP_I) (use d(2,3) e4 nd3 stateGoingDown down in simp_all)
    from move[OF _ _ this] stateGoingDown obtain s' where
      s': "scheduleElevator Elev1 15 ExecuteGoDownAFloor
         (if d2 e4 then delete (elev3 e4) (?s5 x) else ?s5 x) = Inr s'" "inv s'"
      by auto
    have "executePrepareToMove ?s2 = scheduleElevator Elev1 15 ExecuteGoDownAFloor
         (if d2 e4 then delete (elev3 e4) (?s5 x) else ?s5 x)"
      unfolding ex dx using stateGoingDown by (simp add: Let_def)
    with s' show ?thesis by simp
  qed
qed

lemma step_E9:
  assumes "inv s" "wait s = n # rest" "nextInst (snd n) = ExecuteSetInactionIndicator"
    and tm: "nextTime (snd n) < maxTime"
  shows "\<exists>s'. executeSetInactionIndicator (s\<lparr>wait := rest, time := nextTime (snd n)\<rparr>) = Inr s' \<and> inv s'"
proof -
  let ?s2 = "s\<lparr>wait := rest, time := nextTime (snd n)\<rparr>"
  let ?s3 = "?s2\<lparr>ele := (ele ?s2)\<lparr>d2 := False\<rparr>\<rparr>"
  note f = pop_facts[OF assms(1,2) tm]
  note p = pend_pop[OF f(5) assms(2)]
  have ns: "\<not> (step (ele s) = stepPrepareToMove \<and> state (ele s) = stateNeutral)"
    using f(6) assms(3) by simp
  have st3: "struct ?s3" using f(1) by (simp add: struct_ele_upd)
  have us3: "usersOK ?s3" using f(2) by (simp add: usersOK_ele_upd)
  have el3: "elevOK ?s3" using f(4) assms(3) by (simp add: elevOK_def p(1,2))
  have ng3: "UserGetIn i \<notin> insts ?s3" for i using f(3)[of i] by simp
  from decision_inv[OF st3 us3 el3 ng3] ns obtain s' where
    s': "decision ?s3 = Inr s'" "struct s'" "usersOK s'" "elevOK s'" "\<And>i. UserGetIn i \<notin> insts s'"
      "step (ele s') = step (ele s)" "state (ele s') = stateNeutral \<Longrightarrow> state (ele s) = stateNeutral"
    by auto
  have hd: "headOK s'" by (rule headOK_I) (use s'(5-7) ns in auto)
  from s'(1-4) hd show ?thesis by (simp add: executeSetInactionIndicator_def inv_def)
qed

text \<open>A user action put at the front of the WAIT list, due now.\<close>

lemma inv_triggerNow:
  assumes "struct s" "usersOK s" "elevOK s" "\<And>i. UserGetIn i \<notin> insts s"
    "\<not> (step (ele s) = stepPrepareToMove \<and> state (ele s) = stateNeutral)"
    "slotOf l = None" "\<And>i. l \<noteq> UserGetIn i"
    "\<And>i. userOf l = Some i \<Longrightarrow> i \<le> userID s \<and> validUser (users s i)"
  shows "inv (triggerNow l s)"
proof (rule invI)
  show "struct (triggerNow l s)" by (rule struct_triggerNow[OF assms(1,6)])
  show "usersOK (triggerNow l s)" by (rule usersOK_triggerNow[OF assms(2,8)])
  show "elevOK (triggerNow l s)"
    using assms(3,6) by (simp add: elevOK_def pend_triggerNow triggerNow_frame)
  show "headOK (triggerNow l s)"
    by (rule headOK_I) (use assms(4,5,7) in \<open>auto simp: insts_triggerNow triggerNow_frame\<close>)
qed

lemma usersOK_newUser:
  assumes "usersOK s" "listNode u = None" "giveUp u = None"
  shows "usersOK (s\<lparr>userID := Suc (userID s), users := (users s)(Suc (userID s) := u)\<rparr>)"
proof -
  note d = usersOK_D[OF assms(1)]
  let ?s' = "s\<lparr>userID := Suc (userID s), users := (users s)(Suc (userID s) := u)\<rparr>"
  show ?thesis
  proof (rule usersOK_I)
    fix n i assume "n \<in> set (wait ?s')" "userOf (nextInst (snd n)) = Some i"
    then show "i \<le> userID ?s' \<and> validUser (users ?s' i)" using d(1)[of n i] by auto
  next
    fix k p assume "k < length (queue (ele ?s'))" "p \<in> set (queue (ele ?s') ! k)"
    then show "snd p \<le> userID ?s' \<and> validUser (users ?s' (snd p)) \<and>
        in_u (users ?s' (snd p)) = int k"
      using d(2)[of k p] by auto
  next
    fix i a assume "listNode (users ?s' i) = Some a \<or> giveUp (users ?s' i) = Some a"
    then show "a < nextNode ?s' \<and> (\<forall>sl. getSlot sl ?s' \<noteq> Some a)"
      using d(3)[of i a] assms(2,3) by (auto simp: getSlot_def split: if_splits slot.splits)
  qed
qed

lemma userEnterPrepareForSuccessor_inv:
  assumes "struct s" "usersOK s" "elevOK s" "\<And>i. UserGetIn i \<notin> insts s"
    "\<not> (step (ele s) = stepPrepareToMove \<and> state (ele s) = stateNeutral)"
    "valid_draws d"
  shows "\<exists>s'. userEnterPrepareForSuccessor d s = Inr s' \<and> inv s'"
proof -
  let ?i = "Suc (userID s)"
  let ?u = "newUser ?i (rIn d) (if rOut d \<ge> rIn d then rOut d + 1 else rOut d)
              (minGiveUpTime + rGiveUp d)"
  let ?s2 = "s\<lparr>userID := ?i, users := (users s)(?i := ?u)\<rparr>"
  let ?w = "\<lparr>nextTime = time s + (minInterTime + rInter d),
             nextInst = UserEnterPrepareForSuccessor\<rparr>"
  let ?s3 = "waitSorted ?w ?s2"
  note v = assms(6)[unfolded valid_draws_def]
  have t0: "0 \<le> time s" by (rule structD(1)[OF assms(1)])
  have w0: "0 \<le> nextTime ?w" "time ?s2 \<le> nextTime ?w"
    using t0 v by (simp_all add: minInterTime_def)
  have vu: "validUser ?u" using v by (simp add: validUser_def newUser_def minGiveUpTime_def)
  have st2: "struct ?s2" using assms(1) by simp
  have us2: "usersOK ?s2" by (rule usersOK_newUser[OF assms(2)]) (simp_all add: newUser_def)
  have st3: "struct ?s3" by (rule struct_waitSorted[OF st2 w0(2)]) simp
  have us3: "usersOK ?s3" by (rule usersOK_waitSorted[OF us2 w0(1)]) simp
  have el3: "elevOK ?s3"
    using assms(3) w0(1) by (simp add: elevOK_def pend_waitSorted waitSorted_frame)
  have ng3: "UserGetIn i \<notin> insts ?s3" for i
    using assms(4)[of i] w0(1) by (simp add: insts_waitSorted)
  have ns3: "\<not> (step (ele ?s3) = stepPrepareToMove \<and> state (ele ?s3) = stateNeutral)"
    using assms(5) w0(1) by (simp add: waitSorted_frame)
  have wr: "wrap64 (time s + (minInterTime + rInter d)) = time s + (minInterTime + rInter d)"
    using t0 structD(8)[OF assms(1)] v
    by (simp add: minInterTime_def maxInterTime_def maxTime_def)
  have "inv (triggerNow (UserSignalAndWait ?i) ?s3)"
    by (rule inv_triggerNow[OF st3 us3 el3 ng3 ns3])
       (use vu w0(1) in \<open>simp_all add: waitSorted_frame\<close>)
  moreover have "userEnterPrepareForSuccessor d s =
      Inr (triggerNow (UserSignalAndWait ?i) ?s3)"
    using w0(1) waitImmed_triggerNow[of ?s3 "UserSignalAndWait ?i"]
    by (simp add: userEnterPrepareForSuccessor_def Let_def waitSortIn_waitSorted newUser_def
        waitSorted_frame wr)
  ultimately show ?thesis by simp
qed

lemma step_U1:
  assumes "inv s" "wait s = n # rest" "nextInst (snd n) = UserEnterPrepareForSuccessor"
    "valid_draws d"
    and tm: "nextTime (snd n) < maxTime"
  shows "\<exists>s'. userEnterPrepareForSuccessor d (s\<lparr>wait := rest, time := nextTime (snd n)\<rparr>) = Inr s' \<and> inv s'"
proof -
  let ?s2 = "s\<lparr>wait := rest, time := nextTime (snd n)\<rparr>"
  note f = pop_facts[OF assms(1,2) tm]
  note p = pend_pop[OF f(5) assms(2)]
  have el: "elevOK ?s2" using f(4) assms(3) by (simp add: elevOK_def p(1,2))
  have ns: "\<not> (step (ele ?s2) = stepPrepareToMove \<and> state (ele ?s2) = stateNeutral)"
    using f(6) assms(3) by simp
  show ?thesis
    by (rule userEnterPrepareForSuccessor_inv[OF f(1,2) el f(3) ns assms(4)])
qed

text \<open>A node of a user leaves the lists.\<close>

lemma inv_delete_user:
  assumes "struct s" "usersOK s" "elevOK s" "\<And>i. UserGetIn i \<notin> insts s"
    "\<not> (step (ele s) = stepPrepareToMove \<and> state (ele s) = stateNeutral)"
    "x = listNode (users s i) \<or> x = giveUp (users s i)"
  shows "struct (delete x s)" "usersOK (delete x s)" "elevOK (delete x s)"
    "\<And>i. UserGetIn i \<notin> insts (delete x s)"
    "pend1 (delete x s) = pend1 s" "pend2 (delete x s) = pend2 s"
    "inv (delete x s)"
proof -
  have sep: "\<forall>sl. getSlot sl s \<noteq> x \<or> x = None"
  proof (cases x)
    case None
    then show ?thesis by simp
  next
    case (Some a)
    with assms(6) have "listNode (users s i) = Some a \<or> giveUp (users s i) = Some a" by auto
    from usersOK_D(3)[OF assms(2) this] Some show ?thesis by simp
  qed
  show st: "struct (delete x s)" by (rule struct_delete[OF assms(1)])
  show us: "usersOK (delete x s)" by (rule usersOK_delete[OF assms(2)])
  show pd: "pend1 (delete x s) = pend1 s" "pend2 (delete x s) = pend2 s"
    by (rule pend_delete_user[OF assms(1) sep])+
  show el: "elevOK (delete x s)" using assms(3) by (simp add: elevOK_def pd)
  show ng: "UserGetIn i \<notin> insts (delete x s)" for i
    using assms(4)[of i] insts_delete_sub[of "UserGetIn i" x s] by auto
  have hd: "headOK (delete x s)" by (rule headOK_I) (use ng assms(5) in auto)
  from st us el hd show "inv (delete x s)" by (rule invI)
qed

lemma step_U4:
  assumes "inv s" "wait s = n # rest" "nextInst (snd n) = UserGiveUp i"
    and tm: "nextTime (snd n) < maxTime"
  shows "\<exists>s'. userGiveUp i (s\<lparr>wait := rest, time := nextTime (snd n)\<rparr>) = Inr s' \<and> inv s'"
proof -
  let ?s2 = "s\<lparr>wait := rest, time := nextTime (snd n)\<rparr>"
  note f = pop_facts[OF assms(1,2) tm]
  note p = pend_pop[OF f(5) assms(2)]
  have el: "elevOK ?s2" using f(4) assms(3) by (simp add: elevOK_def p(1,2))
  have ns: "\<not> (step (ele ?s2) = stepPrepareToMove \<and> state (ele ?s2) = stateNeutral)"
    using f(6) assms(3) by simp
  have hd: "headOK ?s2" by (rule headOK_I) (use f(3) ns in auto)
  have i2: "inv ?s2" by (rule invI[OF f(1,2) el hd])
  have "inv (delete (listNode (users ?s2 i)) ?s2)"
    by (rule inv_delete_user(7)[OF f(1,2) el f(3) ns, where i = i]) simp
  with i2 show ?thesis by (simp add: userGiveUp_def Let_def)
qed

lemma step_U6:
  assumes "inv s" "wait s = n # rest" "nextInst (snd n) = UserGetOut i"
    and tm: "nextTime (snd n) < maxTime"
  shows "\<exists>s'. userGetOut i (s\<lparr>wait := rest, time := nextTime (snd n)\<rparr>) = Inr s' \<and> inv s'"
proof -
  let ?s2 = "s\<lparr>wait := rest, time := nextTime (snd n)\<rparr>"
  note f = pop_facts[OF assms(1,2) tm]
  note p = pend_pop[OF f(5) assms(2)]
  have el: "elevOK ?s2" using f(4) assms(3) by (simp add: elevOK_def p(1,2))
  have ns: "\<not> (step (ele ?s2) = stepPrepareToMove \<and> state (ele ?s2) = stateNeutral)"
    using f(6) assms(3) by simp
  have "inv (delete (listNode (users ?s2 i)) ?s2)"
    by (rule inv_delete_user(7)[OF f(1,2) el f(3) ns, where i = i]) simp
  then show ?thesis by (simp add: userGetOut_def)
qed

lemma waitImmed_now:
  "t = time s \<Longrightarrow> snd (waitImmed \<lparr>nextTime = t, nextInst = l\<rparr> s) = triggerNow l s"
  by (simp add: waitImmed_triggerNow)

lemma callIn_mono:
  assumes "\<And>j. anyCall e j \<Longrightarrow> anyCall e' j" "callIn e a b"
  shows "callIn e' a b"
  using assms unfolding callIn_def by blast

text \<open>Asserting a call register keeps what is known of the elevator.\<close>

lemma elevP_more_calls:
  assumes "elevP e P b" "wellSized e'" "floor_e e' = floor_e e" "d1 e' = d1 e" "d3 e' = d3 e"
    "state e' = state e" "step e' = step e" "\<And>j. anyCall e j \<Longrightarrow> anyCall e' j"
  shows "elevP e' P b"
proof -
  note d = elevP_D[OF assms(1)]
  note m = callIn_mono[of e e', OF assms(8)]
  show ?thesis
  proof (rule elevP_I)
    show "dirOK e'"
      if "P \<inter> {ExecuteGoUpAFloor, ExecuteGoUpAFloor2, ExecuteGoDownAFloor,
              ExecuteGoDownAFloor2, ExecuteChangeOfState} = {}"
      using d(7)[OF that] m unfolding dirOK_def assms(3,6) by blast
    show "floor_e e' < floorHome \<or> callIn e' (floor_e e' + 1) floors" if "ExecuteGoUpAFloor \<in> P"
      using d(8)[OF that] m unfolding assms(3) by blast
    show "floor_e e' \<le> floorHome \<or> callIn e' (floor_e e') floors" if "ExecuteGoUpAFloor2 \<in> P"
      using d(9)[OF that] m unfolding assms(3) by blast
    show "floorHome < floor_e e' \<or> callIn e' 0 (floor_e e')" if "ExecuteGoDownAFloor \<in> P"
      using d(10)[OF that] m unfolding assms(3) by blast
    show "floorHome \<le> floor_e e' \<or> callIn e' 0 (floor_e e' + 1)" if "ExecuteGoDownAFloor2 \<in> P"
      using d(11)[OF that] m unfolding assms(3) by blast
  qed (use d(1-6,12) assms(2-7) in simp_all)
qed

lemma anyCall_set:
  assumes "wellSized e" "0 \<le> k" "k < floors" "anyCall e j"
  shows "anyCall (e\<lparr>callUp := (callUp e)[nat k := True]\<rparr>) j"
    "anyCall (e\<lparr>callDown := (callDown e)[nat k := True]\<rparr>) j"
    "anyCall (e\<lparr>callCar := (callCar e)[nat k := True]\<rparr>) j"
  using assms by (auto simp: anyCall_def wellSized_def nth_list_update split: if_splits)

lemma step_U2:
  assumes "inv s" "wait s = n # rest" "nextInst (snd n) = UserSignalAndWait i"
    and tm: "nextTime (snd n) < maxTime"
  shows "\<exists>s'. userSignalAndWait i (s\<lparr>wait := rest, time := nextTime (snd n)\<rparr>) = Inr s' \<and> inv s'"
proof -
  let ?s2 = "s\<lparr>wait := rest, time := nextTime (snd n)\<rparr>"
  let ?u = "users s i"
  let ?l = "UserEnterQueue i"
  let ?good = "\<lambda>s3. struct s3 \<and> usersOK s3 \<and> elevOK s3 \<and> (\<forall>j. UserGetIn j \<notin> insts s3) \<and>
      users s3 = users s \<and> userID s3 = userID s \<and>
      \<not> (step (ele s3) = stepPrepareToMove \<and> state (ele s3) = stateNeutral)"
  note f = pop_facts[OF assms(1,2) tm]
  note p = pend_pop[OF f(5) assms(2)]
  note d = elevP_D[OF f(4)]
  from assms(1) have "usersOK s" by (simp add: inv_def)
  from usersOK_pop(2)[OF this assms(2), of i] assms(3)
  have vu: "i \<le> userID s" "validUser ?u" by simp_all
  note v = vu(2)[unfolded validUser_def]
  have pe: "pend1 (s\<lparr>wait := rest\<rparr>) = pend1 s" "pend2 (s\<lparr>wait := rest\<rparr>) = pend2 s"
    using p(1,2) assms(3) by simp_all
  have ns: "\<not> (step (ele s) = stepPrepareToMove \<and> state (ele s) = stateNeutral)"
    using f(6) assms(3) by simp
  have tail: "\<exists>s'. Inr (triggerNow ?l s3) = Inr s' \<and> inv s'" if "?good s3" for s3
  proof -
    have "inv (triggerNow ?l s3)"
      by (rule inv_triggerNow) (use that vu in auto)
    then show ?thesis by simp
  qed
  consider (reopen) "floor_e (ele s) = in_u ?u" "step (ele s) = stepCloseDoors"
    | (again) "floor_e (ele s) = in_u ?u" "step (ele s) \<noteq> stepCloseDoors" "d3 (ele s)"
    | (call) "\<not> (floor_e (ele s) = in_u ?u \<and> step (ele s) = stepCloseDoors)"
        "\<not> (floor_e (ele s) = in_u ?u \<and> d3 (ele s))"
    by blast
  then show ?thesis
  proof cases
    case reopen
    let ?s3 = "scheduleElevatorImmediately Elev1 ExecuteOpenDoors ?s2"
    have nd3: "\<not> d3 (ele s)" using d(4) reopen(2) by auto
    have dir: "dirOK (ele s)" using d(6)[OF reopen(2)] by (intro d(7)) auto
    have "elevP (ele s) {ExecuteOpenDoors} (pend2 s)"
      by (rule elevP_I) (use d(1-3,5) nd3 dir reopen(2) in auto)
    then have el: "elevOK ?s3"
      using f(1) by (simp add: elevOK_def pend_scheduleElevatorImmediately pe)
    have "?good ?s3"
      using struct_scheduleElevatorImmediately[OF f(1), of ExecuteOpenDoors Elev1]
        usersOK_scheduleElevatorImmediately[OF f(2), of ExecuteOpenDoors Elev1]
        el f(1,3) ns
      by (simp add: scheduleElevatorImmediately_frame)
    from tail[OF this] reopen show ?thesis
      by (simp add: userSignalAndWait_def Let_def waitImmed_now)
  next
    case again
    let ?s3 = "scheduleElevatorImmediately Elev1 ExecuteLetPeopleOutIn
                 (?s2\<lparr>ele := (ele ?s2)\<lparr>d3 := False, d1 := True\<rparr>\<rparr>)"
    let ?m = "?s2\<lparr>ele := (ele ?s2)\<lparr>d3 := False, d1 := True\<rparr>\<rparr>"
    from d(4)[OF again(3)] have q: "pend1 s = {}" "step (ele s) = stepLetPeopleOutIn" by auto
    have dir: "dirOK (ele s)" using q(1) by (intro d(7)) simp
    have stm: "struct ?m" using f(1) by (simp add: struct_ele_upd)
    have usm: "usersOK ?m" using f(2) by (simp add: usersOK_ele_upd)
    have "elevP ((ele s)\<lparr>d3 := False, d1 := True\<rparr>) {ExecuteLetPeopleOutIn} (pend2 s)"
      by (rule elevP_I) (use d(1-3) q dir in auto)
    then have el: "elevOK ?s3"
      using stm by (simp add: elevOK_def pend_scheduleElevatorImmediately pe)
    have "?good ?s3"
      using struct_scheduleElevatorImmediately[OF stm, of ExecuteLetPeopleOutIn Elev1]
        usersOK_scheduleElevatorImmediately[OF usm, of ExecuteLetPeopleOutIn Elev1]
        el stm f(3) q(2)
      by (simp add: scheduleElevatorImmediately_frame)
    from tail[OF this] again show ?thesis
      by (simp add: userSignalAndWait_def Let_def waitImmed_now)
  next
    case call
    define e1 where "e1 = (if out_u ?u > in_u ?u
         then (ele s)\<lparr>callUp := (callUp (ele s))[nat (in_u ?u) := True]\<rparr>
         else (ele s)\<lparr>callDown := (callDown (ele s))[nat (in_u ?u) := True]\<rparr>)"
    let ?s1 = "?s2\<lparr>ele := e1\<rparr>"
    have e1: "wellSized e1" "floor_e e1 = floor_e (ele s)" "d1 e1 = d1 (ele s)"
      "d2 e1 = d2 (ele s)" "d3 e1 = d3 (ele s)" "state e1 = state (ele s)"
      "step e1 = step (ele s)" "elev1 e1 = elev1 (ele s)" "elev2 e1 = elev2 (ele s)"
      "elev3 e1 = elev3 (ele s)" "queue e1 = queue (ele s)"
      using d(1) by (simp_all add: e1_def wellSized_def)
    have mono: "anyCall e1 j" if "anyCall (ele s) j" for j
      using anyCall_set(1,2)[OF d(1) _ _ that, of "in_u ?u"] v by (simp add: e1_def)
    have st1: "struct ?s1" using f(1) e1 by (simp add: struct_ele_upd)
    have us1: "usersOK ?s1" using f(2) e1 by (simp add: usersOK_ele_upd)
    have "elevP e1 (pend1 s) (pend2 s)"
      by (rule elevP_more_calls[OF f(4)]) (use e1 mono in simp_all)
    then have el1: "elevOK ?s1" by (simp add: elevOK_def pe)
    have ng1: "UserGetIn j \<notin> insts ?s1" for j using f(3)[of j] by simp
    have ns1: "\<not> (step (ele ?s1) = stepPrepareToMove \<and> state (ele ?s1) = stateNeutral)"
      using ns e1 by simp
    have ex: "userSignalAndWait i ?s2 =
        bindE (if \<not> d2 (ele s) \<or> step (ele s) = stepWaitForCall then decision ?s1 else Inr ?s1)
          (\<lambda>s2. Inr (snd (waitImmed \<lparr>nextTime = time s2, nextInst = ?l\<rparr> s2)))"
      using call v d(1) by (auto simp: userSignalAndWait_def Let_def e1_def wellSized_def)
    show ?thesis
    proof (cases "\<not> d2 (ele s) \<or> step (ele s) = stepWaitForCall")
      case True
      from decision_inv[OF st1 us1 el1 ng1 ns1] obtain s3 where
        s3: "decision ?s1 = Inr s3" "struct s3" "usersOK s3" "elevOK s3"
          "\<And>i. UserGetIn i \<notin> insts s3" "users s3 = users ?s1" "userID s3 = userID ?s1"
          "step (ele s3) = step (ele ?s1)"
          "state (ele s3) = stateNeutral \<Longrightarrow> state (ele ?s1) = stateNeutral"
        by auto
      have "?good s3" using s3(2-9) ns1 by auto
      from tail[OF this] True s3(1) show ?thesis unfolding ex by (simp add: waitImmed_now)
    next
      case False
      have "?good ?s1" using st1 us1 el1 ng1 ns1 by simp
      from tail[OF this] False show ?thesis unfolding ex by (simp add: waitImmed_now)
    qed
  qed
qed

lemma validUser_upd [simp]:
  "validUser (u\<lparr>listNode := x\<rparr>) = validUser u" "validUser (u\<lparr>giveUp := x\<rparr>) = validUser u"
  by (simp_all add: validUser_def)

lemma step_U3:
  assumes "inv s" "wait s = n # rest" "nextInst (snd n) = UserEnterQueue i"
    and tm: "nextTime (snd n) < maxTime"
  shows "\<exists>s'. userEnterQueue i (s\<lparr>wait := rest, time := nextTime (snd n)\<rparr>) = Inr s' \<and> inv s'"
proof -
  let ?s2 = "s\<lparr>wait := rest, time := nextTime (snd n)\<rparr>"
  let ?a = "nextNode s"
  let ?u = "users s i"
  let ?k = "nat (in_u ?u)"
  let ?us = "(users s)(i := ?u\<lparr>listNode := Some ?a\<rparr>)"
  let ?q = "(queue (ele s))[?k := insertLeft (?a, i) (queue (ele s) ! ?k)]"
  let ?m = "?s2\<lparr>nextNode := Suc ?a, users := ?us\<rparr>\<lparr>ele := (ele s)\<lparr>queue := ?q\<rparr>\<rparr>"
  let ?w = "\<lparr>nextTime = nextTime (snd n) + giveUpTime ?u, nextInst = UserGiveUp i\<rparr>"
  let ?s3 = "waitSorted ?w ?m"
  let ?us' = "(users s)(i := ?u\<lparr>listNode := Some ?a, giveUp := Some (Suc ?a)\<rparr>)"
  let ?s' = "?s3\<lparr>users := ?us'\<rparr>"
  note f = pop_facts[OF assms(1,2) tm]
  note p = pend_pop[OF f(5) assms(2)]
  note d = elevP_D[OF f(4)]
  note u = usersOK_D[OF f(2)]
  from assms(1) have "usersOK s" by (simp add: inv_def)
  from usersOK_pop(2)[OF this assms(2), of i] assms(3)
  have vu: "i \<le> userID s" "validUser ?u" by simp_all
  note v = vu(2)[unfolded validUser_def]
  have pe: "pend1 (s\<lparr>wait := rest\<rparr>) = pend1 s" "pend2 (s\<lparr>wait := rest\<rparr>) = pend2 s"
    using p(1,2) assms(3) by simp_all
  have ns: "\<not> (step (ele s) = stepPrepareToMove \<and> state (ele s) = stateNeutral)"
    using f(6) assms(3) by simp
  have t0: "0 \<le> nextTime (snd n)" using structD(1)[OF f(1)] by simp
  have w0: "0 \<le> nextTime ?w" "time ?m \<le> nextTime ?w" using t0 v by simp_all
  have kq: "?k < length (queue (ele s))" using d(1) v by (auto simp: wellSized_def)
  note fr = waitSorted_frame[OF w0(1), where s = ?m]
  have "struct (?s2\<lparr>nextNode := Suc (nextNode ?s2)\<rparr>)" by (rule struct_alloc[OF f(1)])
  then have stm: "struct ?m" by (simp add: struct_ele_upd)
  have st3: "struct ?s3" by (rule struct_waitSorted[OF stm w0(2)]) simp
  then have st: "struct ?s'" by simp
  have us: "usersOK ?s'"
  proof (rule usersOK_I)
    fix m j assume a: "m \<in> set (wait ?s')" "userOf (nextInst (snd m)) = Some j"
    then have "m \<in> set rest" by (auto simp: fr)
    from u(1)[of m j] this a(2) vu(2) show "j \<le> userID ?s' \<and> validUser (users ?s' j)"
      by (auto simp: fr)
  next
    fix k q assume a: "k < length (queue (ele ?s'))" "q \<in> set (queue (ele ?s') ! k)"
    then have k: "k < length (queue (ele s))" by (simp add: fr)
    from a(2) have "q \<in> set (?q ! k)" by (simp add: fr)
    then have "q = (?a, i) \<and> k = ?k \<or> q \<in> set (queue (ele s) ! k)"
      using k kq by (cases "k = ?k") (auto simp: insertLeft_def)
    then show "snd q \<le> userID ?s' \<and> validUser (users ?s' (snd q)) \<and>
        in_u (users ?s' (snd q)) = int k"
    proof
      assume "q = (?a, i) \<and> k = ?k"
      then show ?thesis using vu v by (simp add: fr)
    next
      assume "q \<in> set (queue (ele s) ! k)"
      from u(2)[of k q] k this vu(2) show ?thesis by (auto simp: fr)
    qed
  next
    fix j b assume a: "listNode (users ?s' j) = Some b \<or> giveUp (users ?s' j) = Some b"
    have h: "\<forall>sl. getSlot sl s \<noteq> Some c" if "c = ?a \<or> c = Suc ?a" for c
      using structD(5)[OF f(5)] that by fastforce
    show "b < nextNode ?s' \<and> (\<forall>sl. getSlot sl ?s' \<noteq> Some b)"
    proof (cases "j = i")
      case True
      with a have "b = ?a \<or> b = Suc ?a" by auto
      with h[of b] show ?thesis by (auto simp: fr getSlot_def split: slot.splits)
    next
      case False
      with a have "listNode (users s j) = Some b \<or> giveUp (users s j) = Some b" by simp
      from u(3)[of j b] this show ?thesis
        by (auto simp: fr getSlot_def split: slot.splits)
    qed
  qed
  have "elevP ((ele s)\<lparr>queue := ?q\<rparr>) (pend1 s) (pend2 s)"
    using f(4) by (subst elevP_fields[of _ "ele s"]) simp_all
  then have el: "elevOK ?s'"
    using w0(1) by (simp add: elevOK_def pend_waitSorted fr pe)
  have hd: "headOK ?s'"
    by (rule headOK_I) (use f(3) ns w0(1) in \<open>auto simp: insts_waitSorted fr\<close>)
  have wr: "wrap64 (nextTime (snd n) + giveUpTime ?u) = nextTime (snd n) + giveUpTime ?u"
    using t0 tm v by (simp add: maxGiveUpTime_def maxTime_def)
  have "userEnterQueue i ?s2 = Inr ?s'"
    using kq v w0(1) by (simp add: userEnterQueue_def Let_def waitSortIn_waitSorted fr wr)
  with st us el hd show ?thesis by (simp add: inv_def)
qed

lemma elevP_closing:
  assumes "elevP e P b" "step e \<in> {stepOpenDoors, stepLetPeopleOutIn, stepCloseDoors}"
    "P \<subseteq> {ExecuteOpenDoors, ExecuteLetPeopleOutIn}"
  shows "elevP e P True"
  by (rule elevP_I) (use elevP_D[OF assms(1)] assms(2,3) in simp_all)

lemma step_U5:
  assumes "inv s" "wait s = n # rest" "nextInst (snd n) = UserGetIn i"
    and tm: "nextTime (snd n) < maxTime"
  shows "\<exists>s'. userGetIn i (s\<lparr>wait := rest, time := nextTime (snd n)\<rparr>) = Inr s' \<and> inv s'"
proof -
  let ?s2 = "s\<lparr>wait := rest, time := nextTime (snd n)\<rparr>"
  let ?u = "users s i"
  let ?x = "listNode ?u" and ?g = "giveUp ?u"
  let ?t1 = "delete ?x ?s2"
  let ?t2 = "delete ?g ?t1"
  let ?C = "(callCar (ele s))[nat (out_u ?u) := True]"
  let ?dir = "if out_u ?u > in_u ?u then stateGoingUp else stateGoingDown"
  define t3 where "t3 = (case ?x of None \<Rightarrow> ?t2
      | Some a \<Rightarrow> ?t2\<lparr>ele := (ele ?t2)\<lparr>stack := insertLeft (a, i) (stack (ele ?t2))\<rparr>\<rparr>)"
  let ?e4 = "(ele t3)\<lparr>callCar := ?C\<rparr>"
  note f = pop_facts[OF assms(1,2) tm]
  note p = pend_pop[OF f(5) assms(2)]
  note d = elevP_D[OF f(4)]
  from assms(1) have i: "usersOK s" "headOK s" by (simp_all add: inv_def)
  from usersOK_pop(2)[OF i(1) assms(2), of i] assms(3)
  have vu: "i \<le> userID s" "validUser ?u" by simp_all
  note v = vu(2)[unfolded validUser_def]
  from i(2) assms(2,3) have h: "in_u ?u = floor_e (ele s)" "step (ele s) = stepLetPeopleOutIn"
    "pend1 s \<subseteq> {ExecuteLetPeopleOutIn}"
    unfolding headOK_def by blast+
  have pe: "pend1 (s\<lparr>wait := rest\<rparr>) = pend1 s" "pend2 (s\<lparr>wait := rest\<rparr>) = pend2 s"
    using p(1,2) assms(3) by simp_all
  have el2: "elevOK ?s2" using f(4) by (simp add: elevOK_def pe)
  have ns: "\<not> (step (ele ?s2) = stepPrepareToMove \<and> state (ele ?s2) = stateNeutral)"
    using h(2) by simp
  note a = inv_delete_user(1-6)[OF f(1,2) el2 f(3) ns, of ?x i, simplified]
  have ns1: "\<not> (step (ele ?t1) = stepPrepareToMove \<and> state (ele ?t1) = stateNeutral)"
    using h(2) by simp
  note b = inv_delete_user(1-6)[OF a(1,2,3) a(4) ns1, of ?g i, simplified]
  have pd2: "pend1 ?t2 = pend1 s" "pend2 ?t2 = pend2 s"
    using a(5,6) b(5,6) pe by simp_all
  have fl: "callUp (ele t3) = callUp (ele s)" "callDown (ele t3) = callDown (ele s)"
    "callCar (ele t3) = callCar (ele s)" "floor_e (ele t3) = floor_e (ele s)"
    "d1 (ele t3) = d1 (ele s)" "d3 (ele t3) = d3 (ele s)" "state (ele t3) = state (ele s)"
    "step (ele t3) = step (ele s)" "length (queue (ele t3)) = length (queue (ele s))"
    unfolding t3_def by (cases ?x; simp)+
  have st3: "struct t3" using b(1) unfolding t3_def by (cases ?x) (simp_all add: struct_ele_upd)
  have us3: "usersOK t3" using b(2) unfolding t3_def by (cases ?x) (simp_all add: usersOK_ele_upd)
  have ng3: "UserGetIn j \<notin> insts t3" for j using b(4)[of j] unfolding t3_def by (cases ?x) simp_all
  have pd3: "pend1 t3 = pend1 s" "pend2 t3 = pend2 s"
    using pd2 unfolding t3_def by (cases ?x; simp)+
  have hn: "elev1 (ele t3) = elev1 (ele s)" "elev2 (ele t3) = elev2 (ele s)"
    "elev3 (ele t3) = elev3 (ele s)"
    unfolding t3_def by (cases ?x; simp)+
  have "elevP (ele t3) (pend1 s) (pend2 s)"
    using f(4) by (subst elevP_fields[of _ "ele s"]) (simp_all add: fl)
  then have el4: "elevP ?e4 (pend1 s) (pend2 s)"
  proof (rule elevP_more_calls)
    show "anyCall ?e4 j" if "anyCall (ele t3) j" for j
      using that d(1) v
      by (auto simp: anyCall_def wellSized_def nth_list_update fl split: if_splits)
    show "wellSized ?e4" using d(1) by (simp add: wellSized_def fl)
  qed simp_all
  have st4: "struct (t3\<lparr>ele := (ele t3)\<lparr>callCar := c, state := x\<rparr>\<rparr>)" for c x
    using st3 by (simp add: struct_ele_upd)
  have us4: "usersOK (t3\<lparr>ele := (ele t3)\<lparr>callCar := c, state := x\<rparr>\<rparr>)" for c x
    using us3 by (simp add: usersOK_ele_upd)
  have eq: "userGetIn i ?s2 =
      (if state (ele s) = stateNeutral
       then scheduleElevator Elev2 25 ExecuteCloseDoors (t3\<lparr>ele := ?e4\<lparr>state := ?dir\<rparr>\<rparr>)
       else Inr (t3\<lparr>ele := ?e4\<rparr>))"
  proof (cases ?x)
    case None
    then have "t3 = ?t2" by (simp add: t3_def)
    then show ?thesis
      using None v d(1) by (simp add: userGetIn_def Let_def wellSized_def)
  next
    case (Some a)
    then have "t3 = ?t2\<lparr>ele := (ele ?t2)\<lparr>stack := insertLeft (a, i) (stack (ele ?t2))\<rparr>\<rparr>"
      by (simp add: t3_def)
    then show ?thesis
      using Some v d(1) by (simp add: userGetIn_def Let_def wellSized_def)
  qed
  show ?thesis
  proof (cases "state (ele s) = stateNeutral")
    case False
    let ?s' = "t3\<lparr>ele := ?e4\<rparr>"
    have st: "struct ?s'" using st3 by (simp add: struct_ele_upd)
    have us: "usersOK ?s'" using us3 by (simp add: usersOK_ele_upd)
    have el: "elevOK ?s'" using el4 by (simp add: elevOK_def pd3)
    have hd: "headOK ?s'" by (rule headOK_I) (use ng3 h(2) fl in simp_all)
    from eq False st us el hd show ?thesis by (simp add: inv_def)
  next
    case True
    let ?e5 = "?e4\<lparr>state := ?dir\<rparr>"
    let ?m = "t3\<lparr>ele := ?e5\<rparr>"
    let ?s' = "scheduled Elev2 25 ExecuteCloseDoors ?m"
    have "nat (out_u ?u) < length (callCar (ele s))" using d(1) v by (auto simp: wellSized_def)
    then have oc: "anyCall ?e4 (out_u ?u)" by (simp add: anyCall_def)
    have dd: "?dir = (if floor_e ?e4 > out_u ?u then stateGoingDown else stateGoingUp)"
      using h(1) v by (auto simp: fl)
    have "elevP (?e4\<lparr>state := (if floor_e ?e4 > out_u ?u then stateGoingDown else stateGoingUp)\<rparr>)
        (pend1 s) (pend2 s)"
      by (rule elevP_target[OF el4]) (use v h(1) oc in \<open>simp_all add: fl\<close>)
    then have "elevP ?e5 (pend1 s) (pend2 s)" unfolding dd[symmetric] .
    then have el5: "elevP ?e5 (pend1 s) True"
      by (rule elevP_closing) (use h(2,3) fl in auto)
    have stm: "struct ?m" using st3 by (simp add: struct_ele_upd)
    have usm: "usersOK ?m" using us3 by (simp add: usersOK_ele_upd)
    have st: "struct ?s'" by (rule struct_scheduled[OF stm]) simp_all
    have us: "usersOK ?s'" by (rule usersOK_scheduled[OF usm stm]) simp_all
    have el: "elevOK ?s'"
      unfolding elevOK_def using stm el5 by (simp add: pend_scheduled pd3)
    have hd: "headOK ?s'"
      by (rule headOK_I) (use ng3 stm h(2) fl in \<open>simp_all add: scheduled_fr\<close>)
    have "userGetIn i ?s2 = Inr ?s'" using eq True stm by (simp add: scheduleElevator_ok)
    with st us el hd show ?thesis by (simp add: inv_def)
  qed
qed

lemma inv_init:
  assumes "valid_draws d" "userEnterPrepareForSuccessor d newSimulator = Inr s"
  shows "inv s"
proof -
  have st: "struct newSimulator"
    by (simp add: struct_def newSimulator_def allocated_def getSlot_def newElevator_def times_def
        maxTime_def split: slot.splits)
  have us: "usersOK newSimulator"
    by (simp add: usersOK_def newSimulator_def newElevator_def newUser_def getSlot_def floors_def
        split: slot.splits)
  have "elevP newElevator {} False"
    by (rule elevP_I)
       (simp_all add: newElevator_def wellSized_def floors_def floorHome_def dirOK_def)
  then have el: "elevOK newSimulator"
    by (simp add: elevOK_def pend1_def pend2_def insts_def newSimulator_def)
  have ng: "UserGetIn i \<notin> insts newSimulator" for i by (simp add: insts_def newSimulator_def)
  have ns: "\<not> (step (ele newSimulator) = stepPrepareToMove \<and>
      state (ele newSimulator) = stateNeutral)"
    by (simp add: newSimulator_def newElevator_def)
  from userEnterPrepareForSuccessor_inv[OF st us el ng ns assms(1)] assms(2) show ?thesis by auto
qed

lemma execute_inv:
  assumes "inv s" "wait s = n # rest" "valid_draws d"
    and tm: "nextTime (snd n) < maxTime"
  shows "\<exists>s'. execute (nextInst (snd n)) d (s\<lparr>wait := rest, time := nextTime (snd n)\<rparr>) = Inr s' \<and> inv s'"
proof (cases "nextInst (snd n)")
  case UserEnterPrepareForSuccessor
  from step_U1[OF assms(1,2) this assms(3) tm] show ?thesis by (simp add: UserEnterPrepareForSuccessor)
next
  case (UserSignalAndWait i)
  from step_U2[OF assms(1,2) this tm] show ?thesis by (simp add: UserSignalAndWait)
next
  case (UserEnterQueue i)
  from step_U3[OF assms(1,2) this tm] show ?thesis by (simp add: UserEnterQueue)
next
  case (UserGiveUp i)
  from step_U4[OF assms(1,2) this tm] show ?thesis by (simp add: UserGiveUp)
next
  case (UserGetIn i)
  from step_U5[OF assms(1,2) this tm] show ?thesis by (simp add: UserGetIn)
next
  case (UserGetOut i)
  from step_U6[OF assms(1,2) this tm] show ?thesis by (simp add: UserGetOut)
next
  case ExecuteWaitForCall
  from step_E1[OF assms(1,2) this tm] show ?thesis by (simp add: ExecuteWaitForCall)
next
  case ExecuteChangeOfState
  from step_E2[OF assms(1,2) this tm] show ?thesis by (simp add: ExecuteChangeOfState)
next
  case ExecuteOpenDoors
  from step_E3[OF assms(1,2) this tm] show ?thesis by (simp add: ExecuteOpenDoors)
next
  case ExecuteLetPeopleOutIn
  from step_E4[OF assms(1,2) this tm] show ?thesis by (simp add: ExecuteLetPeopleOutIn)
next
  case ExecuteCloseDoors
  from step_E5[OF assms(1,2) this tm] show ?thesis by (simp add: ExecuteCloseDoors)
next
  case ExecutePrepareToMove
  from step_E6[OF assms(1,2) this tm] show ?thesis by (simp add: ExecutePrepareToMove)
next
  case ExecuteGoUpAFloor
  from step_E7[OF assms(1,2) this tm] show ?thesis by (simp add: ExecuteGoUpAFloor)
next
  case ExecuteGoUpAFloor2
  from step_E7b[OF assms(1,2) this tm] show ?thesis by (simp add: ExecuteGoUpAFloor2)
next
  case ExecuteGoDownAFloor
  from step_E8[OF assms(1,2) this tm] show ?thesis by (simp add: ExecuteGoDownAFloor)
next
  case ExecuteGoDownAFloor2
  from step_E8b[OF assms(1,2) this tm] show ?thesis by (simp add: ExecuteGoDownAFloor2)
next
  case ExecuteSetInactionIndicator
  from step_E9[OF assms(1,2) this tm] show ?thesis by (simp add: ExecuteSetInactionIndicator)
qed

lemma mainStep_inv:
  assumes "inv s" "valid_draws d" "mainStep d s = Running s'"
  shows "inv s'"
proof (cases "wait s")
  case Nil
  with assms(3) show ?thesis by (simp add: mainStep_def)
next
  case (Cons n rest)
  show ?thesis
  proof (cases "nextTime (snd n) < maxTime")
    case True
    from execute_inv[OF assms(1) Cons assms(2) True] obtain t where
      "execute (nextInst (snd n)) d (s\<lparr>wait := rest, time := nextTime (snd n)\<rparr>) = Inr t" "inv t"
      by blast
    with assms(3) Cons show ?thesis by (simp add: mainStep_def Let_def split: if_splits)
  next
    case False
    with assms(3) Cons show ?thesis by (simp add: mainStep_def Let_def)
  qed
qed


lemma reachable_inv: "reachable s \<Longrightarrow> inv s"
proof (induction rule: reachable.induct)
  case (reachable_init d s)
  then show ?case by (rule inv_init)
next
  case (reachable_step s d s')
  then show ?case by (auto intro: mainStep_inv)
qed

subsection \<open>Scheduling, as a relation between the states\<close>

lemma sortIn_place:
  assumes "sorted (times xs)" "0 \<le> nextTime w"
  shows "\<exists>ys. sortIn w a xs = Some ys \<and> sortedIn w a xs ys \<and> sorted (times ys)"
proof -
  from sortIn_total[OF assms(2), of a xs] obtain ys where ys: "sortIn w a xs = Some ys" by blast
  from sortIn_SomeD[OF ys] obtain k where k: "k \<le> length xs"
    "ys = take k xs @ (a, w) # drop k xs"
    "\<forall>n \<in> set (drop k xs). nextTime w < nextTime (snd n)"
    "0 < k \<longrightarrow> nextTime (snd (xs ! (k - 1))) \<le> nextTime w"
    by blast
  have le: "nextTime (snd m) \<le> nextTime w" if "m \<in> set (take k xs)" for m
  proof -
    from that obtain j where j: "j < k" "j < length xs" "m = xs ! j"
      by (auto simp: in_set_conv_nth)
    then have "0 < k" "k - 1 < length xs" "j \<le> k - 1" using k(1) by simp_all
    with assms(1) have "times xs ! j \<le> times xs ! (k - 1)"
      by (simp add: sorted_iff_nth_mono times_def)
    with j k(1,4) \<open>0 < k\<close> show ?thesis by (simp add: times_def)
  qed
  have "sortedIn w a xs ys" unfolding sortedIn_def using k(1,2,3) le by blast
  with ys sorted_sortIn[OF ys assms(1)] show ?thesis by blast
qed

text \<open>The place is the one behind the longest front part that is due no later.\<close>

lemma sortedIn_takeWhile:
  assumes "sortedIn w a xs ys"
  shows "ys = takeWhile (\<lambda>m. nextTime (snd m) \<le> nextTime w) xs @ (a, w) #
              dropWhile (\<lambda>m. nextTime (snd m) \<le> nextTime w) xs"
proof -
  let ?P = "\<lambda>m. nextTime (snd m) \<le> nextTime w"
  from assms obtain k where k: "ys = take k xs @ (a, w) # drop k xs"
    "\<forall>m \<in> set (take k xs). ?P m" "\<forall>m \<in> set (drop k xs). \<not> ?P m"
    unfolding sortedIn_def by fastforce
  define as bs where "as = take k xs" and "bs = drop k xs"
  have x: "xs = as @ bs" by (simp add: as_def bs_def)
  have d: "takeWhile ?P bs = []" "dropWhile ?P bs = bs"
    using k(3) unfolding bs_def[symmetric] by (cases bs; simp)+
  have "takeWhile ?P (as @ bs) = as" "dropWhile ?P (as @ bs) = bs"
    using k(2) d unfolding as_def[symmetric] by simp_all
  moreover have "ys = as @ (a, w) # bs" using k(1) by (simp add: as_def bs_def)
  ultimately show ?thesis unfolding x by simp
qed

lemma scheduleElevator_scheduledAt:
  assumes "0 \<le> time s" "time s < maxTime" "0 \<le> dl \<and> dl < 2 ^ 62" "sorted (times (wait s))"
  shows "\<exists>s'. scheduleElevator sl dl l s = Inr s' \<and> scheduledAt sl dl l s s' \<and>
           sorted (times (wait s'))"
proof -
  from assms(1-3) have t: "0 \<le> time s + dl \<and> time s + dl < 2 ^ 63" by (simp add: maxTime_def)
  let ?w = "\<lparr>nextTime = time s + dl, nextInst = l\<rparr>"
  let ?xs = "unlinkO (getSlot sl s) (wait s)"
  have "sorted (times ?xs)" by (rule times_unlinkO_sorted[OF assms(4)])
  from sortIn_place[OF this, of ?w "nextNode s"] t obtain ys where
    ys: "sortIn ?w (nextNode s) ?xs = Some ys" "sortedIn ?w (nextNode s) ?xs ys" "sorted (times ys)"
    by auto
  from scheduled_eq[OF t, of l sl] ys(1) have w: "wait (scheduled sl dl l s) = ys" by auto
  note fr = scheduled_frame[OF t, where sl = sl and l = l]
  have "handed sl s (scheduled sl dl l s)" by (simp add: handed_def fr)
  with ys(2,3) w scheduleElevator_scheduled[OF t, of sl l] show ?thesis
    by (auto simp: scheduledAt_def)
qed

lemma scheduleElevatorImmediately_scheduledNow:
  "scheduledNow sl l s (scheduleElevatorImmediately sl l s)"
  by (simp add: scheduledNow_def handed_def scheduleElevatorImmediately_frame)

subsection \<open>Reading the relations off\<close>

lemma scheduledAt_wait:
  assumes "scheduledAt sl dl l s s'"
  shows "wait s' =
     takeWhile (\<lambda>m. nextTime (snd m) \<le> time s + dl) (unlinkO (getSlot sl s) (wait s)) @
     (nextNode s, \<lparr>nextTime = time s + dl, nextInst = l\<rparr>) #
     dropWhile (\<lambda>m. nextTime (snd m) \<le> time s + dl) (unlinkO (getSlot sl s) (wait s))"
  using sortedIn_takeWhile[of "\<lparr>nextTime = time s + dl, nextInst = l\<rparr>" "nextNode s"
      "unlinkO (getSlot sl s) (wait s)" "wait s'"] assms
  by (simp add: scheduledAt_def)

lemma scheduledAt_handed: "scheduledAt sl dl l s s' \<Longrightarrow> handed sl s s'"
  by (simp add: scheduledAt_def)

lemma scheduledNow_handed: "scheduledNow sl l s s' \<Longrightarrow> handed sl s s'"
  by (simp add: scheduledNow_def)

lemma scheduledNow_wait:
  "scheduledNow sl l s s' \<Longrightarrow>
     wait s' = (nextNode s, \<lparr>nextTime = time s, nextInst = l\<rparr>) # unlinkO (getSlot sl s) (wait s)"
  by (simp add: scheduledNow_def)

section \<open>The subroutines and steps, with what they schedule\<close>

text \<open>
  Claim C4. With the call slices at their length, the clock between 0 and \<^verbatim>\<open>maxTime\<close> and
  the WAIT list sorted, \<^verbatim>\<open>decision\<close> returns, and the state \<open>s'\<close> it returns is as follows.
  It is the state it was called in when the direction is not Neutral. Otherwise, when the step
  is E1 and a call register of the home floor is asserted, E3 has been scheduled through elev1
  for now + 20 (the entry elev1 referred to has left the WAIT list, the new entry is sorted in,
  elev1 refers to it) and the direction is still Neutral. Otherwise, with \<open>j\<close> the smallest
  floor other than the current one with an asserted register, the direction has been set to
  GoingDown when floor > j and to GoingUp when floor < j, and after that, when the step is E1
  and \<open>j\<close> is not the home floor, E6 has been scheduled through elev1 for now + 20; when there
  is no such floor, the same is done with the home floor for \<open>j\<close> if the step is E6 (nothing is
  scheduled then), and nothing has changed if the step is not E6.
\<close>

theorem decision_cases:
  assumes "wellSized (ele s)" and "0 \<le> time s" and "time s < maxTime"
    and "sorted (times (wait s))"
  shows
    "\<exists>s'. decision s = Inr s' \<and>
     (state (ele s) \<noteq> stateNeutral \<longrightarrow> s' = s) \<and>
     (state (ele s) = stateNeutral \<and> step (ele s) = stepWaitForCall \<and> anyCall (ele s) floorHome \<longrightarrow>
        scheduledAt Elev1 20 ExecuteOpenDoors s s') \<and>
     (state (ele s) = stateNeutral \<and> \<not> (step (ele s) = stepWaitForCall \<and> anyCall (ele s) floorHome) \<longrightarrow>
        (\<forall>j. 0 \<le> j \<and> j < floors \<and> j \<noteq> floor_e (ele s) \<and> anyCall (ele s) j \<and>
             (\<forall>i. 0 \<le> i \<and> i < j \<longrightarrow> \<not> (i \<noteq> floor_e (ele s) \<and> anyCall (ele s) i)) \<longrightarrow>
           (if step (ele s) = stepWaitForCall \<and> j \<noteq> floorHome
            then scheduledAt Elev1 20 ExecutePrepareToMove
                   (s\<lparr>ele := (ele s)\<lparr>state :=
                          (if floor_e (ele s) > j then stateGoingDown
                           else if floor_e (ele s) < j then stateGoingUp else stateNeutral)\<rparr>\<rparr>) s'
            else s' = s\<lparr>ele := (ele s)\<lparr>state :=
                          (if floor_e (ele s) > j then stateGoingDown
                           else if floor_e (ele s) < j then stateGoingUp else stateNeutral)\<rparr>\<rparr>)) \<and>
        ((\<forall>j. 0 \<le> j \<and> j < floors \<longrightarrow> \<not> (j \<noteq> floor_e (ele s) \<and> anyCall (ele s) j)) \<longrightarrow>
           (step (ele s) = stepPrepareToMove \<longrightarrow>
              s' = s\<lparr>ele := (ele s)\<lparr>state :=
                          (if floor_e (ele s) > floorHome then stateGoingDown
                           else if floor_e (ele s) < floorHome then stateGoingUp
                           else stateNeutral)\<rparr>\<rparr>) \<and>
           (step (ele s) \<noteq> stepPrepareToMove \<longrightarrow> s' = s)))"
proof -
  let ?e = "ele s"
  let ?P = "\<lambda>j. j \<noteq> floor_e ?e \<and> anyCall ?e j"
  let ?dir = "\<lambda>j. if floor_e ?e > j then stateGoingDown
                   else if floor_e ?e < j then stateGoingUp else stateNeutral"
  have home: "callsUCD ?e floorHome = Inr (anyCall ?e floorHome)"
    using assms(1) by (simp add: callsUCD_in floorHome_def floors_def)
  note home2 = home[unfolded floorHome_def]
  have fc: "findCall ?e [0 .. floors - 1] = Inr (find ?P [0 .. floors - 1])"
    using assms(1) by (simp add: findCall_in)
  have same: "s\<lparr>ele := ?e\<lparr>state := stateNeutral\<rparr>\<rparr> = s" if "state ?e = stateNeutral"
    using that by simp
  have sch: "\<exists>s'. scheduleElevator Elev1 20 l m = Inr s' \<and> scheduledAt Elev1 20 l m s'"
    if "time m = time s" "wait m = wait s" for l m
    using scheduleElevator_scheduledAt[of m 20 Elev1 l] assms(2-4) that by auto
  let ?small = "\<lambda>j. 0 \<le> j \<and> j < floors \<and> j \<noteq> floor_e ?e \<and> anyCall ?e j \<and>
             (\<forall>i. 0 \<le> i \<and> i < j \<longrightarrow> \<not> (i \<noteq> floor_e ?e \<and> anyCall ?e i))"
  let ?none = "\<forall>j. 0 \<le> j \<and> j < floors \<longrightarrow> \<not> (j \<noteq> floor_e ?e \<and> anyCall ?e j)"
  let ?A = "\<lambda>s'. state ?e \<noteq> stateNeutral \<longrightarrow> s' = s"
  let ?B = "\<lambda>s'. state ?e = stateNeutral \<and> step ?e = stepWaitForCall \<and> anyCall ?e floorHome \<longrightarrow>
        scheduledAt Elev1 20 ExecuteOpenDoors s s'"
  let ?C1 = "\<lambda>s'. \<forall>j. ?small j \<longrightarrow>
           (if step ?e = stepWaitForCall \<and> j \<noteq> floorHome
            then scheduledAt Elev1 20 ExecutePrepareToMove (s\<lparr>ele := ?e\<lparr>state := ?dir j\<rparr>\<rparr>) s'
            else s' = s\<lparr>ele := ?e\<lparr>state := ?dir j\<rparr>\<rparr>)"
  let ?C2 = "\<lambda>s'. ?none \<longrightarrow>
           (step ?e = stepPrepareToMove \<longrightarrow> s' = s\<lparr>ele := ?e\<lparr>state := ?dir floorHome\<rparr>\<rparr>) \<and>
           (step ?e \<noteq> stepPrepareToMove \<longrightarrow> s' = s)"
  have fin: ?thesis
    if "decision s = Inr s'" "?A s'" "?B s'"
      "state ?e = stateNeutral \<and> \<not> (step ?e = stepWaitForCall \<and> anyCall ?e floorHome) \<longrightarrow>
         ?C1 s' \<and> ?C2 s'" for s'
    by (rule exI[of _ s']) (use that in blast)
  show ?thesis
  proof (cases "state ?e = stateNeutral")
    case False
    show ?thesis by (rule fin[of s]) (use False in \<open>simp_all add: decision_def\<close>)
  next
    case n: True
    show ?thesis
    proof (cases "step ?e = stepWaitForCall \<and> anyCall ?e floorHome")
      case True
      from sch[of s ExecuteOpenDoors] obtain s' where s':
        "scheduleElevator Elev1 20 ExecuteOpenDoors s = Inr s'"
        "scheduledAt Elev1 20 ExecuteOpenDoors s s'"
        by auto
      show ?thesis
      proof (rule fin[of s'])
        show "decision s = Inr s'" using n True s'(1) by (simp add: decision_def home)
      qed (use n True s'(2) in blast)+
    next
      case nh: False
      show ?thesis
      proof (cases "find ?P [0 .. floors - 1]")
        case None
        then have none: ?none by (simp add: find_upto_None)
        then have c1: "?C1 x" for x by blast
        show ?thesis
        proof (cases "step ?e = stepPrepareToMove")
          case True
          have d: "decision s = Inr (s\<lparr>ele := ?e\<lparr>state := ?dir floorHome\<rparr>\<rparr>)"
            using n nh None True
            by (auto simp: decision_def home2 fc decisionD4_def Let_def floorHome_def same)
          show ?thesis
          proof (rule fin[OF d])
            show "state ?e = stateNeutral \<and> \<not> (step ?e = stepWaitForCall \<and> anyCall ?e floorHome) \<longrightarrow>
              ?C1 (s\<lparr>ele := ?e\<lparr>state := ?dir floorHome\<rparr>\<rparr>) \<and>
              ?C2 (s\<lparr>ele := ?e\<lparr>state := ?dir floorHome\<rparr>\<rparr>)"
              using c1 True by blast
          qed (use n nh in blast)+
        next
          case False
          have d: "decision s = Inr s"
            using n nh None False by (auto simp: decision_def home fc)
          show ?thesis
          proof (rule fin[OF d])
            show "state ?e = stateNeutral \<and> \<not> (step ?e = stepWaitForCall \<and> anyCall ?e floorHome) \<longrightarrow>
              ?C1 s \<and> ?C2 s"
              using c1 False by blast
          qed (use n nh in blast)+
        qed
      next
        case (Some j)
        then have j: "0 \<le> j" "j < floors" "?P j" "\<forall>i. 0 \<le> i \<and> i < j \<longrightarrow> \<not> ?P i"
          by (simp_all add: find_upto_Some)
        have uniq: "j' = j" if "?small j'" for j'
        proof (rule ccontr)
          assume "j' \<noteq> j"
          then consider "j' < j" | "j < j'" by linarith
          then show False using that j by cases blast+
        qed
        have some: "\<not> ?none" using j by blast
        let ?s1 = "s\<lparr>ele := ?e\<lparr>state := ?dir j\<rparr>\<rparr>"
        have d: "decision s =
            (if step ?e = stepWaitForCall \<and> j \<noteq> floorHome
             then scheduleElevator Elev1 20 ExecutePrepareToMove ?s1 else Inr ?s1)"
          using n nh Some j(3)
          by (auto simp: decision_def home2 fc decisionD4_def Let_def floorHome_def same)
        show ?thesis
        proof (cases "step ?e = stepWaitForCall \<and> j \<noteq> floorHome")
          case True
          from sch[of ?s1 ExecutePrepareToMove] obtain s' where s':
            "scheduleElevator Elev1 20 ExecutePrepareToMove ?s1 = Inr s'"
            "scheduledAt Elev1 20 ExecutePrepareToMove ?s1 s'"
            by auto
          have c1: "?C1 s'"
          proof (intro allI impI)
            fix j' assume "?small j'"
            from uniq[OF this] have e: "j' = j" .
            from True s'(2)
            show "if step ?e = stepWaitForCall \<and> j' \<noteq> floorHome
              then scheduledAt Elev1 20 ExecutePrepareToMove (s\<lparr>ele := ?e\<lparr>state := ?dir j'\<rparr>\<rparr>) s'
              else s' = s\<lparr>ele := ?e\<lparr>state := ?dir j'\<rparr>\<rparr>"
              unfolding e by (simp split del: if_split)
          qed
          show ?thesis
          proof (rule fin[of s'])
            show "decision s = Inr s'" using d True s'(1) by simp
            show "state ?e = stateNeutral \<and> \<not> (step ?e = stepWaitForCall \<and> anyCall ?e floorHome) \<longrightarrow>
              ?C1 s' \<and> ?C2 s'"
              using c1 some by blast
          qed (use n nh in blast)+
        next
          case False
          have c1: "?C1 ?s1"
          proof (intro allI impI)
            fix j' assume "?small j'"
            from uniq[OF this] have e: "j' = j" .
            show "if step ?e = stepWaitForCall \<and> j' \<noteq> floorHome
              then scheduledAt Elev1 20 ExecutePrepareToMove (s\<lparr>ele := ?e\<lparr>state := ?dir j'\<rparr>\<rparr>) ?s1
              else ?s1 = s\<lparr>ele := ?e\<lparr>state := ?dir j'\<rparr>\<rparr>"
              unfolding e by (simp only: False if_False)
          qed
          show ?thesis
          proof (rule fin[of ?s1])
            show "decision s = Inr ?s1" using d False by simp
            show "state ?e = stateNeutral \<and> \<not> (step ?e = stepWaitForCall \<and> anyCall ?e floorHome) \<longrightarrow>
              ?C1 ?s1 \<and> ?C2 ?s1"
              using c1 some by blast
          qed (use n nh in blast)+
        qed
      qed
    qed
  qed
qed

theorem decision_cases_witness:
  "(\<exists>s'. decision
       (newSimulator\<lparr>time := 100, nextNode := 3,
          wait := [(1, \<lparr>nextTime = 150, nextInst = UserGiveUp 1\<rparr>),
                   (2, \<lparr>nextTime = 400, nextInst = ExecuteSetInactionIndicator\<rparr>)],
          ele := newElevator\<lparr>callUp := [False, False, True, False, False],
                              elev3 := Some 2\<rparr>\<rparr>) = Inr s' \<and>
      wait s' = [(3, \<lparr>nextTime = 120, nextInst = ExecuteOpenDoors\<rparr>),
                 (1, \<lparr>nextTime = 150, nextInst = UserGiveUp 1\<rparr>),
                 (2, \<lparr>nextTime = 400, nextInst = ExecuteSetInactionIndicator\<rparr>)] \<and>
      elev1 (ele s') = Some 3 \<and> state (ele s') = stateNeutral) \<and>
   (\<exists>s'. decision
       (newSimulator\<lparr>time := 100, nextNode := 3,
          wait := [(1, \<lparr>nextTime = 120, nextInst = UserGiveUp 1\<rparr>),
                   (2, \<lparr>nextTime = 400, nextInst = ExecuteSetInactionIndicator\<rparr>)],
          ele := newElevator\<lparr>callDown := [True, False, False, False, False],
                              elev3 := Some 2\<rparr>\<rparr>) = Inr s' \<and>
      wait s' = [(1, \<lparr>nextTime = 120, nextInst = UserGiveUp 1\<rparr>),
                 (3, \<lparr>nextTime = 120, nextInst = ExecutePrepareToMove\<rparr>),
                 (2, \<lparr>nextTime = 400, nextInst = ExecuteSetInactionIndicator\<rparr>)] \<and>
      elev1 (ele s') = Some 3 \<and> state (ele s') = stateGoingDown)"
proof -
  let ?a = "newSimulator\<lparr>time := 100, nextNode := 3,
          wait := [(1, \<lparr>nextTime = 150, nextInst = UserGiveUp 1\<rparr>),
                   (2, \<lparr>nextTime = 400, nextInst = ExecuteSetInactionIndicator\<rparr>)],
          ele := newElevator\<lparr>callUp := [False, False, True, False, False],
                              elev3 := Some 2\<rparr>\<rparr>"
  let ?b = "newSimulator\<lparr>time := 100, nextNode := 3,
          wait := [(1, \<lparr>nextTime = 120, nextInst = UserGiveUp 1\<rparr>),
                   (2, \<lparr>nextTime = 400, nextInst = ExecuteSetInactionIndicator\<rparr>)],
          ele := newElevator\<lparr>callDown := [True, False, False, False, False],
                              elev3 := Some 2\<rparr>\<rparr>"
  let ?b1 = "?b\<lparr>ele := (ele ?b)\<lparr>state := stateGoingDown\<rparr>\<rparr>"
  have ha: "wellSized (ele ?a)" "0 \<le> time ?a" "time ?a < maxTime" "sorted (times (wait ?a))"
    by (simp_all add: wellSized_def newSimulator_def newElevator_def floors_def maxTime_def
        times_def)
  have hb: "wellSized (ele ?b)" "0 \<le> time ?b" "time ?b < maxTime" "sorted (times (wait ?b))"
    by (simp_all add: wellSized_def newSimulator_def newElevator_def floors_def maxTime_def
        times_def)
  have pa: "state (ele ?a) = stateNeutral \<and> step (ele ?a) = stepWaitForCall \<and>
      anyCall (ele ?a) floorHome"
    by (simp add: newSimulator_def newElevator_def anyCall_def floorHome_def eval_nat_numeral)
  have pb: "state (ele ?b) = stateNeutral \<and>
      \<not> (step (ele ?b) = stepWaitForCall \<and> anyCall (ele ?b) floorHome)"
    by (simp add: newSimulator_def newElevator_def anyCall_def floorHome_def floors_def
        eval_nat_numeral)
  have jb: "0 \<le> (0::int) \<and> (0::int) < floors \<and> 0 \<noteq> floor_e (ele ?b) \<and> anyCall (ele ?b) 0 \<and>
      (\<forall>i. 0 \<le> i \<and> i < 0 \<longrightarrow> \<not> (i \<noteq> floor_e (ele ?b) \<and> anyCall (ele ?b) i))"
    by (simp add: newSimulator_def newElevator_def anyCall_def floorHome_def floors_def)
  have cb: "step (ele ?b) = stepWaitForCall \<and> (0::int) \<noteq> floorHome"
    by (simp add: newSimulator_def newElevator_def floorHome_def)
  have db: "?b\<lparr>ele := (ele ?b)\<lparr>state :=
              (if floor_e (ele ?b) > 0 then stateGoingDown
               else if floor_e (ele ?b) < 0 then stateGoingUp else stateNeutral)\<rparr>\<rparr> = ?b1"
    by (simp add: newSimulator_def newElevator_def floorHome_def)
  from decision_cases[OF ha] pa obtain sa where
    sa: "decision ?a = Inr sa" "scheduledAt Elev1 20 ExecuteOpenDoors ?a sa"
    by blast
  from decision_cases[OF hb] pb obtain sb where
    sb: "decision ?b = Inr sb"
      "\<forall>j. 0 \<le> j \<and> j < floors \<and> j \<noteq> floor_e (ele ?b) \<and> anyCall (ele ?b) j \<and>
             (\<forall>i. 0 \<le> i \<and> i < j \<longrightarrow> \<not> (i \<noteq> floor_e (ele ?b) \<and> anyCall (ele ?b) i)) \<longrightarrow>
           (if step (ele ?b) = stepWaitForCall \<and> j \<noteq> floorHome
            then scheduledAt Elev1 20 ExecutePrepareToMove
                   (?b\<lparr>ele := (ele ?b)\<lparr>state :=
                          (if floor_e (ele ?b) > j then stateGoingDown
                           else if floor_e (ele ?b) < j then stateGoingUp else stateNeutral)\<rparr>\<rparr>) sb
            else sb = ?b\<lparr>ele := (ele ?b)\<lparr>state :=
                          (if floor_e (ele ?b) > j then stateGoingDown
                           else if floor_e (ele ?b) < j then stateGoingUp else stateNeutral)\<rparr>\<rparr>)"
    by blast
  from sb(2)[rule_format, OF jb] cb
  have sb2: "scheduledAt Elev1 20 ExecutePrepareToMove ?b1 sb"
    by (simp add: newSimulator_def newElevator_def floorHome_def)
  have wa: "wait sa = [(3, \<lparr>nextTime = 120, nextInst = ExecuteOpenDoors\<rparr>),
                 (1, \<lparr>nextTime = 150, nextInst = UserGiveUp 1\<rparr>),
                 (2, \<lparr>nextTime = 400, nextInst = ExecuteSetInactionIndicator\<rparr>)]"
    using scheduledAt_wait[OF sa(2)] by (simp add: newSimulator_def newElevator_def getSlot_def)
  have wb: "wait sb = [(1, \<lparr>nextTime = 120, nextInst = UserGiveUp 1\<rparr>),
                 (3, \<lparr>nextTime = 120, nextInst = ExecutePrepareToMove\<rparr>),
                 (2, \<lparr>nextTime = 400, nextInst = ExecuteSetInactionIndicator\<rparr>)]"
    using scheduledAt_wait[OF sb2] by (simp add: newSimulator_def newElevator_def getSlot_def)
  have ea: "elev1 (ele sa) = Some 3" "state (ele sa) = stateNeutral"
    using scheduledAt_handed[OF sa(2)]
    by (simp_all add: handed_def getSlot_def newSimulator_def newElevator_def)
  have eb: "elev1 (ele sb) = Some 3" "state (ele sb) = stateGoingDown"
    using scheduledAt_handed[OF sb2]
    by (simp_all add: handed_def getSlot_def newSimulator_def newElevator_def)
  from sa(1) wa ea sb(1) wb eb show ?thesis by blast
qed

text \<open>
  Claim C6. At a floor within range, with the call slices at their length, the clock between 0
  and \<^verbatim>\<open>maxTime\<close> and the WAIT list sorted, the four actions return, and in the state \<open>s'\<close>
  they return: E7 (\<^verbatim>\<open>executeGoUpAFloor\<close>, below the top floor) has set the step, incremented
  the floor and scheduled its second half through elev1 for now + 51; the second half has
  scheduled E2 through elev1 for now + 14 if the floor has a car call or a hall-up call, or the
  floor is the home floor or has a hall-down call and no register is asserted at any floor
  above, and has scheduled E7 again through elev1, immediately (first in the WAIT list, due
  now), if not. E8 (above the bottom floor) and its second half do the same with the directions
  exchanged and the times 61 and 23.
\<close>

theorem go_up_down_a_floor:
  assumes "wellSized (ele s)" and "0 \<le> floor_e (ele s)" and "floor_e (ele s) < floors"
    and "0 \<le> time s" and "time s < maxTime" and "sorted (times (wait s))"
  shows
    "(floor_e (ele s) + 1 < floors \<longrightarrow>
        (\<exists>s'. executeGoUpAFloor s = Inr s' \<and>
           scheduledAt Elev1 51 ExecuteGoUpAFloor2
             (s\<lparr>ele := (ele s)\<lparr>step := stepGoUpAFloor, floor_e := floor_e (ele s) + 1\<rparr>\<rparr>) s')) \<and>
     (\<exists>s'. executeGoUpAFloor2 s = Inr s' \<and>
        (if callCar (ele s) ! nat (floor_e (ele s)) \<or> callUp (ele s) ! nat (floor_e (ele s)) \<or>
            (floor_e (ele s) = floorHome \<or> callDown (ele s) ! nat (floor_e (ele s))) \<and>
              noCallsAbove (ele s)
         then scheduledAt Elev1 14 ExecuteChangeOfState s s'
         else scheduledNow Elev1 ExecuteGoUpAFloor s s')) \<and>
     (0 \<le> floor_e (ele s) - 1 \<longrightarrow>
        (\<exists>s'. executeGoDownAFloor s = Inr s' \<and>
           scheduledAt Elev1 61 ExecuteGoDownAFloor2
             (s\<lparr>ele := (ele s)\<lparr>step := stepGoDownAFloor, floor_e := floor_e (ele s) - 1\<rparr>\<rparr>) s')) \<and>
     (\<exists>s'. executeGoDownAFloor2 s = Inr s' \<and>
        (if callCar (ele s) ! nat (floor_e (ele s)) \<or> callDown (ele s) ! nat (floor_e (ele s)) \<or>
            (floor_e (ele s) = floorHome \<or> callUp (ele s) ! nat (floor_e (ele s))) \<and>
              noCallsBelow (ele s)
         then scheduledAt Elev1 23 ExecuteChangeOfState s s'
         else scheduledNow Elev1 ExecuteGoDownAFloor s s'))"
proof -
  note sz = assms(1)[unfolded wellSized_def]
  have a: "isAllCallsAboveFalse s = Inr (noCallsAbove (ele s))"
    using assms(1-3) by (simp add: isAllCallsAboveFalse_in)
  have b: "isAllCallsBelowFalse s = Inr (noCallsBelow (ele s))"
    using assms(1-3) by (simp add: isAllCallsBelowFalse_in)
  have sch: "\<exists>s'. scheduleElevator Elev1 dl l m = Inr s' \<and> scheduledAt Elev1 dl l m s'"
    if "time m = time s" "wait m = wait s" "0 \<le> dl \<and> dl < 2 ^ 62" for l m dl
    using scheduleElevator_scheduledAt[of m dl Elev1 l] assms(4-6) that by auto
  have up: "\<exists>s'. executeGoUpAFloor s = Inr s' \<and>
           scheduledAt Elev1 51 ExecuteGoUpAFloor2
             (s\<lparr>ele := (ele s)\<lparr>step := stepGoUpAFloor, floor_e := floor_e (ele s) + 1\<rparr>\<rparr>) s'"
    if "floor_e (ele s) + 1 < floors"
  proof -
    have "wrap64 (floor_e (ele s) + 1) = floor_e (ele s) + 1"
      using assms(2) that by (simp add: floors_def)
    then show ?thesis
      using sch[of "s\<lparr>ele := (ele s)\<lparr>step := stepGoUpAFloor, floor_e := floor_e (ele s) + 1\<rparr>\<rparr>"
          51 ExecuteGoUpAFloor2]
      by (simp add: executeGoUpAFloor_def)
  qed
  have down: "\<exists>s'. executeGoDownAFloor s = Inr s' \<and>
           scheduledAt Elev1 61 ExecuteGoDownAFloor2
             (s\<lparr>ele := (ele s)\<lparr>step := stepGoDownAFloor, floor_e := floor_e (ele s) - 1\<rparr>\<rparr>) s'"
    if "0 \<le> floor_e (ele s) - 1"
  proof -
    have "wrap64 (floor_e (ele s) - 1) = floor_e (ele s) - 1"
      using assms(3) that by (simp add: floors_def)
    then show ?thesis
      using sch[of "s\<lparr>ele := (ele s)\<lparr>step := stepGoDownAFloor, floor_e := floor_e (ele s) - 1\<rparr>\<rparr>"
          61 ExecuteGoDownAFloor2]
      by (simp add: executeGoDownAFloor_def)
  qed
  let ?up = "callCar (ele s) ! nat (floor_e (ele s)) \<or> callUp (ele s) ! nat (floor_e (ele s)) \<or>
            (floor_e (ele s) = floorHome \<or> callDown (ele s) ! nat (floor_e (ele s))) \<and>
              noCallsAbove (ele s)"
  let ?down = "callCar (ele s) ! nat (floor_e (ele s)) \<or> callDown (ele s) ! nat (floor_e (ele s)) \<or>
            (floor_e (ele s) = floorHome \<or> callUp (ele s) ! nat (floor_e (ele s))) \<and>
              noCallsBelow (ele s)"
  have eu: "executeGoUpAFloor2 s =
       (if ?up then scheduleElevator Elev1 14 ExecuteChangeOfState s
        else Inr (scheduleElevatorImmediately Elev1 ExecuteGoUpAFloor s))"
    using sz assms(2,3) by (simp add: executeGoUpAFloor2_def a floorHome_def)
  have ed: "executeGoDownAFloor2 s =
       (if ?down then scheduleElevator Elev1 23 ExecuteChangeOfState s
        else Inr (scheduleElevatorImmediately Elev1 ExecuteGoDownAFloor s))"
    using sz assms(2,3) by (simp add: executeGoDownAFloor2_def b floorHome_def)
  have up2: "\<exists>s'. executeGoUpAFloor2 s = Inr s' \<and>
        (if ?up then scheduledAt Elev1 14 ExecuteChangeOfState s s'
         else scheduledNow Elev1 ExecuteGoUpAFloor s s')"
  proof (cases ?up)
    case True
    from sch[of s 14 ExecuteChangeOfState] obtain s' where
      "scheduleElevator Elev1 14 ExecuteChangeOfState s = Inr s'"
      "scheduledAt Elev1 14 ExecuteChangeOfState s s'" by auto
    with True show ?thesis unfolding eu by (intro exI[of _ s']) (simp only: if_True simp_thms)
  next
    case False
    show ?thesis unfolding eu
      by (intro exI[of _ "scheduleElevatorImmediately Elev1 ExecuteGoUpAFloor s"])
         (simp only: False if_False scheduleElevatorImmediately_scheduledNow simp_thms)
  qed
  have down2: "\<exists>s'. executeGoDownAFloor2 s = Inr s' \<and>
        (if ?down then scheduledAt Elev1 23 ExecuteChangeOfState s s'
         else scheduledNow Elev1 ExecuteGoDownAFloor s s')"
  proof (cases ?down)
    case True
    from sch[of s 23 ExecuteChangeOfState] obtain s' where
      "scheduleElevator Elev1 23 ExecuteChangeOfState s = Inr s'"
      "scheduledAt Elev1 23 ExecuteChangeOfState s s'" by auto
    with True show ?thesis unfolding ed by (intro exI[of _ s']) (simp only: if_True simp_thms)
  next
    case False
    show ?thesis unfolding ed
      by (intro exI[of _ "scheduleElevatorImmediately Elev1 ExecuteGoDownAFloor s"])
         (simp only: False if_False scheduleElevatorImmediately_scheduledNow simp_thms)
  qed
  from up up2 down down2 show ?thesis by blast
qed

theorem go_up_down_a_floor_witness:
  "(\<exists>s'. executeGoUpAFloor
       (newSimulator\<lparr>time := 100, nextNode := 3,
          wait := [(1, \<lparr>nextTime = 150, nextInst = UserGiveUp 1\<rparr>),
                   (2, \<lparr>nextTime = 400, nextInst = ExecuteSetInactionIndicator\<rparr>)],
          ele := newElevator\<lparr>callCar := [False, False, False, True, False],
                              state := stateGoingUp, elev3 := Some 2\<rparr>\<rparr>) = Inr s' \<and>
      floor_e (ele s') = 3 \<and> step (ele s') = stepGoUpAFloor \<and> elev1 (ele s') = Some 3 \<and>
      wait s' = [(1, \<lparr>nextTime = 150, nextInst = UserGiveUp 1\<rparr>),
                 (3, \<lparr>nextTime = 151, nextInst = ExecuteGoUpAFloor2\<rparr>),
                 (2, \<lparr>nextTime = 400, nextInst = ExecuteSetInactionIndicator\<rparr>)]) \<and>
   (\<exists>s'. executeGoUpAFloor2
       (newSimulator\<lparr>time := 151, nextNode := 4,
          wait := [(1, \<lparr>nextTime = 200, nextInst = UserGiveUp 1\<rparr>),
                   (2, \<lparr>nextTime = 400, nextInst = ExecuteSetInactionIndicator\<rparr>)],
          ele := newElevator\<lparr>callCar := [False, False, False, True, False], floor_e := 3,
                              state := stateGoingUp, step := stepGoUpAFloor,
                              elev1 := Some 3, elev3 := Some 2\<rparr>\<rparr>) = Inr s' \<and>
      floor_e (ele s') = 3 \<and> elev1 (ele s') = Some 4 \<and>
      wait s' = [(4, \<lparr>nextTime = 165, nextInst = ExecuteChangeOfState\<rparr>),
                 (1, \<lparr>nextTime = 200, nextInst = UserGiveUp 1\<rparr>),
                 (2, \<lparr>nextTime = 400, nextInst = ExecuteSetInactionIndicator\<rparr>)]) \<and>
   (\<exists>s'. executeGoDownAFloor2
       (newSimulator\<lparr>time := 161, nextNode := 4,
          wait := [(1, \<lparr>nextTime = 161, nextInst = UserGiveUp 1\<rparr>),
                   (2, \<lparr>nextTime = 400, nextInst = ExecuteSetInactionIndicator\<rparr>)],
          ele := newElevator\<lparr>callUp := [True, False, False, False, False], floor_e := 1,
                              state := stateGoingDown, step := stepGoDownAFloor,
                              elev1 := Some 3, elev3 := Some 2\<rparr>\<rparr>) = Inr s' \<and>
      floor_e (ele s') = 1 \<and> elev1 (ele s') = Some 4 \<and>
      wait s' = [(4, \<lparr>nextTime = 161, nextInst = ExecuteGoDownAFloor\<rparr>),
                 (1, \<lparr>nextTime = 161, nextInst = UserGiveUp 1\<rparr>),
                 (2, \<lparr>nextTime = 400, nextInst = ExecuteSetInactionIndicator\<rparr>)])"
proof -
  let ?u = "newSimulator\<lparr>time := 100, nextNode := 3,
          wait := [(1, \<lparr>nextTime = 150, nextInst = UserGiveUp 1\<rparr>),
                   (2, \<lparr>nextTime = 400, nextInst = ExecuteSetInactionIndicator\<rparr>)],
          ele := newElevator\<lparr>callCar := [False, False, False, True, False],
                              state := stateGoingUp, elev3 := Some 2\<rparr>\<rparr>"
  let ?v = "newSimulator\<lparr>time := 151, nextNode := 4,
          wait := [(1, \<lparr>nextTime = 200, nextInst = UserGiveUp 1\<rparr>),
                   (2, \<lparr>nextTime = 400, nextInst = ExecuteSetInactionIndicator\<rparr>)],
          ele := newElevator\<lparr>callCar := [False, False, False, True, False], floor_e := 3,
                              state := stateGoingUp, step := stepGoUpAFloor,
                              elev1 := Some 3, elev3 := Some 2\<rparr>\<rparr>"
  let ?w = "newSimulator\<lparr>time := 161, nextNode := 4,
          wait := [(1, \<lparr>nextTime = 161, nextInst = UserGiveUp 1\<rparr>),
                   (2, \<lparr>nextTime = 400, nextInst = ExecuteSetInactionIndicator\<rparr>)],
          ele := newElevator\<lparr>callUp := [True, False, False, False, False], floor_e := 1,
                              state := stateGoingDown, step := stepGoDownAFloor,
                              elev1 := Some 3, elev3 := Some 2\<rparr>\<rparr>"
  note defs = newSimulator_def newElevator_def floors_def floorHome_def maxTime_def
  have hu: "wellSized (ele ?u)" "0 \<le> floor_e (ele ?u)" "floor_e (ele ?u) < floors"
    "0 \<le> time ?u" "time ?u < maxTime" "sorted (times (wait ?u))"
    by (simp_all add: wellSized_def defs times_def)
  have hv: "wellSized (ele ?v)" "0 \<le> floor_e (ele ?v)" "floor_e (ele ?v) < floors"
    "0 \<le> time ?v" "time ?v < maxTime" "sorted (times (wait ?v))"
    by (simp_all add: wellSized_def defs times_def)
  have hw: "wellSized (ele ?w)" "0 \<le> floor_e (ele ?w)" "floor_e (ele ?w) < floors"
    "0 \<le> time ?w" "time ?w < maxTime" "sorted (times (wait ?w))"
    by (simp_all add: wellSized_def defs times_def)
  have pu: "floor_e (ele ?u) + 1 < floors" by (simp add: defs)
  have pv: "callCar (ele ?v) ! nat (floor_e (ele ?v))"
    by (simp add: defs eval_nat_numeral)
  have pw: "\<not> (callCar (ele ?w) ! nat (floor_e (ele ?w)) \<or>
        callDown (ele ?w) ! nat (floor_e (ele ?w)) \<or>
        (floor_e (ele ?w) = floorHome \<or> callUp (ele ?w) ! nat (floor_e (ele ?w))) \<and>
          noCallsBelow (ele ?w))"
    by (simp add: defs eval_nat_numeral)
  from go_up_down_a_floor[OF hu] pu obtain su where
    su: "executeGoUpAFloor ?u = Inr su"
      "scheduledAt Elev1 51 ExecuteGoUpAFloor2
         (?u\<lparr>ele := (ele ?u)\<lparr>step := stepGoUpAFloor, floor_e := floor_e (ele ?u) + 1\<rparr>\<rparr>) su"
    by blast
  from go_up_down_a_floor[OF hv] obtain sv where
    sv: "executeGoUpAFloor2 ?v = Inr sv"
      "if callCar (ele ?v) ! nat (floor_e (ele ?v)) \<or> callUp (ele ?v) ! nat (floor_e (ele ?v)) \<or>
            (floor_e (ele ?v) = floorHome \<or> callDown (ele ?v) ! nat (floor_e (ele ?v))) \<and>
              noCallsAbove (ele ?v)
         then scheduledAt Elev1 14 ExecuteChangeOfState ?v sv
         else scheduledNow Elev1 ExecuteGoUpAFloor ?v sv"
    by blast
  from sv(2) pv have sv2: "scheduledAt Elev1 14 ExecuteChangeOfState ?v sv"
    by (simp only: if_True simp_thms)
  from go_up_down_a_floor[OF hw] obtain sw where
    sw: "executeGoDownAFloor2 ?w = Inr sw"
      "if callCar (ele ?w) ! nat (floor_e (ele ?w)) \<or> callDown (ele ?w) ! nat (floor_e (ele ?w)) \<or>
            (floor_e (ele ?w) = floorHome \<or> callUp (ele ?w) ! nat (floor_e (ele ?w))) \<and>
              noCallsBelow (ele ?w)
         then scheduledAt Elev1 23 ExecuteChangeOfState ?w sw
         else scheduledNow Elev1 ExecuteGoDownAFloor ?w sw"
    by blast
  from sw(2) pw have sw2: "scheduledNow Elev1 ExecuteGoDownAFloor ?w sw"
    by (simp only: if_False)
  have wu: "wait su = [(1, \<lparr>nextTime = 150, nextInst = UserGiveUp 1\<rparr>),
                 (3, \<lparr>nextTime = 151, nextInst = ExecuteGoUpAFloor2\<rparr>),
                 (2, \<lparr>nextTime = 400, nextInst = ExecuteSetInactionIndicator\<rparr>)]"
    using scheduledAt_wait[OF su(2)] by (simp add: defs getSlot_def)
  have eu: "floor_e (ele su) = 3" "step (ele su) = stepGoUpAFloor" "elev1 (ele su) = Some 3"
    using scheduledAt_handed[OF su(2)] by (simp_all add: handed_def getSlot_def defs)
  have wv: "wait sv = [(4, \<lparr>nextTime = 165, nextInst = ExecuteChangeOfState\<rparr>),
                 (1, \<lparr>nextTime = 200, nextInst = UserGiveUp 1\<rparr>),
                 (2, \<lparr>nextTime = 400, nextInst = ExecuteSetInactionIndicator\<rparr>)]"
    using scheduledAt_wait[OF sv2] by (simp add: defs getSlot_def unlink_def)
  have ev: "floor_e (ele sv) = 3" "elev1 (ele sv) = Some 4"
    using scheduledAt_handed[OF sv2] by (simp_all add: handed_def getSlot_def defs)
  have ww: "wait sw = [(4, \<lparr>nextTime = 161, nextInst = ExecuteGoDownAFloor\<rparr>),
                 (1, \<lparr>nextTime = 161, nextInst = UserGiveUp 1\<rparr>),
                 (2, \<lparr>nextTime = 400, nextInst = ExecuteSetInactionIndicator\<rparr>)]"
    using scheduledNow_wait[OF sw2] by (simp add: defs getSlot_def unlink_def)
  have ew: "floor_e (ele sw) = 1" "elev1 (ele sw) = Some 4"
    using scheduledNow_handed[OF sw2] by (simp_all add: handed_def getSlot_def defs)
  from su(1) wu eu sv(1) wv ev sw(1) ww ew show ?thesis by blast
qed

subsection \<open>The decision subroutine returns\<close>

lemma scheduleElevator_time:
  assumes "0 \<le> time s" "time s < maxTime" "0 \<le> dl \<and> dl < 2 ^ 62"
  shows "\<exists>s'. scheduleElevator sl dl l s = Inr s' \<and> time s' = time s"
proof -
  from assms have t: "0 \<le> time s + dl \<and> time s + dl < 2 ^ 63" by (simp add: maxTime_def)
  from scheduleElevator_scheduled[OF t, of sl l] scheduled_frame(1)[OF t, of sl l]
  show ?thesis by simp
qed

lemma decisionD4_returns:
  assumes "0 \<le> time s" "time s < maxTime"
  shows "\<exists>m. decisionD4 j s = Inr m \<and> time m = time s"
proof -
  have "\<exists>m. scheduleElevator Elev1 20 ExecutePrepareToMove x = Inr m \<and> time m = time s"
    if "time x = time s" for x
    using scheduleElevator_time[of x 20 Elev1 ExecutePrepareToMove] assms that by simp
  then show ?thesis by (simp add: decisionD4_def Let_def)
qed

lemma decision_returns:
  assumes "wellSized (ele s)" "0 \<le> time s" "time s < maxTime"
  shows "\<exists>m. decision s = Inr m \<and> time m = time s"
proof -
  let ?e = "ele s"
  let ?P = "\<lambda>j. j \<noteq> floor_e ?e \<and> anyCall ?e j"
  have home: "callsUCD ?e floorHome = Inr (anyCall ?e floorHome)"
    using assms(1) by (simp add: callsUCD_in floorHome_def floors_def)
  have fc: "findCall ?e [0 .. floors - 1] = Inr (find ?P [0 .. floors - 1])"
    using assms(1) by (simp add: findCall_in)
  note d4 = decisionD4_returns[OF assms(2,3)]
  note e3 = scheduleElevator_time[OF assms(2,3), of 20 Elev1 ExecuteOpenDoors]
  show ?thesis
  proof (cases "state ?e = stateNeutral")
    case False
    then show ?thesis by (simp add: decision_def)
  next
    case n: True
    show ?thesis
    proof (cases "step ?e = stepWaitForCall \<and> anyCall ?e floorHome")
      case True
      with n e3 show ?thesis by (simp add: decision_def home)
    next
      case False
      with n d4 show ?thesis
        by (cases "find ?P [0 .. floors - 1]") (auto simp: decision_def home fc)
    qed
  qed
qed

text \<open>
  Claim C3. U2 (\<^verbatim>\<open>userSignalAndWait\<close>) for a user whose floor of origin is within range,
  with the call slices at their length and the clock between 0 and \<^verbatim>\<open>maxTime\<close>: the call
  returns, and the state \<open>s'\<close> it returns is a state \<open>m\<close> in which U3 for this user has then
  been made the first entry of the WAIT list, due at the current time. When the elevator is at
  the floor of origin and its step is E5, \<open>m\<close> is the state with E3 scheduled through elev1
  immediately (the entry elev1 referred to has left the WAIT list; E3, due now, is its first
  entry). Otherwise, when the elevator is at that floor and D3 is true, D3 has been cleared, D1
  set and E4 scheduled through elev1 immediately. Otherwise the hall-up register of the floor
  has been asserted when the destination is above the origin and the hall-down register when
  it is not, and \<open>m\<close> is what the Decision subroutine returns for that state when D2 is false or
  the step is E1, and that state itself when not.
\<close>

theorem signalAndWait_cases:
  assumes "wellSized (ele s)" and "0 \<le> in_u (users s i)" and "in_u (users s i) < floors"
    and "0 \<le> time s" and "time s < maxTime"
  shows
    "\<exists>s' m. userSignalAndWait i s = Inr s' \<and>
       s' = m\<lparr>wait := (nextNode m, \<lparr>nextTime = time s, nextInst = UserEnterQueue i\<rparr>) # wait m,
              nextNode := Suc (nextNode m)\<rparr> \<and>
       (floor_e (ele s) = in_u (users s i) \<and> step (ele s) = stepCloseDoors \<longrightarrow>
          scheduledNow Elev1 ExecuteOpenDoors s m) \<and>
       (floor_e (ele s) = in_u (users s i) \<and> step (ele s) \<noteq> stepCloseDoors \<and> d3 (ele s) \<longrightarrow>
          scheduledNow Elev1 ExecuteLetPeopleOutIn
            (s\<lparr>ele := (ele s)\<lparr>d3 := False, d1 := True\<rparr>\<rparr>) m) \<and>
       (\<not> (floor_e (ele s) = in_u (users s i) \<and> (step (ele s) = stepCloseDoors \<or> d3 (ele s))) \<longrightarrow>
          (if \<not> d2 (ele s) \<or> step (ele s) = stepWaitForCall
           then decision
                  (if out_u (users s i) > in_u (users s i)
                   then s\<lparr>ele := (ele s)\<lparr>callUp := (callUp (ele s))[nat (in_u (users s i)) := True]\<rparr>\<rparr>
                   else s\<lparr>ele := (ele s)\<lparr>callDown := (callDown (ele s))[nat (in_u (users s i)) := True]\<rparr>\<rparr>)
                = Inr m
           else m =
                  (if out_u (users s i) > in_u (users s i)
                   then s\<lparr>ele := (ele s)\<lparr>callUp := (callUp (ele s))[nat (in_u (users s i)) := True]\<rparr>\<rparr>
                   else s\<lparr>ele := (ele s)\<lparr>callDown := (callDown (ele s))[nat (in_u (users s i)) := True]\<rparr>\<rparr>)))"
proof -
  let ?u = "users s i"
  let ?l = "UserEnterQueue i"
  let ?s1 = "if out_u ?u > in_u ?u
             then s\<lparr>ele := (ele s)\<lparr>callUp := (callUp (ele s))[nat (in_u ?u) := True]\<rparr>\<rparr>
             else s\<lparr>ele := (ele s)\<lparr>callDown := (callDown (ele s))[nat (in_u ?u) := True]\<rparr>\<rparr>"
  let ?fin = "\<lambda>m. m\<lparr>wait := (nextNode m, \<lparr>nextTime = time s, nextInst = ?l\<rparr>) # wait m,
                      nextNode := Suc (nextNode m)\<rparr>"
  note sz = assms(1)[unfolded wellSized_def]
  have t: "snd (waitImmed \<lparr>nextTime = time m, nextInst = ?l\<rparr> m) = ?fin m" if "time m = time s" for m
    using that by (simp add: waitImmed_def immed_def insertRight_def)
  let ?A = "\<lambda>m. floor_e (ele s) = in_u ?u \<and> step (ele s) = stepCloseDoors \<longrightarrow>
          scheduledNow Elev1 ExecuteOpenDoors s m"
  let ?B = "\<lambda>m. floor_e (ele s) = in_u ?u \<and> step (ele s) \<noteq> stepCloseDoors \<and> d3 (ele s) \<longrightarrow>
          scheduledNow Elev1 ExecuteLetPeopleOutIn (s\<lparr>ele := (ele s)\<lparr>d3 := False, d1 := True\<rparr>\<rparr>) m"
  let ?C = "\<lambda>m. \<not> (floor_e (ele s) = in_u ?u \<and> (step (ele s) = stepCloseDoors \<or> d3 (ele s))) \<longrightarrow>
          (if \<not> d2 (ele s) \<or> step (ele s) = stepWaitForCall
           then decision ?s1 = Inr m else m = ?s1)"
  have fin: ?thesis if "userSignalAndWait i s = Inr (?fin m)" "?A m" "?B m" "?C m" for m
    by (rule exI[of _ "?fin m"], rule exI[of _ m]) (use that in blast)
  consider (reopen) "floor_e (ele s) = in_u ?u" "step (ele s) = stepCloseDoors"
    | (again) "floor_e (ele s) = in_u ?u" "step (ele s) \<noteq> stepCloseDoors" "d3 (ele s)"
    | (call) "\<not> (floor_e (ele s) = in_u ?u \<and> (step (ele s) = stepCloseDoors \<or> d3 (ele s)))"
    by blast
  then show ?thesis
  proof cases
    case reopen
    let ?m = "scheduleElevatorImmediately Elev1 ExecuteOpenDoors s"
    have tm: "time ?m = time s" by (simp add: scheduleElevatorImmediately_frame)
    show ?thesis
    proof (rule fin[of ?m])
      show "userSignalAndWait i s = Inr (?fin ?m)"
        using reopen t[OF tm] by (simp add: userSignalAndWait_def Let_def)
      show "?A ?m" using scheduleElevatorImmediately_scheduledNow by blast
    qed (use reopen in blast)+
  next
    case again
    let ?s0 = "s\<lparr>ele := (ele s)\<lparr>d3 := False, d1 := True\<rparr>\<rparr>"
    let ?m = "scheduleElevatorImmediately Elev1 ExecuteLetPeopleOutIn ?s0"
    have tm: "time ?m = time s" by (simp add: scheduleElevatorImmediately_frame)
    show ?thesis
    proof (rule fin[of ?m])
      show "userSignalAndWait i s = Inr (?fin ?m)"
        using again t[OF tm] by (simp add: userSignalAndWait_def Let_def)
      show "?B ?m" using scheduleElevatorImmediately_scheduledNow by blast
    qed (use again in blast)+
  next
    case call
    have ws1: "wellSized (ele ?s1)" "time ?s1 = time s"
      using assms(1) by (simp_all add: wellSized_def)
    have ex: "userSignalAndWait i s =
        bindE (if \<not> d2 (ele s) \<or> step (ele s) = stepWaitForCall then decision ?s1 else Inr ?s1)
          (\<lambda>s2. Inr (snd (waitImmed \<lparr>nextTime = time s2, nextInst = ?l\<rparr> s2)))"
      using call sz assms(2,3) by (auto simp: userSignalAndWait_def Let_def)
    show ?thesis
    proof (cases "\<not> d2 (ele s) \<or> step (ele s) = stepWaitForCall")
      case True
      from decision_returns[OF ws1(1)] assms(4,5) ws1(2) obtain m where
        m: "decision ?s1 = Inr m" "time m = time s" by auto
      show ?thesis
      proof (rule fin[of m])
        show "userSignalAndWait i s = Inr (?fin m)"
          unfolding ex using True m(1) t[OF m(2)] by (simp only: if_True bindE_Inr)
        show "?C m" using True m(1) by (simp only: if_True simp_thms)
      qed (use call in blast)+
    next
      case False
      show ?thesis
      proof (rule fin[of ?s1])
        show "userSignalAndWait i s = Inr (?fin ?s1)"
          unfolding ex using False t[OF ws1(2)] by (simp only: if_False bindE_Inr)
        show "?C ?s1" using False by (simp only: if_False simp_thms)
      qed (use call in blast)+
    qed
  qed
qed

theorem signalAndWait_cases_witness:
  "(\<exists>s'. userSignalAndWait 1
       (newSimulator\<lparr>time := 100, nextNode := 3, users := (\<lambda>i. newUser i 2 4 300),
          wait := [(1, \<lparr>nextTime = 120, nextInst = ExecutePrepareToMove\<rparr>),
                   (2, \<lparr>nextTime = 400, nextInst = ExecuteSetInactionIndicator\<rparr>)],
          ele := newElevator\<lparr>step := stepCloseDoors, d2 := True,
                              elev1 := Some 1, elev3 := Some 2\<rparr>\<rparr>) = Inr s' \<and>
      wait s' = [(4, \<lparr>nextTime = 100, nextInst = UserEnterQueue 1\<rparr>),
                 (3, \<lparr>nextTime = 100, nextInst = ExecuteOpenDoors\<rparr>),
                 (2, \<lparr>nextTime = 400, nextInst = ExecuteSetInactionIndicator\<rparr>)] \<and>
      elev1 (ele s') = Some 3) \<and>
   (\<exists>s'. userSignalAndWait 1
       (newSimulator\<lparr>time := 100, nextNode := 3, users := (\<lambda>i. newUser i 2 4 300),
          wait := [(2, \<lparr>nextTime = 400, nextInst = ExecuteSetInactionIndicator\<rparr>)],
          ele := newElevator\<lparr>step := stepLetPeopleOutIn, d2 := True, d3 := True,
                              elev3 := Some 2\<rparr>\<rparr>) = Inr s' \<and>
      wait s' = [(4, \<lparr>nextTime = 100, nextInst = UserEnterQueue 1\<rparr>),
                 (3, \<lparr>nextTime = 100, nextInst = ExecuteLetPeopleOutIn\<rparr>),
                 (2, \<lparr>nextTime = 400, nextInst = ExecuteSetInactionIndicator\<rparr>)] \<and>
      elev1 (ele s') = Some 3 \<and> \<not> d3 (ele s') \<and> d1 (ele s')) \<and>
   (\<exists>s'. userSignalAndWait 1
       (newSimulator\<lparr>time := 100, nextNode := 3, users := (\<lambda>i. newUser i 0 3 300),
          wait := [(1, \<lparr>nextTime = 120, nextInst = ExecuteGoUpAFloor2\<rparr>)],
          ele := newElevator\<lparr>state := stateGoingUp, step := stepGoUpAFloor, d2 := True,
                              elev1 := Some 1\<rparr>\<rparr>) = Inr s' \<and>
      wait s' = [(3, \<lparr>nextTime = 100, nextInst = UserEnterQueue 1\<rparr>),
                 (1, \<lparr>nextTime = 120, nextInst = ExecuteGoUpAFloor2\<rparr>)] \<and>
      callUp (ele s') = [True, False, False, False, False] \<and> elev1 (ele s') = Some 1) \<and>
   (\<exists>s'. userSignalAndWait 1
       (newSimulator\<lparr>time := 100, nextNode := 3, users := (\<lambda>i. newUser i 2 4 300),
          wait := [(2, \<lparr>nextTime = 400, nextInst = ExecuteSetInactionIndicator\<rparr>)],
          ele := newElevator\<lparr>d2 := True, elev3 := Some 2\<rparr>\<rparr>) = Inr s' \<and>
      wait s' = [(4, \<lparr>nextTime = 100, nextInst = UserEnterQueue 1\<rparr>),
                 (3, \<lparr>nextTime = 120, nextInst = ExecuteOpenDoors\<rparr>),
                 (2, \<lparr>nextTime = 400, nextInst = ExecuteSetInactionIndicator\<rparr>)] \<and>
      callUp (ele s') = [False, False, True, False, False] \<and> elev1 (ele s') = Some 3)"
proof -
  let ?x = "newSimulator\<lparr>time := 100, nextNode := 3, users := (\<lambda>i. newUser i 2 4 300),
          wait := [(1, \<lparr>nextTime = 120, nextInst = ExecutePrepareToMove\<rparr>),
                   (2, \<lparr>nextTime = 400, nextInst = ExecuteSetInactionIndicator\<rparr>)],
          ele := newElevator\<lparr>step := stepCloseDoors, d2 := True,
                              elev1 := Some 1, elev3 := Some 2\<rparr>\<rparr>"
  let ?y = "newSimulator\<lparr>time := 100, nextNode := 3, users := (\<lambda>i. newUser i 2 4 300),
          wait := [(2, \<lparr>nextTime = 400, nextInst = ExecuteSetInactionIndicator\<rparr>)],
          ele := newElevator\<lparr>step := stepLetPeopleOutIn, d2 := True, d3 := True,
                              elev3 := Some 2\<rparr>\<rparr>"
  let ?z = "newSimulator\<lparr>time := 100, nextNode := 3, users := (\<lambda>i. newUser i 0 3 300),
          wait := [(1, \<lparr>nextTime = 120, nextInst = ExecuteGoUpAFloor2\<rparr>)],
          ele := newElevator\<lparr>state := stateGoingUp, step := stepGoUpAFloor, d2 := True,
                              elev1 := Some 1\<rparr>\<rparr>"
  let ?q = "newSimulator\<lparr>time := 100, nextNode := 3, users := (\<lambda>i. newUser i 2 4 300),
          wait := [(2, \<lparr>nextTime = 400, nextInst = ExecuteSetInactionIndicator\<rparr>)],
          ele := newElevator\<lparr>d2 := True, elev3 := Some 2\<rparr>\<rparr>"
  note defs = newSimulator_def newElevator_def newUser_def floors_def floorHome_def maxTime_def
  have hx: "wellSized (ele ?x)" "0 \<le> in_u (users ?x 1)" "in_u (users ?x 1) < floors"
    "0 \<le> time ?x" "time ?x < maxTime"
    by (simp_all add: wellSized_def defs)
  have hy: "wellSized (ele ?y)" "0 \<le> in_u (users ?y 1)" "in_u (users ?y 1) < floors"
    "0 \<le> time ?y" "time ?y < maxTime"
    by (simp_all add: wellSized_def defs)
  have hz: "wellSized (ele ?z)" "0 \<le> in_u (users ?z 1)" "in_u (users ?z 1) < floors"
    "0 \<le> time ?z" "time ?z < maxTime"
    by (simp_all add: wellSized_def defs)
  have px: "floor_e (ele ?x) = in_u (users ?x 1) \<and> step (ele ?x) = stepCloseDoors"
    by (simp add: defs)
  have py: "floor_e (ele ?y) = in_u (users ?y 1) \<and> step (ele ?y) \<noteq> stepCloseDoors \<and> d3 (ele ?y)"
    by (simp add: defs)
  have pz: "\<not> (floor_e (ele ?z) = in_u (users ?z 1) \<and>
        (step (ele ?z) = stepCloseDoors \<or> d3 (ele ?z)))"
    "\<not> (\<not> d2 (ele ?z) \<or> step (ele ?z) = stepWaitForCall)"
    "out_u (users ?z 1) > in_u (users ?z 1)"
    by (simp_all add: defs)
  have hq: "wellSized (ele ?q)" "0 \<le> in_u (users ?q 1)" "in_u (users ?q 1) < floors"
    "0 \<le> time ?q" "time ?q < maxTime"
    by (simp_all add: wellSized_def defs)
  have pq: "\<not> (floor_e (ele ?q) = in_u (users ?q 1) \<and>
        (step (ele ?q) = stepCloseDoors \<or> d3 (ele ?q)))"
    "\<not> d2 (ele ?q) \<or> step (ele ?q) = stepWaitForCall"
    "out_u (users ?q 1) > in_u (users ?q 1)"
    by (simp_all add: defs)
  from signalAndWait_cases[OF hx] px obtain sx mx where
    x: "userSignalAndWait 1 ?x = Inr sx"
      "sx = mx\<lparr>wait := (nextNode mx, \<lparr>nextTime = time ?x, nextInst = UserEnterQueue 1\<rparr>) # wait mx,
                nextNode := Suc (nextNode mx)\<rparr>"
      "scheduledNow Elev1 ExecuteOpenDoors ?x mx"
    by blast
  from signalAndWait_cases[OF hy] py obtain sy my where
    y: "userSignalAndWait 1 ?y = Inr sy"
      "sy = my\<lparr>wait := (nextNode my, \<lparr>nextTime = time ?y, nextInst = UserEnterQueue 1\<rparr>) # wait my,
                nextNode := Suc (nextNode my)\<rparr>"
      "scheduledNow Elev1 ExecuteLetPeopleOutIn (?y\<lparr>ele := (ele ?y)\<lparr>d3 := False, d1 := True\<rparr>\<rparr>) my"
    by blast
  from signalAndWait_cases[OF hz] pz(1) obtain sz mz where
    z: "userSignalAndWait 1 ?z = Inr sz"
      "sz = mz\<lparr>wait := (nextNode mz, \<lparr>nextTime = time ?z, nextInst = UserEnterQueue 1\<rparr>) # wait mz,
                nextNode := Suc (nextNode mz)\<rparr>"
      "if \<not> d2 (ele ?z) \<or> step (ele ?z) = stepWaitForCall
       then decision
              (if out_u (users ?z 1) > in_u (users ?z 1)
               then ?z\<lparr>ele := (ele ?z)\<lparr>callUp := (callUp (ele ?z))[nat (in_u (users ?z 1)) := True]\<rparr>\<rparr>
               else ?z\<lparr>ele := (ele ?z)\<lparr>callDown := (callDown (ele ?z))[nat (in_u (users ?z 1)) := True]\<rparr>\<rparr>)
            = Inr mz
       else mz =
              (if out_u (users ?z 1) > in_u (users ?z 1)
               then ?z\<lparr>ele := (ele ?z)\<lparr>callUp := (callUp (ele ?z))[nat (in_u (users ?z 1)) := True]\<rparr>\<rparr>
               else ?z\<lparr>ele := (ele ?z)\<lparr>callDown := (callDown (ele ?z))[nat (in_u (users ?z 1)) := True]\<rparr>\<rparr>)"
    by blast
  from signalAndWait_cases[OF hq] pq(1) obtain sq mq where
    q: "userSignalAndWait 1 ?q = Inr sq"
      "sq = mq\<lparr>wait := (nextNode mq, \<lparr>nextTime = time ?q, nextInst = UserEnterQueue 1\<rparr>) # wait mq,
                nextNode := Suc (nextNode mq)\<rparr>"
      "if \<not> d2 (ele ?q) \<or> step (ele ?q) = stepWaitForCall
       then decision
              (if out_u (users ?q 1) > in_u (users ?q 1)
               then ?q\<lparr>ele := (ele ?q)\<lparr>callUp := (callUp (ele ?q))[nat (in_u (users ?q 1)) := True]\<rparr>\<rparr>
               else ?q\<lparr>ele := (ele ?q)\<lparr>callDown := (callDown (ele ?q))[nat (in_u (users ?q 1)) := True]\<rparr>\<rparr>)
            = Inr mq
       else mq =
              (if out_u (users ?q 1) > in_u (users ?q 1)
               then ?q\<lparr>ele := (ele ?q)\<lparr>callUp := (callUp (ele ?q))[nat (in_u (users ?q 1)) := True]\<rparr>\<rparr>
               else ?q\<lparr>ele := (ele ?q)\<lparr>callDown := (callDown (ele ?q))[nat (in_u (users ?q 1)) := True]\<rparr>\<rparr>)"
    by blast
  from q(3) pq(2,3)
  have "decision (?q\<lparr>ele := (ele ?q)\<lparr>callUp := (callUp (ele ?q))[nat (in_u (users ?q 1)) := True]\<rparr>\<rparr>)
      = Inr mq"
    by (simp only: if_True)
  then have mq: "mq = ?q\<lparr>nextNode := 4,
      wait := [(3, \<lparr>nextTime = 120, nextInst = ExecuteOpenDoors\<rparr>),
               (2, \<lparr>nextTime = 400, nextInst = ExecuteSetInactionIndicator\<rparr>)],
      ele := (ele ?q)\<lparr>callUp := [False, False, True, False, False], elev1 := Some 3\<rparr>\<rparr>"
    by (simp add: defs decision_def callsUCD_def andE_def orE_def at_def bindE_def
        scheduleElevator_def delete_def getSlot_def setSlot_def waitSortIn_def sortIn_eq
        times_def Let_def eval_nat_numeral)
  from z(3) pz(2,3)
  have mz: "mz = ?z\<lparr>ele := (ele ?z)\<lparr>callUp := (callUp (ele ?z))[nat (in_u (users ?z 1)) := True]\<rparr>\<rparr>"
    by (simp only: if_False if_True)
  have wx: "wait sx = [(4, \<lparr>nextTime = 100, nextInst = UserEnterQueue 1\<rparr>),
                 (3, \<lparr>nextTime = 100, nextInst = ExecuteOpenDoors\<rparr>),
                 (2, \<lparr>nextTime = 400, nextInst = ExecuteSetInactionIndicator\<rparr>)]"
    "elev1 (ele sx) = Some 3"
    using scheduledNow_wait[OF x(3)] scheduledNow_handed[OF x(3)]
    by (simp_all add: x(2) handed_def defs getSlot_def unlink_def)
  have wy: "wait sy = [(4, \<lparr>nextTime = 100, nextInst = UserEnterQueue 1\<rparr>),
                 (3, \<lparr>nextTime = 100, nextInst = ExecuteLetPeopleOutIn\<rparr>),
                 (2, \<lparr>nextTime = 400, nextInst = ExecuteSetInactionIndicator\<rparr>)]"
    "elev1 (ele sy) = Some 3" "\<not> d3 (ele sy)" "d1 (ele sy)"
    using scheduledNow_wait[OF y(3)] scheduledNow_handed[OF y(3)]
    by (simp_all add: y(2) handed_def defs getSlot_def unlink_def)
  have wz: "wait sz = [(3, \<lparr>nextTime = 100, nextInst = UserEnterQueue 1\<rparr>),
                 (1, \<lparr>nextTime = 120, nextInst = ExecuteGoUpAFloor2\<rparr>)]"
    "callUp (ele sz) = [True, False, False, False, False]" "elev1 (ele sz) = Some 1"
    by (simp_all add: z(2) mz defs eval_nat_numeral)
  have wq: "wait sq = [(4, \<lparr>nextTime = 100, nextInst = UserEnterQueue 1\<rparr>),
                 (3, \<lparr>nextTime = 120, nextInst = ExecuteOpenDoors\<rparr>),
                 (2, \<lparr>nextTime = 400, nextInst = ExecuteSetInactionIndicator\<rparr>)]"
    "callUp (ele sq) = [False, False, True, False, False]" "elev1 (ele sq) = Some 3"
    by (simp_all add: q(2) mq defs)
  from x(1) wx y(1) wy z(1) wz q(1) wq show ?thesis by blast
qed

text \<open>
  Claim C7. E4 (\<^verbatim>\<open>executeLetPeopleOutIn\<close>), at a floor within range, with the call slices
  at their length, the clock between 0 and \<^verbatim>\<open>maxTime\<close>, and the WAIT list sorted, with
  no entry due before the clock and all nodes allocated before: the call returns. If some rider
  on board wants out at this floor, U6 of the last such rider of the stack has been made the
  first entry of the WAIT list, due now, and E4 has then been scheduled again through elev1
  for now + 25. If there is none and the queue of the floor is not empty, the same has been
  done with U5 of its first rider. If the queue is empty too, D1 has become false and D3 true,
  and nothing has been scheduled. The stack is in boarding order: U5 returns with the rider
  behind all others, whose order it keeps, so the last match is the one who boarded most
  recently; a queue is in arrival order: U3 returns with the rider behind all others, so its
  first rider is the one who arrived earliest.
\<close>

theorem letPeopleOutIn_order:
  assumes "wellSized (ele s)" and "0 \<le> floor_e (ele s)" and "floor_e (ele s) < floors"
    and "0 \<le> time s" and "time s < maxTime" and "sorted (times (wait s))"
    and "\<forall>n \<in> set (wait s). time s \<le> nextTime (snd n)" and "allocated s"
  shows
    "(\<exists>s'. executeLetPeopleOutIn s = Inr s' \<and>
       (\<forall>pre p post.
          stack (ele s) = pre @ p # post \<and> out_u (users s (snd p)) = floor_e (ele s) \<and>
          (\<forall>q \<in> set post. out_u (users s (snd q)) \<noteq> floor_e (ele s)) \<longrightarrow>
          scheduledAt Elev1 25 ExecuteLetPeopleOutIn
            (triggerNow (UserGetOut (snd p)) (s\<lparr>ele := (ele s)\<lparr>step := stepLetPeopleOutIn\<rparr>\<rparr>)) s' \<and>
          hd (wait s') = (nextNode s, \<lparr>nextTime = time s, nextInst = UserGetOut (snd p)\<rparr>)) \<and>
       ((\<forall>q \<in> set (stack (ele s)). out_u (users s (snd q)) \<noteq> floor_e (ele s)) \<longrightarrow>
          (\<forall>p ps. queue (ele s) ! nat (floor_e (ele s)) = p # ps \<longrightarrow>
             scheduledAt Elev1 25 ExecuteLetPeopleOutIn
               (triggerNow (UserGetIn (snd p)) (s\<lparr>ele := (ele s)\<lparr>step := stepLetPeopleOutIn\<rparr>\<rparr>)) s' \<and>
             hd (wait s') = (nextNode s, \<lparr>nextTime = time s, nextInst = UserGetIn (snd p)\<rparr>)) \<and>
          (queue (ele s) ! nat (floor_e (ele s)) = [] \<longrightarrow>
             s' = s\<lparr>ele := (ele s)\<lparr>step := stepLetPeopleOutIn, d1 := False, d3 := True\<rparr>\<rparr>))) \<and>
     (\<forall>i a. listNode (users s i) = Some a \<and> giveUp (users s i) \<noteq> Some a \<and>
            elev2 (ele s) \<noteq> Some a \<and>
            (\<forall>m \<in> set (stack (ele s)).
               Some (fst m) \<noteq> giveUp (users s i) \<and> Some (fst m) \<noteq> elev2 (ele s)) \<and>
            0 \<le> out_u (users s i) \<and> out_u (users s i) < floors \<longrightarrow>
        (\<exists>s'. userGetIn i s = Inr s' \<and>
              stack (ele s') = unlink a (stack (ele s)) @ [(a, i)])) \<and>
     (\<forall>i. 0 \<le> in_u (users s i) \<and> in_u (users s i) < floors \<and>
          0 \<le> giveUpTime (users s i) \<and> giveUpTime (users s i) < maxGiveUpTime \<longrightarrow>
        (\<exists>s'. userEnterQueue i s = Inr s' \<and>
              queue (ele s') ! nat (in_u (users s i)) =
                queue (ele s) ! nat (in_u (users s i)) @ [(nextNode s, i)]))"
proof -
  let ?s1 = "s\<lparr>ele := (ele s)\<lparr>step := stepLetPeopleOutIn\<rparr>\<rparr>"
  let ?f = "floor_e (ele s)"
  let ?P = "\<lambda>p. out_u (users s (snd p)) = ?f"
  note sz = assms(1)[unfolded wellSized_def]
  have wi: "snd (waitImmed \<lparr>nextTime = time s, nextInst = l\<rparr> ?s1) = triggerNow l ?s1" for l
    using waitImmed_triggerNow[of ?s1 l] by simp
  have again: "\<exists>s'. scheduleElevator Elev1 25 ExecuteLetPeopleOutIn (triggerNow l ?s1) = Inr s' \<and>
        scheduledAt Elev1 25 ExecuteLetPeopleOutIn (triggerNow l ?s1) s' \<and>
        hd (wait s') = (nextNode s, \<lparr>nextTime = time s, nextInst = l\<rparr>)" for l
  proof -
    let ?m = "triggerNow l ?s1"
    have m: "time ?m = time s" "nextNode ?m = Suc (nextNode s)" "getSlot Elev1 ?m = getSlot Elev1 s"
      "wait ?m = (nextNode s, \<lparr>nextTime = time s, nextInst = l\<rparr>) # wait s"
      by (simp_all add: triggerNow_frame getSlot_def)
    have so: "sorted (times (wait ?m))" using assms(6,7) by (simp add: m times_def)
    from scheduleElevator_scheduledAt[of ?m 25 Elev1 ExecuteLetPeopleOutIn] assms(4,5) so m(1)
    obtain s' where s': "scheduleElevator Elev1 25 ExecuteLetPeopleOutIn ?m = Inr s'"
      "scheduledAt Elev1 25 ExecuteLetPeopleOutIn ?m s'"
      by auto
    have "getSlot Elev1 s \<noteq> Some (nextNode s)" using assms(8) by (auto simp: allocated_def)
    then have "hd (wait s') = (nextNode s, \<lparr>nextTime = time s, nextInst = l\<rparr>)"
      using scheduledAt_wait[OF s'(2)] by (simp add: m unlinkO_filter)
    with s' show ?thesis by blast
  qed
  have e4: "\<exists>s'. executeLetPeopleOutIn s = Inr s' \<and>
       (\<forall>pre p post.
          stack (ele s) = pre @ p # post \<and> ?P p \<and> (\<forall>q \<in> set post. \<not> ?P q) \<longrightarrow>
          scheduledAt Elev1 25 ExecuteLetPeopleOutIn (triggerNow (UserGetOut (snd p)) ?s1) s' \<and>
          hd (wait s') = (nextNode s, \<lparr>nextTime = time s, nextInst = UserGetOut (snd p)\<rparr>)) \<and>
       ((\<forall>q \<in> set (stack (ele s)). \<not> ?P q) \<longrightarrow>
          (\<forall>p ps. queue (ele s) ! nat ?f = p # ps \<longrightarrow>
             scheduledAt Elev1 25 ExecuteLetPeopleOutIn (triggerNow (UserGetIn (snd p)) ?s1) s' \<and>
             hd (wait s') = (nextNode s, \<lparr>nextTime = time s, nextInst = UserGetIn (snd p)\<rparr>)) \<and>
          (queue (ele s) ! nat ?f = [] \<longrightarrow>
             s' = s\<lparr>ele := (ele s)\<lparr>step := stepLetPeopleOutIn, d1 := False, d3 := True\<rparr>\<rparr>))"
  proof (cases "find ?P (rev (stack (ele s)))")
    case (Some p)
    from again[of "UserGetOut (snd p)"] obtain s' where s':
      "scheduleElevator Elev1 25 ExecuteLetPeopleOutIn (triggerNow (UserGetOut (snd p)) ?s1) = Inr s'"
      "scheduledAt Elev1 25 ExecuteLetPeopleOutIn (triggerNow (UserGetOut (snd p)) ?s1) s'"
      "hd (wait s') = (nextNode s, \<lparr>nextTime = time s, nextInst = UserGetOut (snd p)\<rparr>)"
      by blast
    have ex: "executeLetPeopleOutIn s = Inr s'"
      using Some s'(1) by (simp add: executeLetPeopleOutIn_def Let_def wi)
    have uniq: "p' = p"
      if "stack (ele s) = pre @ p' # post" "?P p'" "\<forall>q \<in> set post. \<not> ?P q" for pre p' post
    proof -
      from that have "find ?P (rev (stack (ele s))) = Some p'" unfolding find_rev_Some by blast
      with Some show ?thesis by simp
    qed
    have some: "\<not> (\<forall>q \<in> set (stack (ele s)). \<not> ?P q)"
      using Some by (simp add: find_rev_None[symmetric])
    show ?thesis
      by (rule exI[of _ s']) (use ex s'(2,3) uniq some in blast)
  next
    case None
    then have none: "\<forall>q \<in> set (stack (ele s)). \<not> ?P q" by (simp add: find_rev_None)
    have nodec: "\<not> (stack (ele s) = pre @ p # post \<and> ?P p \<and> (\<forall>q \<in> set post. \<not> ?P q))"
      for pre p post
      using none by auto
    have at: "at (queue (ele s)) ?f = Inr (queue (ele s) ! nat ?f)"
      using sz assms(2,3) by simp
    show ?thesis
    proof (cases "queue (ele s) ! nat ?f")
      case Nil
      have "executeLetPeopleOutIn s =
          Inr (s\<lparr>ele := (ele s)\<lparr>step := stepLetPeopleOutIn, d1 := False, d3 := True\<rparr>\<rparr>)"
        using None Nil at by (simp add: executeLetPeopleOutIn_def Let_def)
      note ex = this
      have b: "\<forall>p ps. queue (ele s) ! nat ?f \<noteq> p # ps" using Nil by simp
      show ?thesis
        by (rule exI[of _ "s\<lparr>ele := (ele s)\<lparr>step := stepLetPeopleOutIn, d1 := False, d3 := True\<rparr>\<rparr>"])
           (use ex nodec b in blast)
    next
      case (Cons p ps)
      from again[of "UserGetIn (snd p)"] obtain s' where s':
        "scheduleElevator Elev1 25 ExecuteLetPeopleOutIn (triggerNow (UserGetIn (snd p)) ?s1) = Inr s'"
        "scheduledAt Elev1 25 ExecuteLetPeopleOutIn (triggerNow (UserGetIn (snd p)) ?s1) s'"
        "hd (wait s') = (nextNode s, \<lparr>nextTime = time s, nextInst = UserGetIn (snd p)\<rparr>)"
        by blast
      have ex: "executeLetPeopleOutIn s = Inr s'"
        using None Cons at s'(1) by (simp add: executeLetPeopleOutIn_def Let_def wi)
      have b: "\<forall>p' ps'. queue (ele s) ! nat ?f = p' # ps' \<longrightarrow> p' = p" using Cons by simp
      have c: "queue (ele s) ! nat ?f \<noteq> []" using Cons by simp
      show ?thesis
        by (rule exI[of _ s']) (use ex s'(2,3) nodec b c in blast)
    qed
  qed
  have u5: "\<exists>s'. userGetIn i s = Inr s' \<and> stack (ele s') = unlink a (stack (ele s)) @ [(a, i)]"
    if h: "listNode (users s i) = Some a" "giveUp (users s i) \<noteq> Some a" "elev2 (ele s) \<noteq> Some a"
      "\<forall>m \<in> set (stack (ele s)).
         Some (fst m) \<noteq> giveUp (users s i) \<and> Some (fst m) \<noteq> elev2 (ele s)"
      "0 \<le> out_u (users s i)" "out_u (users s i) < floors" for i a
  proof -
    let ?g = "giveUp (users s i)"
    let ?t2 = "delete ?g (delete (Some a) s)"
    let ?stk = "unlink a (stack (ele s)) @ [(a, i)]"
    let ?C = "(callCar (ele s))[nat (out_u (users s i)) := True]"
    let ?e4 = "(ele ?t2)\<lparr>stack := ?stk, callCar := ?C\<rparr>"
    have g: "unlinkO ?g (unlink a (stack (ele s))) = unlink a (stack (ele s))"
      using h(4) by (intro unlinkO_absent) (auto simp: unlink_def)
    have e2: "unlinkO (elev2 (ele s)) ?stk = ?stk"
      using h(3,4) by (intro unlinkO_absent) (auto simp: unlink_def)
    have eq: "userGetIn i s =
        (if state (ele s) = stateNeutral
         then scheduleElevator Elev2 25 ExecuteCloseDoors
                (?t2\<lparr>ele := ?e4\<lparr>state := (if out_u (users s i) > in_u (users s i)
                                            then stateGoingUp else stateGoingDown)\<rparr>\<rparr>)
         else Inr (?t2\<lparr>ele := ?e4\<rparr>))"
      using h(1,5,6) sz by (simp add: userGetIn_def Let_def insertLeft_def g)
    show ?thesis
    proof (cases "state (ele s) = stateNeutral")
      case False
      with eq show ?thesis by simp
    next
      case True
      let ?m = "?t2\<lparr>ele := ?e4\<lparr>state := (if out_u (users s i) > in_u (users s i)
                                            then stateGoingUp else stateGoingDown)\<rparr>\<rparr>"
      have t: "0 \<le> time ?m + 25 \<and> time ?m + 25 < 2 ^ 63"
        using assms(4,5) by (simp add: maxTime_def)
      have "stack (ele (scheduled Elev2 25 ExecuteCloseDoors ?m)) = ?stk"
        using e2 by (simp add: scheduled_frame(14)[OF t] getSlot_def)
      with eq True scheduleElevator_scheduled[OF t, of Elev2 ExecuteCloseDoors] show ?thesis
        by simp
    qed
  qed
  have u3: "\<exists>s'. userEnterQueue i s = Inr s' \<and>
              queue (ele s') ! nat (in_u (users s i)) =
                queue (ele s) ! nat (in_u (users s i)) @ [(nextNode s, i)]"
    if h: "0 \<le> in_u (users s i)" "in_u (users s i) < floors"
      "0 \<le> giveUpTime (users s i)" "giveUpTime (users s i) < maxGiveUpTime" for i
  proof -
    have wr: "wrap64 (time s + giveUpTime (users s i)) = time s + giveUpTime (users s i)"
      using assms(4,5) h(3,4) by (simp add: maxTime_def maxGiveUpTime_def)
    have w0: "0 \<le> time s + giveUpTime (users s i)" using assms(4) h(3) by simp
    have k: "nat (in_u (users s i)) < length (queue (ele s))" using sz h(1,2) by auto
    show ?thesis
      using h(1,2) sz k w0
      by (simp add: userEnterQueue_def Let_def wr waitSortIn_waitSorted waitSorted_frame
          insertLeft_def)
  qed
  from e4 u5 u3 show ?thesis by blast
qed


theorem letPeopleOutIn_order_witness:
  "(\<exists>s'. executeLetPeopleOutIn
       (newSimulator\<lparr>time := 100, nextNode := 8,
          users := (\<lambda>i. newUser i 0 (if i = 3 then 4 else 2) 300),
          wait := [(2, \<lparr>nextTime = 110, nextInst = UserGiveUp 4\<rparr>),
                   (3, \<lparr>nextTime = 400, nextInst = ExecuteSetInactionIndicator\<rparr>)],
          ele := newElevator\<lparr>stack := [(5, 1), (6, 2), (7, 3)], state := stateGoingUp,
                              elev1 := Some 4, elev3 := Some 3\<rparr>\<rparr>) = Inr s' \<and>
      wait s' = [(8, \<lparr>nextTime = 100, nextInst = UserGetOut 2\<rparr>),
                 (2, \<lparr>nextTime = 110, nextInst = UserGiveUp 4\<rparr>),
                 (9, \<lparr>nextTime = 125, nextInst = ExecuteLetPeopleOutIn\<rparr>),
                 (3, \<lparr>nextTime = 400, nextInst = ExecuteSetInactionIndicator\<rparr>)] \<and>
      elev1 (ele s') = Some 9) \<and>
   (\<exists>s'. userGetIn 3
       (newSimulator\<lparr>time := 100, nextNode := 8,
          users := (\<lambda>i. (newUser i 2 4 300)\<lparr>listNode := Some 7\<rparr>),
          ele := newElevator\<lparr>stack := [(5, 1), (6, 2)], state := stateGoingUp,
                              queue := [[], [], [(7, 3)], [], []]\<rparr>\<rparr>) = Inr s' \<and>
      stack (ele s') = [(5, 1), (6, 2), (7, 3)]) \<and>
   (\<exists>s'. userEnterQueue 3
       (newSimulator\<lparr>time := 100, nextNode := 8,
          users := (\<lambda>i. newUser i 2 4 300),
          ele := newElevator\<lparr>queue := [[], [], [(5, 1)], [], []]\<rparr>\<rparr>) = Inr s' \<and>
      queue (ele s') ! 2 = [(5, 1), (8, 3)])"
proof -
  let ?a = "newSimulator\<lparr>time := 100, nextNode := 8,
          users := (\<lambda>i. newUser i 0 (if i = 3 then 4 else 2) 300),
          wait := [(2, \<lparr>nextTime = 110, nextInst = UserGiveUp 4\<rparr>),
                   (3, \<lparr>nextTime = 400, nextInst = ExecuteSetInactionIndicator\<rparr>)],
          ele := newElevator\<lparr>stack := [(5, 1), (6, 2), (7, 3)], state := stateGoingUp,
                              elev1 := Some 4, elev3 := Some 3\<rparr>\<rparr>"
  let ?b = "newSimulator\<lparr>time := 100, nextNode := 8,
          users := (\<lambda>i. (newUser i 2 4 300)\<lparr>listNode := Some 7\<rparr>),
          ele := newElevator\<lparr>stack := [(5, 1), (6, 2)], state := stateGoingUp,
                              queue := [[], [], [(7, 3)], [], []]\<rparr>\<rparr>"
  let ?c = "newSimulator\<lparr>time := 100, nextNode := 8,
          users := (\<lambda>i. newUser i 2 4 300),
          ele := newElevator\<lparr>queue := [[], [], [(5, 1)], [], []]\<rparr>\<rparr>"
  note defs = newSimulator_def newElevator_def newUser_def floors_def floorHome_def maxTime_def
    maxGiveUpTime_def
  have ha: "wellSized (ele ?a)" "0 \<le> floor_e (ele ?a)" "floor_e (ele ?a) < floors"
    "0 \<le> time ?a" "time ?a < maxTime" "sorted (times (wait ?a))"
    "\<forall>n \<in> set (wait ?a). time ?a \<le> nextTime (snd n)" "allocated ?a"
    by (simp_all add: wellSized_def defs times_def allocated_def getSlot_def split: slot.split)
  have hb: "wellSized (ele ?b)" "0 \<le> floor_e (ele ?b)" "floor_e (ele ?b) < floors"
    "0 \<le> time ?b" "time ?b < maxTime" "sorted (times (wait ?b))"
    "\<forall>n \<in> set (wait ?b). time ?b \<le> nextTime (snd n)" "allocated ?b"
    by (simp_all add: wellSized_def defs times_def allocated_def getSlot_def split: slot.split)
  have hc: "wellSized (ele ?c)" "0 \<le> floor_e (ele ?c)" "floor_e (ele ?c) < floors"
    "0 \<le> time ?c" "time ?c < maxTime" "sorted (times (wait ?c))"
    "\<forall>n \<in> set (wait ?c). time ?c \<le> nextTime (snd n)" "allocated ?c"
    by (simp_all add: wellSized_def defs times_def allocated_def getSlot_def split: slot.split)
  have pa: "stack (ele ?a) = [(5, 1)] @ (6, 2) # [(7, 3)] \<and>
      out_u (users ?a (snd (6::nat, 2::nat))) = floor_e (ele ?a) \<and>
      (\<forall>q \<in> set [(7::nat, 3::nat)]. out_u (users ?a (snd q)) \<noteq> floor_e (ele ?a))"
    by (simp add: defs)
  have pb: "listNode (users ?b 3) = Some 7 \<and> giveUp (users ?b 3) \<noteq> Some 7 \<and>
      elev2 (ele ?b) \<noteq> Some 7 \<and>
      (\<forall>m \<in> set (stack (ele ?b)).
         Some (fst m) \<noteq> giveUp (users ?b 3) \<and> Some (fst m) \<noteq> elev2 (ele ?b)) \<and>
      0 \<le> out_u (users ?b 3) \<and> out_u (users ?b 3) < floors"
    by (simp add: defs)
  have pc: "0 \<le> in_u (users ?c 3) \<and> in_u (users ?c 3) < floors \<and>
      0 \<le> giveUpTime (users ?c 3) \<and> giveUpTime (users ?c 3) < maxGiveUpTime"
    by (simp add: defs)
  from letPeopleOutIn_order[OF ha, THEN conjunct1] obtain sa where
    sa: "executeLetPeopleOutIn ?a = Inr sa"
      "\<forall>pre p post.
          stack (ele ?a) = pre @ p # post \<and> out_u (users ?a (snd p)) = floor_e (ele ?a) \<and>
          (\<forall>q \<in> set post. out_u (users ?a (snd q)) \<noteq> floor_e (ele ?a)) \<longrightarrow>
          scheduledAt Elev1 25 ExecuteLetPeopleOutIn
            (triggerNow (UserGetOut (snd p)) (?a\<lparr>ele := (ele ?a)\<lparr>step := stepLetPeopleOutIn\<rparr>\<rparr>)) sa \<and>
          hd (wait sa) = (nextNode ?a, \<lparr>nextTime = time ?a, nextInst = UserGetOut (snd p)\<rparr>)"
    by blast
  from sa(2)[rule_format, OF pa]
  have sa2: "scheduledAt Elev1 25 ExecuteLetPeopleOutIn
      (triggerNow (UserGetOut 2) (?a\<lparr>ele := (ele ?a)\<lparr>step := stepLetPeopleOutIn\<rparr>\<rparr>)) sa"
    by simp
  have wa: "wait sa = [(8, \<lparr>nextTime = 100, nextInst = UserGetOut 2\<rparr>),
                 (2, \<lparr>nextTime = 110, nextInst = UserGiveUp 4\<rparr>),
                 (9, \<lparr>nextTime = 125, nextInst = ExecuteLetPeopleOutIn\<rparr>),
                 (3, \<lparr>nextTime = 400, nextInst = ExecuteSetInactionIndicator\<rparr>)]"
    "elev1 (ele sa) = Some 9"
    using scheduledAt_wait[OF sa2] scheduledAt_handed[OF sa2]
    by (simp_all add: handed_def triggerNow_def defs getSlot_def unlink_def)
  from letPeopleOutIn_order[OF hb, THEN conjunct2, THEN conjunct1, rule_format, OF pb]
  obtain sb where sb: "userGetIn 3 ?b = Inr sb"
    "stack (ele sb) = unlink 7 (stack (ele ?b)) @ [(7, 3)]"
    by blast
  have wb: "stack (ele sb) = [(5, 1), (6, 2), (7, 3)]"
    by (simp add: sb(2) defs unlink_def)
  from letPeopleOutIn_order[OF hc, THEN conjunct2, THEN conjunct2, rule_format, OF pc]
  obtain sc where sc: "userEnterQueue 3 ?c = Inr sc"
    "queue (ele sc) ! nat (in_u (users ?c 3)) =
       queue (ele ?c) ! nat (in_u (users ?c 3)) @ [(nextNode ?c, 3)]"
    by blast
  have wc: "queue (ele sc) ! 2 = [(5, 1), (8, 3)]"
    using sc(2) by (simp add: defs eval_nat_numeral)
  from sa(1) wa sb(1) wb sc(1) wc show ?thesis by blast
qed

section \<open>A run\<close>

text \<open>
  The run of one rider, who arrives at the home floor for floor 4 while the next arrival is 899
  away: the elevator opens, takes the rider up, comes back home and goes dormant, and the
  watchdog E9 fires in the dormant state. Four of its states are used below.
\<close>

lemma turns_reachable:
  "reachable s \<Longrightarrow> valid_draws d \<Longrightarrow> turns k d s = Running s' \<Longrightarrow> reachable s'"
proof (induction k arbitrary: s)
  case 0
  then show ?case by simp
next
  case (Suc k)
  from Suc.prems(3) obtain m where m: "mainStep d s = Running m" "turns k d m = Running s'"
    by (auto split: outcome.splits)
  from reachable_step[OF Suc.prems(1,2) m(1)] have "reachable m" .
  from Suc.IH[OF this Suc.prems(2) m(2)] show ?case .
qed

lemmas run_defs = mainStep_def Let_def userEnterPrepareForSuccessor_def userSignalAndWait_def
  userEnterQueue_def userGiveUp_def userGetIn_def userGetOut_def
  executeWaitForCall_def executeChangeOfState_def executeOpenDoors_def executeLetPeopleOutIn_def
  executeCloseDoors_def executePrepareToMove_def executeGoUpAFloor_def executeGoUpAFloor2_def
  executeGoDownAFloor_def executeGoDownAFloor2_def executeSetInactionIndicator_def
  decision_def decisionD4_def callsUCD_def callsUDC_def clearCalls_def
  isAllCallsAboveFalse_def isAllCallsBelowFalse_def orE_def andE_def at_def put_def bindE_def
  scheduleElevator_def scheduleElevatorImmediately_def delete_def getSlot_def setSlot_def
  waitSortIn_def sortIn_eq times_def waitImmed_def immed_def insertRight_def insertLeft_def
  unlink_def newSimulator_def newElevator_def newUser_def
  minInterTime_def minGiveUpTime_def maxTime_def floors_def floorHome_def eval_nat_numeral
  upto.simps

lemma run_draws: "valid_draws \<lparr>rIn = 2, rOut = 3, rGiveUp = 0, rInter = 889\<rparr>"
  by (simp add: valid_draws_def floors_def maxGiveUpTime_def minGiveUpTime_def maxInterTime_def
      minInterTime_def)

lemma run_0:
  "userEnterPrepareForSuccessor \<lparr>rIn = 2, rOut = 3, rGiveUp = 0, rInter = 889\<rparr> newSimulator =
     Inr (newSimulator\<lparr>userID := 1,
            wait := [(1, \<lparr>nextTime = 0, nextInst = UserSignalAndWait 1\<rparr>),
                     (0, \<lparr>nextTime = 899, nextInst = UserEnterPrepareForSuccessor\<rparr>)],
            users := (\<lambda>i. newUser i 0 0 0)(1 := newUser 1 2 4 300), nextNode := 2\<rparr>)"
  by (simp add: run_defs)

lemma run_4:
  "turns 4 \<lparr>rIn = 2, rOut = 3, rGiveUp = 0, rInter = 889\<rparr>
     (newSimulator\<lparr>userID := 1,
        wait := [(1, \<lparr>nextTime = 0, nextInst = UserSignalAndWait 1\<rparr>),
                 (0, \<lparr>nextTime = 899, nextInst = UserEnterPrepareForSuccessor\<rparr>)],
        users := (\<lambda>i. newUser i 0 0 0)(1 := newUser 1 2 4 300), nextNode := 2\<rparr>) =
   Running (newSimulator\<lparr>time := 40, userID := 1,
      ele := newElevator\<lparr>callUp := [False, False, True, False, False], d1 := True, d2 := True,
               step := stepLetPeopleOutIn, elev1 := Some 10, elev2 := Some 7, elev3 := Some 6,
               queue := [[], [], [(4, 1)], [], []]\<rparr>,
      wait := [(9, \<lparr>nextTime = 40, nextInst = UserGetIn 1\<rparr>),
               (10, \<lparr>nextTime = 65, nextInst = ExecuteLetPeopleOutIn\<rparr>),
               (7, \<lparr>nextTime = 96, nextInst = ExecuteCloseDoors\<rparr>),
               (5, \<lparr>nextTime = 300, nextInst = UserGiveUp 1\<rparr>),
               (6, \<lparr>nextTime = 320, nextInst = ExecuteSetInactionIndicator\<rparr>),
               (0, \<lparr>nextTime = 899, nextInst = UserEnterPrepareForSuccessor\<rparr>)],
      users := (\<lambda>i. newUser i 0 0 0)
                 (1 := (newUser 1 2 4 300)\<lparr>listNode := Some 4, giveUp := Some 5\<rparr>),
      nextNode := 11\<rparr>)"
  by (simp add: run_defs)

lemma run_10:
  "turns 6 \<lparr>rIn = 2, rOut = 3, rGiveUp = 0, rInter = 889\<rparr>
     (newSimulator\<lparr>time := 40, userID := 1,
      ele := newElevator\<lparr>callUp := [False, False, True, False, False], d1 := True, d2 := True,
               step := stepLetPeopleOutIn, elev1 := Some 10, elev2 := Some 7, elev3 := Some 6,
               queue := [[], [], [(4, 1)], [], []]\<rparr>,
      wait := [(9, \<lparr>nextTime = 40, nextInst = UserGetIn 1\<rparr>),
               (10, \<lparr>nextTime = 65, nextInst = ExecuteLetPeopleOutIn\<rparr>),
               (7, \<lparr>nextTime = 96, nextInst = ExecuteCloseDoors\<rparr>),
               (5, \<lparr>nextTime = 300, nextInst = UserGiveUp 1\<rparr>),
               (6, \<lparr>nextTime = 320, nextInst = ExecuteSetInactionIndicator\<rparr>),
               (0, \<lparr>nextTime = 899, nextInst = UserEnterPrepareForSuccessor\<rparr>)],
      users := (\<lambda>i. newUser i 0 0 0)
                 (1 := (newUser 1 2 4 300)\<lparr>listNode := Some 4, giveUp := Some 5\<rparr>),
      nextNode := 11\<rparr>) =
   Running (newSimulator\<lparr>time := 151, userID := 1,
      ele := newElevator\<lparr>callCar := [False, False, False, False, True], floor_e := 3,
               d2 := True, state := stateGoingUp, step := stepGoUpAFloor,
               elev1 := Some 15, elev2 := Some 11, elev3 := Some 6, stack := [(4, 1)]\<rparr>,
      wait := [(15, \<lparr>nextTime = 151, nextInst = ExecuteGoUpAFloor\<rparr>),
               (0, \<lparr>nextTime = 899, nextInst = UserEnterPrepareForSuccessor\<rparr>)],
      users := (\<lambda>i. newUser i 0 0 0)
                 (1 := (newUser 1 2 4 300)\<lparr>listNode := Some 4, giveUp := Some 5\<rparr>),
      nextNode := 16\<rparr>)"
  by (simp add: run_defs)

lemma run_11:
  "turns 1 \<lparr>rIn = 2, rOut = 3, rGiveUp = 0, rInter = 889\<rparr>
     (newSimulator\<lparr>time := 151, userID := 1,
      ele := newElevator\<lparr>callCar := [False, False, False, False, True], floor_e := 3,
               d2 := True, state := stateGoingUp, step := stepGoUpAFloor,
               elev1 := Some 15, elev2 := Some 11, elev3 := Some 6, stack := [(4, 1)]\<rparr>,
      wait := [(15, \<lparr>nextTime = 151, nextInst = ExecuteGoUpAFloor\<rparr>),
               (0, \<lparr>nextTime = 899, nextInst = UserEnterPrepareForSuccessor\<rparr>)],
      users := (\<lambda>i. newUser i 0 0 0)
                 (1 := (newUser 1 2 4 300)\<lparr>listNode := Some 4, giveUp := Some 5\<rparr>),
      nextNode := 16\<rparr>) =
   Running (newSimulator\<lparr>time := 151, userID := 1,
      ele := newElevator\<lparr>callCar := [False, False, False, False, True], floor_e := 4,
               d2 := True, state := stateGoingUp, step := stepGoUpAFloor,
               elev1 := Some 16, elev2 := Some 11, elev3 := Some 6, stack := [(4, 1)]\<rparr>,
      wait := [(16, \<lparr>nextTime = 202, nextInst = ExecuteGoUpAFloor2\<rparr>),
               (0, \<lparr>nextTime = 899, nextInst = UserEnterPrepareForSuccessor\<rparr>)],
      users := (\<lambda>i. newUser i 0 0 0)
                 (1 := (newUser 1 2 4 300)\<lparr>listNode := Some 4, giveUp := Some 5\<rparr>),
      nextNode := 17\<rparr>)"
  by (simp add: run_defs)

lemma run_29:
  "turns 18 \<lparr>rIn = 2, rOut = 3, rGiveUp = 0, rInter = 889\<rparr>
     (newSimulator\<lparr>time := 151, userID := 1,
      ele := newElevator\<lparr>callCar := [False, False, False, False, True], floor_e := 4,
               d2 := True, state := stateGoingUp, step := stepGoUpAFloor,
               elev1 := Some 16, elev2 := Some 11, elev3 := Some 6, stack := [(4, 1)]\<rparr>,
      wait := [(16, \<lparr>nextTime = 202, nextInst = ExecuteGoUpAFloor2\<rparr>),
               (0, \<lparr>nextTime = 899, nextInst = UserEnterPrepareForSuccessor\<rparr>)],
      users := (\<lambda>i. newUser i 0 0 0)
                 (1 := (newUser 1 2 4 300)\<lparr>listNode := Some 4, giveUp := Some 5\<rparr>),
      nextNode := 17\<rparr>) =
   Running (newSimulator\<lparr>time := 568, userID := 1,
      ele := newElevator\<lparr>d2 := True, elev1 := Some 35, elev2 := Some 32, elev3 := Some 31\<rparr>,
      wait := [(31, \<lparr>nextTime = 772, nextInst = ExecuteSetInactionIndicator\<rparr>),
               (0, \<lparr>nextTime = 899, nextInst = UserEnterPrepareForSuccessor\<rparr>)],
      users := (\<lambda>i. newUser i 0 0 0)
                 (1 := (newUser 1 2 4 300)\<lparr>listNode := Some 4, giveUp := Some 5\<rparr>),
      nextNode := 36\<rparr>)"
  by (simp add: run_defs)

lemmas run_4_reachable =
  turns_reachable[OF reachable_init[OF run_draws run_0] run_draws run_4]

lemmas run_10_reachable = turns_reachable[OF run_4_reachable run_draws run_10]

lemmas run_11_reachable = turns_reachable[OF run_10_reachable run_draws run_11]

lemmas run_29_reachable = turns_reachable[OF run_11_reachable run_draws run_29]

section \<open>The properties of a whole run\<close>

lemma decision_frame:
  assumes "struct s" "wellSized (ele s)"
  shows "\<exists>s'. decision s = Inr s' \<and> step (ele s') = step (ele s) \<and> d2 (ele s') = d2 (ele s) \<and>
           d1 (ele s') = d1 (ele s) \<and> d3 (ele s') = d3 (ele s) \<and>
           floor_e (ele s') = floor_e (ele s) \<and> callUp (ele s') = callUp (ele s) \<and>
           callDown (ele s') = callDown (ele s) \<and> callCar (ele s') = callCar (ele s)"
  using assms
proof (cases rule: decision_result)
  case same
  then show ?thesis by simp
next
  case opens
  then show ?thesis using assms(1) by (simp add: scheduled_fr)
next
  case (go j)
  then show ?thesis by simp
next
  case (wake j)
  let ?m = "s\<lparr>ele := (ele s)\<lparr>state := (if floor_e (ele s) > j then stateGoingDown else stateGoingUp)\<rparr>\<rparr>"
  have "struct ?m" using assms(1) by (simp add: struct_ele_upd)
  from scheduled_fr[OF this, of 20] wake(7) show ?thesis by simp
next
  case home
  then show ?thesis by simp
qed




text \<open>
  Claim C1. The WAIT list of every state a run passes through is sorted by \<^verbatim>\<open>nextTime\<close>,
  and none of its entries is due before the clock. On a sorted list \<open>xs\<close>, \<^verbatim>\<open>sortIn\<close> (for a
  time that is not negative, as all times of a run are) returns, and puts the new entry behind
  every entry due at the same time or earlier and before every entry due later, so that entries
  of equal time stay in the order of their insertion; \<^verbatim>\<open>immed\<close> puts the new entry first,
  before the entries of equal time too; and the list stays sorted after \<^verbatim>\<open>sortIn\<close>, after
  \<^verbatim>\<open>immed\<close> of an entry due no later than the others (as one due at the clock is), after
  \<^verbatim>\<open>delete\<close> of a node and after the pop of the first entry.
\<close>

theorem wait_sorted:
  assumes "reachable s" and "sorted (times xs)" and "0 \<le> nextTime w"
    and "\<forall>m \<in> set xs. nextTime v \<le> nextTime (snd m)"
  shows "sorted (times (wait s)) \<and> (\<forall>m \<in> set (wait s). time s \<le> nextTime (snd m)) \<and>
     sortIn w a xs =
       Some (takeWhile (\<lambda>m. nextTime (snd m) \<le> nextTime w) xs @ (a, w) #
             dropWhile (\<lambda>m. nextTime (snd m) \<le> nextTime w) xs) \<and>
     sorted (times (takeWhile (\<lambda>m. nextTime (snd m) \<le> nextTime w) xs @ (a, w) #
                    dropWhile (\<lambda>m. nextTime (snd m) \<le> nextTime w) xs)) \<and>
     immed v a xs = (a, v) # xs \<and> sorted (times (immed v a xs)) \<and>
     sorted (times (unlink b xs)) \<and> sorted (times (tl xs))"
proof -
  from reachable_inv[OF assms(1)] have "struct s" by (simp add: inv_def)
  note d = structD[OF this]
  from sortIn_place[OF assms(2,3), of a] obtain ys where ys: "sortIn w a xs = Some ys"
    "sortedIn w a xs ys" "sorted (times ys)"
    by blast
  note tw = sortedIn_takeWhile[OF ys(2)]
  have 2: "sortIn w a xs =
       Some (takeWhile (\<lambda>m. nextTime (snd m) \<le> nextTime w) xs @ (a, w) #
             dropWhile (\<lambda>m. nextTime (snd m) \<le> nextTime w) xs)"
    using ys(1) tw by simp
  have 3: "sorted (times (takeWhile (\<lambda>m. nextTime (snd m) \<le> nextTime w) xs @ (a, w) #
                    dropWhile (\<lambda>m. nextTime (snd m) \<le> nextTime w) xs))"
    using ys(3) tw by simp
  have 4: "immed v a xs = (a, v) # xs" by (simp add: immed_def insertRight_def)
  have 5: "sorted (times (immed v a xs))" using assms(2,4) by (simp add: 4 times_def)
  have 6: "sorted (times (unlink b xs))"
    using times_unlinkO_sorted[OF assms(2), of "Some b"] by (simp add: unlinkO_def)
  have 7: "sorted (times (tl xs))" using assms(2) by (cases xs) (simp_all add: times_def)
  from d(2,3) 2 3 4 5 6 7 show ?thesis by blast
qed

theorem wait_sorted_witness:
  "sorted (times (wait
     (newSimulator\<lparr>time := 40, userID := 1,
      ele := newElevator\<lparr>callUp := [False, False, True, False, False], d1 := True, d2 := True,
               step := stepLetPeopleOutIn, elev1 := Some 10, elev2 := Some 7, elev3 := Some 6,
               queue := [[], [], [(4, 1)], [], []]\<rparr>,
      wait := [(9, \<lparr>nextTime = 40, nextInst = UserGetIn 1\<rparr>),
               (10, \<lparr>nextTime = 65, nextInst = ExecuteLetPeopleOutIn\<rparr>),
               (7, \<lparr>nextTime = 96, nextInst = ExecuteCloseDoors\<rparr>),
               (5, \<lparr>nextTime = 300, nextInst = UserGiveUp 1\<rparr>),
               (6, \<lparr>nextTime = 320, nextInst = ExecuteSetInactionIndicator\<rparr>),
               (0, \<lparr>nextTime = 899, nextInst = UserEnterPrepareForSuccessor\<rparr>)],
      users := (\<lambda>i. newUser i 0 0 0)
                 (1 := (newUser 1 2 4 300)\<lparr>listNode := Some 4, giveUp := Some 5\<rparr>),
      nextNode := 11\<rparr>))) \<and>
   sortIn \<lparr>nextTime = 65, nextInst = UserGiveUp 2\<rparr> 11
      [(9, \<lparr>nextTime = 40, nextInst = UserGetIn 1\<rparr>),
       (10, \<lparr>nextTime = 65, nextInst = ExecuteLetPeopleOutIn\<rparr>),
       (7, \<lparr>nextTime = 96, nextInst = ExecuteCloseDoors\<rparr>),
       (5, \<lparr>nextTime = 300, nextInst = UserGiveUp 1\<rparr>),
       (6, \<lparr>nextTime = 320, nextInst = ExecuteSetInactionIndicator\<rparr>),
       (0, \<lparr>nextTime = 899, nextInst = UserEnterPrepareForSuccessor\<rparr>)] =
     Some [(9, \<lparr>nextTime = 40, nextInst = UserGetIn 1\<rparr>),
           (10, \<lparr>nextTime = 65, nextInst = ExecuteLetPeopleOutIn\<rparr>),
           (11, \<lparr>nextTime = 65, nextInst = UserGiveUp 2\<rparr>),
           (7, \<lparr>nextTime = 96, nextInst = ExecuteCloseDoors\<rparr>),
           (5, \<lparr>nextTime = 300, nextInst = UserGiveUp 1\<rparr>),
           (6, \<lparr>nextTime = 320, nextInst = ExecuteSetInactionIndicator\<rparr>),
           (0, \<lparr>nextTime = 899, nextInst = UserEnterPrepareForSuccessor\<rparr>)] \<and>
   immed \<lparr>nextTime = 40, nextInst = UserGetOut 1\<rparr> 11
      [(9, \<lparr>nextTime = 40, nextInst = UserGetIn 1\<rparr>),
       (10, \<lparr>nextTime = 65, nextInst = ExecuteLetPeopleOutIn\<rparr>),
       (7, \<lparr>nextTime = 96, nextInst = ExecuteCloseDoors\<rparr>),
       (5, \<lparr>nextTime = 300, nextInst = UserGiveUp 1\<rparr>),
       (6, \<lparr>nextTime = 320, nextInst = ExecuteSetInactionIndicator\<rparr>),
       (0, \<lparr>nextTime = 899, nextInst = UserEnterPrepareForSuccessor\<rparr>)] =
     [(11, \<lparr>nextTime = 40, nextInst = UserGetOut 1\<rparr>),
      (9, \<lparr>nextTime = 40, nextInst = UserGetIn 1\<rparr>),
      (10, \<lparr>nextTime = 65, nextInst = ExecuteLetPeopleOutIn\<rparr>),
      (7, \<lparr>nextTime = 96, nextInst = ExecuteCloseDoors\<rparr>),
      (5, \<lparr>nextTime = 300, nextInst = UserGiveUp 1\<rparr>),
      (6, \<lparr>nextTime = 320, nextInst = ExecuteSetInactionIndicator\<rparr>),
      (0, \<lparr>nextTime = 899, nextInst = UserEnterPrepareForSuccessor\<rparr>)] \<and>
   sorted (times (unlink 7
      [(9, \<lparr>nextTime = 40, nextInst = UserGetIn 1\<rparr>),
       (10, \<lparr>nextTime = 65, nextInst = ExecuteLetPeopleOutIn\<rparr>),
       (7, \<lparr>nextTime = 96, nextInst = ExecuteCloseDoors\<rparr>),
       (5, \<lparr>nextTime = 300, nextInst = UserGiveUp 1\<rparr>),
       (6, \<lparr>nextTime = 320, nextInst = ExecuteSetInactionIndicator\<rparr>),
       (0, \<lparr>nextTime = 899, nextInst = UserEnterPrepareForSuccessor\<rparr>)])) \<and>
   sorted (times (tl
      [(9, \<lparr>nextTime = 40, nextInst = UserGetIn 1\<rparr>),
       (10, \<lparr>nextTime = 65, nextInst = ExecuteLetPeopleOutIn\<rparr>),
       (7, \<lparr>nextTime = 96, nextInst = ExecuteCloseDoors\<rparr>),
       (5, \<lparr>nextTime = 300, nextInst = UserGiveUp 1\<rparr>),
       (6, \<lparr>nextTime = 320, nextInst = ExecuteSetInactionIndicator\<rparr>),
       (0, \<lparr>nextTime = 899, nextInst = UserEnterPrepareForSuccessor\<rparr>)]))"
proof -
  let ?s = "(newSimulator\<lparr>time := 40, userID := 1,
      ele := newElevator\<lparr>callUp := [False, False, True, False, False], d1 := True, d2 := True,
               step := stepLetPeopleOutIn, elev1 := Some 10, elev2 := Some 7, elev3 := Some 6,
               queue := [[], [], [(4, 1)], [], []]\<rparr>,
      wait := [(9, \<lparr>nextTime = 40, nextInst = UserGetIn 1\<rparr>),
               (10, \<lparr>nextTime = 65, nextInst = ExecuteLetPeopleOutIn\<rparr>),
               (7, \<lparr>nextTime = 96, nextInst = ExecuteCloseDoors\<rparr>),
               (5, \<lparr>nextTime = 300, nextInst = UserGiveUp 1\<rparr>),
               (6, \<lparr>nextTime = 320, nextInst = ExecuteSetInactionIndicator\<rparr>),
               (0, \<lparr>nextTime = 899, nextInst = UserEnterPrepareForSuccessor\<rparr>)],
      users := (\<lambda>i. newUser i 0 0 0)
                 (1 := (newUser 1 2 4 300)\<lparr>listNode := Some 4, giveUp := Some 5\<rparr>),
      nextNode := 11\<rparr>)"
  let ?xs = "[(9, \<lparr>nextTime = 40, nextInst = UserGetIn 1\<rparr>),
       (10, \<lparr>nextTime = 65, nextInst = ExecuteLetPeopleOutIn\<rparr>),
       (7, \<lparr>nextTime = 96, nextInst = ExecuteCloseDoors\<rparr>),
       (5, \<lparr>nextTime = 300, nextInst = UserGiveUp 1\<rparr>),
       (6, \<lparr>nextTime = 320, nextInst = ExecuteSetInactionIndicator\<rparr>),
       (0, \<lparr>nextTime = 899, nextInst = UserEnterPrepareForSuccessor\<rparr>)]"
  let ?w = "\<lparr>nextTime = 65, nextInst = UserGiveUp 2\<rparr>"
  let ?v = "\<lparr>nextTime = 40, nextInst = UserGetOut 1\<rparr>"
  have a: "sorted (times ?xs)" by (simp add: times_def)
  have c: "0 \<le> nextTime ?w" by simp
  have b: "\<forall>m \<in> set ?xs. nextTime ?v \<le> nextTime (snd m)" by simp
  note t = wait_sorted[OF run_4_reachable a c b, of 11 7]
  from t have 1: "sorted (times (wait ?s))" by blast
  from t have "sortIn ?w 11 ?xs =
       Some (takeWhile (\<lambda>m. nextTime (snd m) \<le> nextTime ?w) ?xs @ (11, ?w) #
             dropWhile (\<lambda>m. nextTime (snd m) \<le> nextTime ?w) ?xs)"
    by blast
  then have 2: "sortIn ?w 11 ?xs =
     Some [(9, \<lparr>nextTime = 40, nextInst = UserGetIn 1\<rparr>),
           (10, \<lparr>nextTime = 65, nextInst = ExecuteLetPeopleOutIn\<rparr>),
           (11, \<lparr>nextTime = 65, nextInst = UserGiveUp 2\<rparr>),
           (7, \<lparr>nextTime = 96, nextInst = ExecuteCloseDoors\<rparr>),
           (5, \<lparr>nextTime = 300, nextInst = UserGiveUp 1\<rparr>),
           (6, \<lparr>nextTime = 320, nextInst = ExecuteSetInactionIndicator\<rparr>),
           (0, \<lparr>nextTime = 899, nextInst = UserEnterPrepareForSuccessor\<rparr>)]"
    by simp
  from t have 3: "immed ?v 11 ?xs = (11, ?v) # ?xs" by blast
  from t have 4: "sorted (times (unlink 7 ?xs))" by blast
  from t have 5: "sorted (times (tl ?xs))" by blast
  from 1 2 3 4 5 show ?thesis by blast
qed



text \<open>
  Claim C10. The step is never that of E9 in a state of a run. When E9 is the first entry of
  the WAIT list of such a state (due before \<^verbatim>\<open>maxTime\<close>), the turn of the main loop that
  fires it returns the state that the decision subroutine returns for the state with the entry
  taken, the clock at its time and D2 false, and with nothing else changed: the step that the
  subroutine tests is the one the elevator had before (E1 when it is dormant). In the state the
  turn leaves, the step is the same, D2 is false, and D1, D3, the floor and the call registers
  are unchanged.
\<close>

theorem setInactionIndicator_frame:
  assumes "reachable s"
  shows "step (ele s) \<noteq> stepSetInactionIndicator \<and>
     (\<forall>n rest d. wait s = n # rest \<and> nextInst (snd n) = ExecuteSetInactionIndicator \<and>
        nextTime (snd n) < maxTime \<longrightarrow>
        (\<exists>s'. mainStep d s = Running s' \<and>
           decision (s\<lparr>wait := rest, time := nextTime (snd n),
                       ele := (ele s)\<lparr>d2 := False\<rparr>\<rparr>) = Inr s' \<and>
           step (ele s') = step (ele s) \<and> step (ele s') \<noteq> stepSetInactionIndicator \<and>
           \<not> d2 (ele s') \<and> d1 (ele s') = d1 (ele s) \<and> d3 (ele s') = d3 (ele s) \<and>
           floor_e (ele s') = floor_e (ele s) \<and> callUp (ele s') = callUp (ele s) \<and>
           callDown (ele s') = callDown (ele s) \<and> callCar (ele s') = callCar (ele s)))"
proof -
  from reachable_inv[OF assms(1)] have i: "struct s" "elevP (ele s) (pend1 s) (pend2 s)"
    by (simp_all add: inv_def elevOK_def)
  note d = elevP_D[OF i(2)]
  have fire: "\<exists>s'. mainStep dr s = Running s' \<and>
           decision (s\<lparr>wait := rest, time := nextTime (snd n),
                       ele := (ele s)\<lparr>d2 := False\<rparr>\<rparr>) = Inr s' \<and>
           step (ele s') = step (ele s) \<and> step (ele s') \<noteq> stepSetInactionIndicator \<and>
           \<not> d2 (ele s') \<and> d1 (ele s') = d1 (ele s) \<and> d3 (ele s') = d3 (ele s) \<and>
           floor_e (ele s') = floor_e (ele s) \<and> callUp (ele s') = callUp (ele s) \<and>
           callDown (ele s') = callDown (ele s) \<and> callCar (ele s') = callCar (ele s)"
    if h: "wait s = n # rest" "nextInst (snd n) = ExecuteSetInactionIndicator"
      "nextTime (snd n) < maxTime" for n rest dr
  proof -
    let ?m = "s\<lparr>wait := rest, time := nextTime (snd n), ele := (ele s)\<lparr>d2 := False\<rparr>\<rparr>"
    have "struct (s\<lparr>wait := rest, time := nextTime (snd n)\<rparr>)"
      by (rule struct_pop[OF i(1) h(1,3)])
    then have st: "struct ?m" by (simp add: struct_ele_upd)
    have ws: "wellSized (ele ?m)" using d(1) by (simp add: wellSized_def)
    from decision_frame[OF st ws] obtain s' where s': "decision ?m = Inr s'"
      "step (ele s') = step (ele s)" "d2 (ele s') = False" "d1 (ele s') = d1 (ele s)"
      "d3 (ele s') = d3 (ele s)" "floor_e (ele s') = floor_e (ele s)"
      "callUp (ele s') = callUp (ele s)" "callDown (ele s') = callDown (ele s)"
      "callCar (ele s') = callCar (ele s)"
      by auto
    have "mainStep dr s = Running s'"
      using h s'(1) by (simp add: mainStep_def Let_def executeSetInactionIndicator_def)
    with s' d(12) show ?thesis by simp
  qed
  from d(12) fire show ?thesis by blast
qed

theorem setInactionIndicator_frame_witness:
  "step (ele
     (newSimulator\<lparr>time := 568, userID := 1,
      ele := newElevator\<lparr>d2 := True, elev1 := Some 35, elev2 := Some 32, elev3 := Some 31\<rparr>,
      wait := [(31, \<lparr>nextTime = 772, nextInst = ExecuteSetInactionIndicator\<rparr>),
               (0, \<lparr>nextTime = 899, nextInst = UserEnterPrepareForSuccessor\<rparr>)],
      users := (\<lambda>i. newUser i 0 0 0)
                 (1 := (newUser 1 2 4 300)\<lparr>listNode := Some 4, giveUp := Some 5\<rparr>),
      nextNode := 36\<rparr>)) = stepWaitForCall \<and>
   (\<exists>s'. mainStep \<lparr>rIn = 2, rOut = 3, rGiveUp = 0, rInter = 889\<rparr>
     (newSimulator\<lparr>time := 568, userID := 1,
      ele := newElevator\<lparr>d2 := True, elev1 := Some 35, elev2 := Some 32, elev3 := Some 31\<rparr>,
      wait := [(31, \<lparr>nextTime = 772, nextInst = ExecuteSetInactionIndicator\<rparr>),
               (0, \<lparr>nextTime = 899, nextInst = UserEnterPrepareForSuccessor\<rparr>)],
      users := (\<lambda>i. newUser i 0 0 0)
                 (1 := (newUser 1 2 4 300)\<lparr>listNode := Some 4, giveUp := Some 5\<rparr>),
      nextNode := 36\<rparr>) = Running s' \<and>
      step (ele s') = stepWaitForCall \<and> \<not> d2 (ele s') \<and> time s' = 772 \<and>
      wait s' = [(0, \<lparr>nextTime = 899, nextInst = UserEnterPrepareForSuccessor\<rparr>)])"
proof -
  let ?d = "\<lparr>rIn = 2, rOut = 3, rGiveUp = 0, rInter = 889\<rparr>"
  let ?s = "(newSimulator\<lparr>time := 568, userID := 1,
      ele := newElevator\<lparr>d2 := True, elev1 := Some 35, elev2 := Some 32, elev3 := Some 31\<rparr>,
      wait := [(31, \<lparr>nextTime = 772, nextInst = ExecuteSetInactionIndicator\<rparr>),
               (0, \<lparr>nextTime = 899, nextInst = UserEnterPrepareForSuccessor\<rparr>)],
      users := (\<lambda>i. newUser i 0 0 0)
                 (1 := (newUser 1 2 4 300)\<lparr>listNode := Some 4, giveUp := Some 5\<rparr>),
      nextNode := 36\<rparr>)"
  let ?rest = "[(0::nat, \<lparr>nextTime = 899, nextInst = UserEnterPrepareForSuccessor\<rparr>)]"
  let ?n = "(31::nat, \<lparr>nextTime = 772, nextInst = ExecuteSetInactionIndicator\<rparr>)"
  have p: "wait ?s = ?n # ?rest \<and> nextInst (snd ?n) = ExecuteSetInactionIndicator \<and>
      nextTime (snd ?n) < maxTime"
    by (simp add: maxTime_def)
  have 0: "step (ele ?s) = stepWaitForCall" by (simp add: newElevator_def)
  from setInactionIndicator_frame[OF run_29_reachable, THEN conjunct2, rule_format, OF p, of ?d]
  obtain s' where s': "mainStep ?d ?s = Running s'"
    "decision (?s\<lparr>wait := ?rest, time := nextTime (snd ?n),
                 ele := (ele ?s)\<lparr>d2 := False\<rparr>\<rparr>) = Inr s'"
    "step (ele s') = step (ele ?s)" "\<not> d2 (ele s')"
    by blast
  from s'(2) have e: "s' = ?s\<lparr>wait := ?rest, time := 772, ele := (ele ?s)\<lparr>d2 := False\<rparr>\<rparr>"
    by (simp add: run_defs)
  have 1: "step (ele s') = stepWaitForCall" using s'(3) 0 by simp
  have 2: "time s' = 772" "wait s' = ?rest" by (simp_all add: e)
  from 0 s'(1) 1 s'(4) 2 show ?thesis by blast
qed

end
